(* ===== verification/Prelude.thy ===== *)
theory Prelude
  imports Main "HOL-Library.AList" "HOL-Library.Multiset" "HOL-Library.Word"
begin

text \<open>
  Shared vocabulary of the development: the collections of rewrite and introduction rules the
  component theories fill, the names of the model's basic types, and the generic facts on
  association lists, sorted lists and options that several components use.
\<close>

section \<open>Collections\<close>

named_theorems model_defs \<open>unfolding equations of the model's operations\<close>
named_theorems inv_defs \<open>unfolding equations of the components' invariants\<close>
named_theorems inv_intros \<open>preservation of the components' invariants by their operations\<close>

section \<open>Types\<close>

text \<open>
  Go's \<^verbatim>\<open>uint64\<close> is a 64-bit word, whose addition wraps. \<^verbatim>\<open>int\<close>, \<^verbatim>\<open>int64\<close>, \<^verbatim>\<open>time.Time\<close> and
  \<^verbatim>\<open>time.Duration\<close> are integers (nanoseconds for the latter two); the places where the source
  relies on their width say so. A fallible operation returns a sum, \<^term>\<open>Inl\<close> for the error.
\<close>

type_synonym uint64 = "64 word"
type_synonym instant = int
type_synonym duration = int
type_synonym ('k, 'v) gomap = "('k \<times> 'v) list"

abbreviation mget :: "('k, 'v) gomap \<Rightarrow> 'k \<Rightarrow> 'v option" where
  "mget m k \<equiv> map_of m k"

abbreviation mput :: "'k \<Rightarrow> 'v \<Rightarrow> ('k, 'v) gomap \<Rightarrow> ('k, 'v) gomap" where
  "mput k v m \<equiv> AList.update k v m"

abbreviation mdel :: "'k \<Rightarrow> ('k, 'v) gomap \<Rightarrow> ('k, 'v) gomap" where
  "mdel k m \<equiv> AList.delete k m"

abbreviation mkeys :: "('k, 'v) gomap \<Rightarrow> 'k list" where
  "mkeys m \<equiv> map fst m"

abbreviation mwf :: "('k, 'v) gomap \<Rightarrow> bool" where
  "mwf m \<equiv> distinct (map fst m)"

section \<open>Go maps as association lists\<close>

lemma mget_mput [simp]: "mget (mput k v m) k' = (if k' = k then Some v else mget m k')"
  by (simp add: update_conv)

lemma mget_mdel [simp]: "mget (mdel k m) k' = (if k' = k then None else mget m k')"
  by (simp add: delete_conv)

lemma mwf_mput [simp, intro]: "mwf m \<Longrightarrow> mwf (mput k v m)"
  by (rule distinct_update)

lemma mwf_mdel [simp, intro]: "mwf m \<Longrightarrow> mwf (mdel k m)"
  by (rule distinct_delete)

lemma set_mkeys_mput [simp]: "set (mkeys (mput k v m)) = insert k (set (mkeys m))"
  by (induction m) auto

lemma set_mkeys_mdel [simp]: "set (mkeys (mdel k m)) = set (mkeys m) - {k}"
  by (auto simp: AList.delete_eq)

lemma mget_None_iff: "mget m k = None \<longleftrightarrow> k \<notin> set (mkeys m)"
  by (simp add: map_of_eq_None_iff)

lemma mget_SomeD: "mget m k = Some v \<Longrightarrow> k \<in> set (mkeys m)"
  by (metis mget_None_iff option.distinct(1))

lemma mem_iff_mget: "mwf m \<Longrightarrow> (k, v) \<in> set m \<longleftrightarrow> mget m k = Some v"
  by auto

section \<open>Time\<close>

text \<open>\<^verbatim>\<open>Time.Sub\<close> saturates at the bounds of \<^verbatim>\<open>int64\<close>.\<close>

definition time_sub :: "instant \<Rightarrow> instant \<Rightarrow> duration" where
  "time_sub t s = max (- (2 ^ 63)) (min (2 ^ 63 - 1) (t - s))"

lemma time_sub_bounds: "s \<le> t \<Longrightarrow> 0 \<le> time_sub t s \<and> time_sub t s \<le> t - s \<and> time_sub t s < 2 ^ 63"
  by (auto simp: time_sub_def)

end
