(* ===== verification/GoStrings.thy ===== *)
theory GoStrings
  imports Prelude "HOL-Library.Sublist"
begin

text \<open>
  The part of Go's string library the program relies on. A Go string is a sequence of bytes, and
  HOL's \<^typ>\<open>char\<close> has exactly the 256 byte values, so a Go string is a \<^typ>\<open>string\<close>. This theory
  holds UTF-8 decoding and encoding (package \<^verbatim>\<open>unicode/utf8\<close>), \<^verbatim>\<open>TrimSpace\<close>, \<^verbatim>\<open>ToLower\<close>,
  \<^verbatim>\<open>Contains\<close>, \<^verbatim>\<open>Split\<close>, \<^verbatim>\<open>TrimSuffix\<close> (package \<^verbatim>\<open>strings\<close>), decimal and hexadecimal printing, and
  the facts the components need: decoding resynchronises at every byte that is not a continuation
  byte, \<^verbatim>\<open>TrimSpace\<close> is idempotent and returns a sub-slice, and the printers are injective.
\<close>

section \<open>Bytes and UTF-8\<close>

abbreviation byte :: "char \<Rightarrow> nat" where
  "byte c \<equiv> of_char c"

definition rune_error :: nat where
  "rune_error = 0xFFFD"

definition cont :: "char \<Rightarrow> bool" where
  "cont c \<longleftrightarrow> 0x80 \<le> byte c \<and> byte c \<le> 0xBF"

definition accept_lo :: "nat \<Rightarrow> nat" where
  "accept_lo b0 = (if b0 = 0xE0 then 0xA0 else if b0 = 0xF0 then 0x90 else 0x80)"

definition accept_hi :: "nat \<Rightarrow> nat" where
  "accept_hi b0 = (if b0 = 0xED then 0x9F else if b0 = 0xF4 then 0x8F else 0xBF)"

text \<open>\<^verbatim>\<open>utf8.DecodeRuneInString\<close>: the first rune and its width; \<^verbatim>\<open>(RuneError, 1)\<close> for an invalid
  encoding and \<^verbatim>\<open>(RuneError, 0)\<close> for the empty string.\<close>

fun decode_rune :: "string \<Rightarrow> nat \<times> nat" where
  "decode_rune [] = (rune_error, 0)"
| "decode_rune (c0 # cs) =
     (let b0 = byte c0 in
      if b0 < 0x80 then (b0, 1)
      else if b0 < 0xC2 \<or> 0xF4 < b0 then (rune_error, 1)
      else case cs of
        [] \<Rightarrow> (rune_error, 1)
      | c1 # cs1 \<Rightarrow>
        (let b1 = byte c1 in
         if b1 < accept_lo b0 \<or> accept_hi b0 < b1 then (rune_error, 1)
         else if b0 < 0xE0 then ((b0 mod 32) * 64 + b1 mod 64, 2)
         else case cs1 of
           [] \<Rightarrow> (rune_error, 1)
         | c2 # cs2 \<Rightarrow>
           (if \<not> cont c2 then (rune_error, 1)
            else if b0 < 0xF0 then (((b0 mod 16) * 64 + b1 mod 64) * 64 + byte c2 mod 64, 3)
            else case cs2 of
              [] \<Rightarrow> (rune_error, 1)
            | c3 # cs3 \<Rightarrow>
              (if \<not> cont c3 then (rune_error, 1)
               else ((((b0 mod 8) * 64 + b1 mod 64) * 64 + byte c2 mod 64) * 64 + byte c3 mod 64, 4)))))"

text \<open>The runes a \<^verbatim>\<open>for range\<close> loop visits, and \<^verbatim>\<open>utf8.RuneCountInString\<close>.\<close>

fun runes :: "string \<Rightarrow> nat list" where
  "runes [] = []"
| "runes (c # cs) = (case decode_rune (c # cs) of (r, n) \<Rightarrow> r # runes (drop (n - 1) cs))"

definition rune_count :: "string \<Rightarrow> nat" where
  "rune_count s = length (runes s)"

text \<open>\<^verbatim>\<open>utf8.DecodeLastRuneInString\<close>, on the reversed string: look back over at most three
  continuation bytes for the byte that starts the rune, decode from there, and accept the rune only
  if it ends where the string ends.\<close>

fun decode_last_rev :: "string \<Rightarrow> nat \<times> nat" where
  "decode_last_rev [] = (rune_error, 0)"
| "decode_last_rev (c # cs) =
     (if byte c < 0x80 then (byte c, 1)
      else let m = length (takeWhile cont (take 3 cs));
               w = rev (take (m + 2) (c # cs));
               (r, n) = decode_rune w
           in if n = length w then (r, n) else (rune_error, 1))"

text \<open>\<^verbatim>\<open>utf8.AppendRune\<close>: surrogates and values beyond the last code point are written as
  \<^verbatim>\<open>RuneError\<close>.\<close>

definition encode_rune :: "nat \<Rightarrow> string" where
  "encode_rune r0 =
     (let r = (if (0xD800 \<le> r0 \<and> r0 \<le> 0xDFFF) \<or> 0x10FFFF < r0 then rune_error else r0) in
      if r < 0x80 then [char_of r]
      else if r < 0x800 then [char_of (0xC0 + r div 64), char_of (0x80 + r mod 64)]
      else if r < 0x10000 then
        [char_of (0xE0 + r div 4096), char_of (0x80 + r div 64 mod 64), char_of (0x80 + r mod 64)]
      else [char_of (0xF0 + r div 262144), char_of (0x80 + r div 4096 mod 64),
            char_of (0x80 + r div 64 mod 64), char_of (0x80 + r mod 64)])"

text \<open>\<^verbatim>\<open>utf8.ValidRune\<close>.\<close>

definition valid_rune :: "nat \<Rightarrow> bool" where
  "valid_rune r \<longleftrightarrow> r < 0xD800 \<or> (0xE000 \<le> r \<and> r \<le> 0x10FFFF)"

section \<open>White space\<close>

text \<open>\<^verbatim>\<open>unicode.IsSpace\<close>.\<close>

definition is_space :: "nat \<Rightarrow> bool" where
  "is_space r \<longleftrightarrow> (9 \<le> r \<and> r \<le> 13) \<or> r = 32 \<or> r = 0x85 \<or> r = 0xA0 \<or> r = 0x1680 \<or>
     (0x2000 \<le> r \<and> r \<le> 0x200A) \<or> r = 0x2028 \<or> r = 0x2029 \<or> r = 0x202F \<or> r = 0x205F \<or> r = 0x3000"

fun trim_left :: "string \<Rightarrow> string" where
  "trim_left [] = []"
| "trim_left (c # cs) =
     (case decode_rune (c # cs) of (r, n) \<Rightarrow>
        if is_space r then trim_left (drop (n - 1) cs) else c # cs)"

fun trim_right_rev :: "string \<Rightarrow> string" where
  "trim_right_rev [] = []"
| "trim_right_rev (c # cs) =
     (case decode_last_rev (c # cs) of (r, n) \<Rightarrow>
        if is_space r then trim_right_rev (drop (n - 1) cs) else c # cs)"

definition trim_right :: "string \<Rightarrow> string" where
  "trim_right s = rev (trim_right_rev (rev s))"

definition trim_space :: "string \<Rightarrow> string" where
  "trim_space s = trim_right (trim_left s)"

text \<open>\<^verbatim>\<open>strings.TrimSpace(s) == ""\<close>, the test every validation of the program makes.\<close>

abbreviation blank :: "string \<Rightarrow> bool" where
  "blank s \<equiv> trim_space s = []"

section \<open>Case, search, split\<close>

text \<open>\<^verbatim>\<open>strings.ToLower\<close>: an ASCII string is lowered byte by byte; any other string is decoded, mapped
  rune by rune and encoded again, so that invalid bytes become \<^verbatim>\<open>RuneError\<close>. The argument \<open>ulower\<close>
  is the lower-case table of package \<^verbatim>\<open>unicode\<close> for runes beyond ASCII, data of the Unicode version
  the toolchain ships.\<close>

definition ascii_lower :: "nat \<Rightarrow> nat" where
  "ascii_lower b = (if 65 \<le> b \<and> b \<le> 90 then b + 32 else b)"

definition rune_lower :: "(nat \<Rightarrow> nat) \<Rightarrow> nat \<Rightarrow> nat" where
  "rune_lower ulower r = (if r < 0x80 then ascii_lower r else ulower r)"

definition to_lower :: "(nat \<Rightarrow> nat) \<Rightarrow> string \<Rightarrow> string" where
  "to_lower ulower s =
     (if list_all (\<lambda>c. byte c < 0x80) s then map (\<lambda>c. char_of (ascii_lower (byte c))) s
      else concat (map (\<lambda>r. encode_rune (rune_lower ulower r)) (runes s)))"

fun has_prefix :: "string \<Rightarrow> string \<Rightarrow> bool" where
  "has_prefix s [] = True"
| "has_prefix [] (p # ps) = False"
| "has_prefix (c # cs) (p # ps) = (c = p \<and> has_prefix cs ps)"

fun contains :: "string \<Rightarrow> string \<Rightarrow> bool" where
  "contains [] sub = (sub = [])"
| "contains (c # cs) sub = (has_prefix (c # cs) sub \<or> contains cs sub)"

text \<open>\<^verbatim>\<open>strings.Split\<close> with a one-byte separator.\<close>

fun split_on :: "char \<Rightarrow> string \<Rightarrow> string list" where
  "split_on d [] = [[]]"
| "split_on d (c # cs) =
     (if c = d then [] # split_on d cs
      else case split_on d cs of [] \<Rightarrow> [[c]] | w # ws \<Rightarrow> (c # w) # ws)"

text \<open>\<^verbatim>\<open>strings.TrimSuffix\<close> with a one-byte suffix.\<close>

definition trim_suffix :: "string \<Rightarrow> char \<Rightarrow> string" where
  "trim_suffix s d = (if s \<noteq> [] \<and> last s = d then butlast s else s)"

section \<open>Strings that are valid UTF-8\<close>

text \<open>The encoding of a list of runes, and white-space trimming of such a list: the specification
  that \<^verbatim>\<open>TrimSpace\<close> meets on valid UTF-8.\<close>

definition encode_runes :: "nat list \<Rightarrow> string" where
  "encode_runes rs = concat (map encode_rune rs)"

definition trim_runes :: "nat list \<Rightarrow> nat list" where
  "trim_runes rs = rev (dropWhile is_space (rev (dropWhile is_space rs)))"

section \<open>Printing numbers\<close>

definition digit :: "nat \<Rightarrow> char" where
  "digit n = char_of (if n < 10 then 48 + n else 87 + n)"

fun show_nat :: "nat \<Rightarrow> string" where
  "show_nat n = (if n < 10 then [digit n] else show_nat (n div 10) @ [digit (n mod 10)])"

declare show_nat.simps [simp del]

text \<open>The verb \<^verbatim>\<open>%d\<close> of package \<^verbatim>\<open>fmt\<close>.\<close>

definition show_int :: "int \<Rightarrow> string" where
  "show_int i = (if i < 0 then CHR ''-'' # show_nat (nat (- i)) else show_nat (nat i))"

text \<open>\<^verbatim>\<open>hex.EncodeToString\<close>.\<close>

definition hex_byte :: "nat \<Rightarrow> string" where
  "hex_byte b = [digit (b div 16), digit (b mod 16)]"

definition hex_encode :: "nat list \<Rightarrow> string" where
  "hex_encode bs = concat (map hex_byte bs)"

section \<open>Decoding\<close>

lemma byte_char_of [simp]: "n < 256 \<Longrightarrow> byte (char_of n) = n"
  by simp

declare decode_rune.simps(2) [simp del] and decode_last_rev.simps(2) [simp del]

lemmas decode_eqs = decode_rune.simps(2) decode_last_rev.simps(2)

lemma decode_rune_bounds:
  assumes "s \<noteq> []"
  shows "1 \<le> snd (decode_rune s)" "snd (decode_rune s) \<le> length s" "snd (decode_rune s) \<le> 4"
  using assms by (cases s; auto simp: decode_eqs Let_def split: list.splits)+

lemma accept_bounds: "0x80 \<le> accept_lo b" "accept_hi b \<le> 0xBF"
  by (auto simp: accept_lo_def accept_hi_def)

lemma accept_cont: "\<not> byte c < accept_lo b \<Longrightarrow> \<not> accept_hi b < byte c \<Longrightarrow> cont c"
  using accept_bounds [of b] by (auto simp: cont_def)

lemma decode_rune_append:
  assumes "w \<noteq> []" and "ys = [] \<or> \<not> cont (hd ys)"
  shows "decode_rune (w @ ys) = decode_rune w"
proof (cases ys)
  case Nil
  then show ?thesis by simp
next
  case (Cons y ys')
  with assms obtain c cs where w: "w = c # cs" and y: "\<not> cont y"
    by (cases w) auto
  have lo: "\<And>b. \<not> byte y < accept_lo b \<Longrightarrow> accept_hi b < byte y"
    using y accept_cont by blast
  show ?thesis
    unfolding w Cons using y lo
    by (auto simp: decode_eqs Let_def split: list.split)
qed

lemma decode_rune_start:
  "decode_rune (c # cs) = (r, n) \<Longrightarrow> r \<noteq> rune_error \<or> n \<noteq> 1 \<Longrightarrow> \<not> cont c"
  by (auto simp: decode_eqs Let_def cont_def split: if_splits list.splits)

lemma not_space_error [simp]: "\<not> is_space rune_error"
  by (simp add: is_space_def rune_error_def)

lemma runes_append:
  "ys = [] \<or> \<not> cont (hd ys) \<Longrightarrow> runes (xs @ ys) = runes xs @ runes ys"
proof (induction xs rule: runes.induct)
  case 1
  then show ?case by simp
next
  case (2 c cs)
  obtain r n where d: "decode_rune (c # cs) = (r, n)" by fastforce
  have d': "decode_rune (c # cs @ ys) = (r, n)"
    using decode_rune_append [of "c # cs" ys] 2 d by simp
  have "n - 1 \<le> length cs"
    using decode_rune_bounds [of "c # cs"] d by simp
  then show ?case using 2 d d' by simp
qed

lemma rune_count_le: "rune_count s \<le> length s"
  unfolding rune_count_def
proof (induction s rule: runes.induct)
  case (2 c cs)
  obtain r n where d: "decode_rune (c # cs) = (r, n)" by fastforce
  with "2.IH" show ?case by simp
qed simp

lemma length_le_rune_count: "length s \<le> 4 * rune_count s"
  unfolding rune_count_def
proof (induction s rule: runes.induct)
  case (2 c cs)
  obtain r n where d: "decode_rune (c # cs) = (r, n)" by fastforce
  have "n \<le> 4" using decode_rune_bounds(3) [of "c # cs"] d by simp
  with d "2.IH" show ?case by simp
qed simp

section \<open>Trimming\<close>

lemma trim_left_suffix: "\<exists>p. s = p @ trim_left s"
proof (induction s rule: trim_left.induct)
  case (2 c cs)
  obtain r n where d: "decode_rune (c # cs) = (r, n)" by fastforce
  show ?case
  proof (cases "is_space r")
    case True
    with d "2.IH" obtain p where "drop (n - 1) cs = p @ trim_left (drop (n - 1) cs)"
      by auto
    then have "c # cs = (c # take (n - 1) cs @ p) @ trim_left (drop (n - 1) cs)"
      by (metis append_Cons append_assoc append_take_drop_id)
    with True d show ?thesis by (intro exI [of _ "c # take (n - 1) cs @ p"]) simp
  qed (use d in simp)
qed simp

lemma trim_left_head: "trim_left s \<noteq> [] \<Longrightarrow> \<not> is_space (fst (decode_rune (trim_left s)))"
  by (induction s rule: trim_left.induct) (auto split: prod.splits)

lemma trim_left_fix: "s = [] \<or> \<not> is_space (fst (decode_rune s)) \<Longrightarrow> trim_left s = s"
  by (cases s) (auto split: prod.splits)

text \<open>What right trimming removes is a suffix that does not start with a continuation byte.\<close>

lemma decode_last_rev_space:
  assumes "decode_last_rev (c # cs) = (r, n)" and "is_space r"
  shows "1 \<le> n \<and> n \<le> Suc (length cs) \<and> \<not> cont ((c # cs) ! (n - 1))"
proof (cases "byte c < 0x80")
  case True
  with assms show ?thesis by (auto simp: decode_eqs cont_def)
next
  case False
  define w where "w = rev (take (length (takeWhile cont (take 3 cs)) + 2) (c # cs))"
  from False assms have d: "decode_rune w = (r, n)" and n: "n = length w"
    by (auto simp: decode_eqs Let_def w_def split: prod.splits if_splits)
  have w: "w \<noteq> []" by (simp add: w_def)
  have "n \<le> Suc (length cs)" using n by (simp add: w_def)
  moreover have "1 \<le> n" using n w by (cases w) auto
  moreover have "hd w = (c # cs) ! (n - 1)"
  proof -
    have "hd w = last (rev w)" using w by (simp add: last_rev)
    also have "\<dots> = rev w ! (n - 1)" using w n by (simp add: last_conv_nth)
    also have "\<dots> = (c # cs) ! (n - 1)"
      using n w unfolding w_def by (simp del: take_Suc_Cons)
    finally show ?thesis .
  qed
  moreover have "\<not> cont (hd w)"
    using d decode_rune_start [of "hd w" "tl w" r n] w assms(2) not_space_error
    by (metis list.collapse)
  ultimately show ?thesis by simp
qed

lemma trim_right_rev_prefix:
  "\<exists>p. s = p @ trim_right_rev s \<and> (p = [] \<or> \<not> cont (last p))"
proof (induction s rule: trim_right_rev.induct)
  case (2 c cs)
  obtain r n where d: "decode_last_rev (c # cs) = (r, n)" by fastforce
  show ?case
  proof (cases "is_space r")
    case True
    note b = decode_last_rev_space [OF d True]
    with True d "2.IH" obtain p
      where p: "drop (n - 1) cs = p @ trim_right_rev (drop (n - 1) cs)" "p = [] \<or> \<not> cont (last p)"
      by auto
    let ?q = "(c # take (n - 1) cs) @ p"
    have "c # cs = ?q @ trim_right_rev (drop (n - 1) cs)"
      using p(1) by (metis append_Cons append_assoc append_take_drop_id)
    moreover have "\<not> cont (last ?q)"
    proof (cases "p = []")
      case True
      have "c # take (n - 1) cs = take n (c # cs)" using b by (cases n) auto
      then have "last ?q = (c # cs) ! (n - 1)"
        using b True by (auto simp: last_conv_nth min_def dest: le_antisym simp del: take_Suc_Cons)
      then show ?thesis using b by simp
    qed (use p in simp)
    ultimately show ?thesis using True d by (intro exI [of _ ?q]) simp
  qed (use d in simp)
qed simp

lemma trim_right_prefix:
  "\<exists>p. s = trim_right s @ p \<and> (p = [] \<or> \<not> cont (hd p))"
proof -
  obtain p where "rev s = p @ trim_right_rev (rev s)" "p = [] \<or> \<not> cont (last p)"
    using trim_right_rev_prefix by blast
  then have "s = trim_right s @ rev p"
    unfolding trim_right_def by (metis rev_append rev_rev_ident)
  with \<open>p = [] \<or> _\<close> show ?thesis by (intro exI [of _ "rev p"]) (auto simp: hd_rev)
qed

lemma trim_right_rev_idem: "trim_right_rev (trim_right_rev s) = trim_right_rev s"
  by (induction s rule: trim_right_rev.induct) (auto split: prod.splits)

lemma trim_space_idem [simp]: "trim_space (trim_space s) = trim_space s"
proof -
  define t where "t = trim_left s"
  obtain p where p: "t = trim_right t @ p" "p = [] \<or> \<not> cont (hd p)"
    using trim_right_prefix by blast
  have "trim_left (trim_right t) = trim_right t"
  proof (cases "trim_right t = []")
    case False
    then have "t \<noteq> []" using p(1) by auto
    then have "\<not> is_space (fst (decode_rune t))"
      using trim_left_head [of s] by (simp add: t_def)
    moreover have "decode_rune t = decode_rune (trim_right t)"
      using decode_rune_append [OF False p(2)] p(1) by simp
    ultimately show ?thesis by (intro trim_left_fix) simp
  qed simp
  then show ?thesis
    by (simp add: trim_space_def t_def [symmetric]) (simp add: trim_right_def trim_right_rev_idem)
qed

lemma trim_space_infix: "\<exists>a b. s = a @ trim_space s @ b"
proof -
  obtain a where "s = a @ trim_left s" using trim_left_suffix by blast
  moreover obtain b where "trim_left s = trim_right (trim_left s) @ b"
    using trim_right_prefix by blast
  ultimately show ?thesis unfolding trim_space_def by metis
qed


section \<open>Searching\<close>

lemma has_prefix_iff: "has_prefix s p \<longleftrightarrow> (\<exists>t. s = p @ t)"
  by (induction s p rule: has_prefix.induct) auto

lemma contains_iff: "contains s sub \<longleftrightarrow> (\<exists>a b. s = a @ sub @ b)"
proof (induction s)
  case (Cons c cs)
  have "(\<exists>a b. c # cs = a @ sub @ b) \<longleftrightarrow> (\<exists>b. c # cs = sub @ b) \<or> (\<exists>a b. cs = a @ sub @ b)"
    by (metis append_Cons append_eq_Cons_conv append_Nil)
  with Cons show ?case by (simp add: has_prefix_iff)
qed simp

lemma contains_refl [simp]: "contains s s"
  unfolding contains_iff by (metis append_Nil append_Nil2)

section \<open>Encoding\<close>

lemma lead_mod:
  "a < 32 \<Longrightarrow> (192 + a) mod 32 = (a::nat)" "a < 64 \<Longrightarrow> (128 + a) mod 64 = (a::nat)"
  "a < 16 \<Longrightarrow> (224 + a) mod 16 = (a::nat)" "a < 8 \<Longrightarrow> (240 + a) mod 8 = (a::nat)"
  by (subst mod_add_eq [symmetric], simp)+

lemma decode_2:
  assumes "2 \<le> a" "a < 32" "b < 64"
  shows "decode_rune (char_of (192 + a) # char_of (128 + b) # ys) = (a * 64 + b, 2)"
  using assms lead_mod(1) [of a] lead_mod(2) [of b]
  by (auto simp: decode_eqs accept_lo_def accept_hi_def Let_def)

lemma decode_3:
  assumes "a < 16" "b < 64" "c < 64" "a = 0 \<longrightarrow> 32 \<le> b" "a = 13 \<longrightarrow> b < 32"
  shows "decode_rune (char_of (224 + a) # char_of (128 + b) # char_of (128 + c) # ys)
    = ((a * 64 + b) * 64 + c, 3)"
  using assms lead_mod(3) [of a] lead_mod(2) [of b] lead_mod(2) [of c]
  by (auto simp: decode_eqs accept_lo_def accept_hi_def Let_def cont_def)

lemma decode_4:
  assumes "a < 5" "b < 64" "c < 64" "d < 64" "a = 0 \<longrightarrow> 16 \<le> b" "a = 4 \<longrightarrow> b < 16"
  shows "decode_rune (char_of (240 + a) # char_of (128 + b) # char_of (128 + c) # char_of (128 + d) # ys)
    = (((a * 64 + b) * 64 + c) * 64 + d, 4)"
  using assms lead_mod(4) [of a] lead_mod(2) [of b] lead_mod(2) [of c] lead_mod(2) [of d]
  by (auto simp: decode_eqs accept_lo_def accept_hi_def Let_def cont_def)

lemma encode_decode:
  assumes "valid_rune r"
  shows "decode_rune (encode_rune r @ ys) = (r, length (encode_rune r))"
proof -
  have v: "\<not> (0xD800 \<le> r \<and> r \<le> 0xDFFF)" "r \<le> 0x10FFFF"
    using assms by (auto simp: valid_rune_def)
  have v': "r < 0xD800 \<or> 0xE000 \<le> r" using v(1) by linarith
  define q where "q = r div 64"
  define p where "p = q div 64"
  have r: "r = q * 64 + r mod 64" and q: "q = p * 64 + q mod 64" and p: "p = p div 64 * 64 + p mod 64"
    by (simp_all add: q_def p_def)
  have m: "r mod 64 < 64" "q mod 64 < 64" "p mod 64 < 64" by simp_all
  have e: "r div 4096 = p" "r div 262144 = p div 64" "r div 4096 mod 64 = p mod 64" "r div 64 = q"
    by (simp_all add: p_def q_def div_mult2_eq [symmetric])
  have nb: "(if (0xD800 \<le> r \<and> r \<le> 0xDFFF) \<or> 0x10FFFF < r then rune_error else r) = r"
    using v by auto
  note enc = encode_rune_def [of r, unfolded nb Let_def e]
  consider "r < 0x80" | "0x80 \<le> r" "r < 0x800" | "0x800 \<le> r" "r < 0x10000" | "0x10000 \<le> r"
    by linarith
  then show ?thesis
  proof cases
    case 1
    then show ?thesis by (simp add: enc decode_eqs)
  next
    case 2
    then have "2 \<le> q" "q < 32" by (auto simp: q_def)
    moreover have "encode_rune r = [char_of (192 + q), char_of (128 + r mod 64)]"
      using 2 by (simp add: enc)
    ultimately show ?thesis using decode_2 [of q "r mod 64" ys] r m by simp
  next
    case 3
    have "p < 16" using 3 r q by linarith
    moreover have "p = 0 \<longrightarrow> 32 \<le> q mod 64" using 3 r q m by (intro impI) linarith
    moreover have "p = 13 \<longrightarrow> q mod 64 < 32"
      using v' 3 r q m by (intro impI) (elim disjE; linarith)
    moreover note m
    moreover have "encode_rune r = [char_of (224 + p), char_of (128 + q mod 64), char_of (128 + r mod 64)]"
      using 3 by (simp add: enc)
    ultimately show ?thesis using decode_3 [of p "q mod 64" "r mod 64" ys] r q by simp
  next
    case 4
    have "p div 64 < 5" using v(2) r q p m by linarith
    moreover have "p div 64 = 0 \<longrightarrow> 16 \<le> p mod 64" using 4 r q p m by (intro impI) linarith
    moreover have "p div 64 = 4 \<longrightarrow> p mod 64 < 16" using v(2) r q p m by (intro impI) linarith
    moreover note m
    moreover have "encode_rune r = [char_of (240 + p div 64), char_of (128 + p mod 64),
        char_of (128 + q mod 64), char_of (128 + r mod 64)]"
      using 4 by (simp add: enc)
    ultimately show ?thesis using decode_4 [of "p div 64" "p mod 64" "q mod 64" "r mod 64" ys] r q p
      by simp
  qed
qed

lemma encode_rune_start: "encode_rune r \<noteq> []" "\<not> cont (hd (encode_rune r))"
proof -
  show ne: "encode_rune r \<noteq> []" by (simp add: encode_rune_def Let_def)
  define r' where "r' = (if (0xD800 \<le> r \<and> r \<le> 0xDFFF) \<or> 0x10FFFF < r then rune_error else r)"
  have v: "valid_rune r'" by (auto simp: r'_def valid_rune_def rune_error_def)
  have eq: "encode_rune r = encode_rune r'"
    by (auto simp: encode_rune_def r'_def rune_error_def)
  have "rune_error \<noteq> r' \<or> length (encode_rune r') \<noteq> 1"
    by (auto simp: encode_rune_def rune_error_def)
  then show "\<not> cont (hd (encode_rune r))"
    using encode_decode [OF v, of "[]"] decode_rune_start ne unfolding eq
    by (metis append_Nil2 list.collapse)
qed

lemma runes_encode: "valid_rune r \<Longrightarrow> runes (encode_rune r) = [r]"
proof -
  assume v: "valid_rune r"
  obtain c cs where e: "encode_rune r = c # cs" using encode_rune_start(1) by (cases "encode_rune r") auto
  with encode_decode [OF v, of "[]"] show ?thesis by simp
qed

lemma runes_concat_encode:
  "list_all valid_rune rs \<Longrightarrow> runes (concat (map encode_rune rs)) = rs"
proof (induction rs)
  case (Cons r rs)
  let ?t = "concat (map encode_rune rs)"
  have "?t = [] \<or> \<not> cont (hd ?t)"
    using encode_rune_start by (cases rs) (simp_all add: hd_append)
  with Cons show ?case by (simp add: runes_append runes_encode)
qed simp

section \<open>Operations on valid UTF-8\<close>

lemma encode_runes_simps [simp]:
  "encode_runes [] = []" "encode_runes (r # rs) = encode_rune r @ encode_runes rs"
  "encode_runes (xs @ ys) = encode_runes xs @ encode_runes ys"
  by (simp_all add: encode_runes_def)

lemma encode_runes_hd: "encode_runes rs = [] \<or> \<not> cont (hd (encode_runes rs))"
  using encode_rune_start by (cases rs) simp_all

lemma cont_low: "cont (char_of (128 + n mod 64 :: nat))"
proof -
  have "n mod 64 < (64::nat)" by simp
  then show ?thesis by (simp add: cont_def)
qed

lemma encode_rune_shape:
  obtains (ascii) c where "encode_rune r = [c]" "byte c < 0x80"
  | (multi) c cs where "encode_rune r = c # cs" "cs \<noteq> []" "length cs \<le> 3" "\<forall>d\<in>set cs. cont d"
proof -
  define r' where "r' = (if (0xD800 \<le> r \<and> r \<le> 0xDFFF) \<or> 0x10FFFF < r then rune_error else r)"
  note e = encode_rune_def [of r, folded r'_def, unfolded Let_def]
  show thesis
  proof (cases "r' < 0x80")
    case True
    then show thesis using byte_char_of [of r'] by (intro ascii [of "char_of r'"]) (simp_all add: e)
  next
    case False
    then show thesis
      by (intro multi [of "hd (encode_rune r)" "tl (encode_rune r)"]) (auto simp: e cont_low)
  qed
qed

lemma decode_last_encode:
  assumes "valid_rune r"
  shows "decode_last_rev (rev (xs @ encode_rune r)) = (r, length (encode_rune r))"
proof (cases r rule: encode_rune_shape)
  case (ascii c)
  with encode_decode [OF assms, of "[]"] show ?thesis by (simp add: decode_eqs)
next
  case (multi c cs)
  obtain d ds where ds: "rev cs = d # ds" using multi(2) by (cases "rev cs") auto
  have d: "cont d" "\<forall>e\<in>set ds. cont e" "length ds \<le> 2"
    using multi(3,4) ds by (metis set_rev list.set_intros, metis set_rev list.set_intros(2),
        metis length_rev length_Cons Suc_le_mono numeral_3_eq_3 numeral_2_eq_2)
  have c: "\<not> cont c" using encode_rune_start(2) [of r] multi(1) by simp
  have m: "length (takeWhile cont (take 3 (ds @ c # rev xs))) = length ds"
  proof -
    obtain k where "3 - length ds = Suc k" using d(3) by (cases "3 - length ds") auto
    then show ?thesis using d(2,3) c by (simp add: takeWhile_append2)
  qed
  have w: "rev (take (length ds + 2) (d # ds @ c # rev xs)) = encode_rune r"
  proof -
    have "cs = rev ds @ [d]" using ds by (metis rev.simps(2) rev_rev_ident)
    then show ?thesis using multi(1) by simp
  qed
  have rv: "rev (xs @ encode_rune r) = d # ds @ c # rev xs" using ds multi(1) by simp
  have "\<not> byte d < 0x80" using d(1) by (simp add: cont_def)
  then show ?thesis
    unfolding rv decode_last_rev.simps(2) Let_def m w
    using encode_decode [OF assms, of "[]"] by simp
qed

lemma trim_left_encode:
  "list_all valid_rune rs \<Longrightarrow> trim_left (encode_runes rs) = encode_runes (dropWhile is_space rs)"
proof (induction rs)
  case (Cons r rs)
  obtain c cs where e: "encode_rune r = c # cs" using encode_rune_start(1) by (cases "encode_rune r") auto
  with Cons encode_decode [of r "encode_runes rs"] show ?case by simp
qed simp

lemma trim_right_encode:
  "list_all valid_rune rs \<Longrightarrow> trim_right (encode_runes rs) = encode_runes (rev (dropWhile is_space (rev rs)))"
proof (induction rs rule: rev_induct)
  case Nil
  then show ?case by (simp add: trim_right_def)
next
  case (snoc r rs)
  then have v: "valid_rune r" and IH: "trim_right (encode_runes rs) = encode_runes (rev (dropWhile is_space (rev rs)))"
    by simp_all
  have "rev (encode_rune r) \<noteq> []" using encode_rune_start(1) by simp
  then obtain c cs where e: "rev (encode_rune r) = c # cs" by (cases "rev (encode_rune r)") auto
  then have l: "length (encode_rune r) = Suc (length cs)" by (metis length_rev length_Cons)
  show ?case
    using decode_last_encode [OF v, of "encode_runes rs"] e l IH
    by (auto simp: trim_right_def rev_swap)
qed

lemma trim_space_encode:
  assumes "list_all valid_rune rs"
  shows "trim_space (encode_runes rs) = encode_runes (trim_runes rs)"
proof -
  have "list_all valid_rune (dropWhile is_space rs)"
    using assms by (auto simp: list_all_iff dest: set_dropWhileD)
  then show ?thesis
    using assms by (simp add: trim_space_def trim_left_encode trim_right_encode trim_runes_def)
qed

lemma runes_ascii: "list_all (\<lambda>c. byte c < 0x80) s \<Longrightarrow> runes s = map byte s"
  by (induction s) (simp_all add: decode_eqs)

lemma to_lower_runes: "to_lower u s = encode_runes (map (rune_lower u) (runes s))"
proof (cases "list_all (\<lambda>c. byte c < 0x80) s")
  case True
  have one: "encode_rune (rune_lower u (byte c)) = [char_of (ascii_lower (byte c))]" if "byte c < 0x80" for c
    using that by (auto simp: encode_rune_def rune_lower_def ascii_lower_def)
  from True have "map (\<lambda>c. char_of (ascii_lower (byte c))) s = encode_runes (map (rune_lower u) (map byte s))"
    by (induction s) (simp_all add: one)
  with True show ?thesis by (simp add: to_lower_def runes_ascii)
next
  case False
  then show ?thesis by (auto simp: to_lower_def encode_runes_def comp_def)
qed

lemma encode_runes_sublist:
  assumes "list_all valid_rune xs" "list_all valid_rune ys" 
  shows "contains (encode_runes ys) (encode_runes xs) \<longleftrightarrow> sublist xs ys"
proof
  assume "sublist xs ys"
  then show "contains (encode_runes ys) (encode_runes xs)"
    by (auto simp: sublist_def contains_iff) blast
next
  assume "contains (encode_runes ys) (encode_runes xs)"
  then obtain a b where ab: "encode_runes ys = a @ encode_runes xs @ b"
    by (auto simp: contains_iff)
  show "sublist xs ys"
  proof (cases "xs = []")
    case False
    then have "encode_runes xs \<noteq> []" using encode_rune_start(1) by (cases xs) auto
    then have s: "\<not> cont (hd (encode_runes xs @ b))" using encode_runes_hd [of xs] by simp
    have "runes (encode_runes xs @ b) = xs @ runes b"
      using assms(1)
    proof (induction xs)
      case (Cons r rs)
      obtain c cs where e: "encode_rune r = c # cs" using encode_rune_start(1) by (cases "encode_rune r") auto
      with Cons encode_decode [of r "encode_runes rs @ b"] show ?case by simp
    qed simp
    then have "runes (encode_runes ys) = runes a @ xs @ runes b"
      using runes_append [of "encode_runes xs @ b" a] s by (simp add: ab)
    then show ?thesis
      using runes_concat_encode [OF assms(2)] by (auto simp: encode_runes_def)
  qed simp
qed

section \<open>Printing is injective\<close>

lemma byte_digit: "n < 16 \<Longrightarrow> byte (digit n) = (if n < 10 then 48 + n else 87 + n)"
  by (simp add: digit_def)

lemma digit_inj: "m < 16 \<Longrightarrow> n < 16 \<Longrightarrow> digit m = digit n \<Longrightarrow> m = n"
  by (drule arg_cong [of _ _ byte]) (auto simp: byte_digit split: if_splits)

lemma show_nat_nonempty [simp]: "show_nat n \<noteq> []"
  by (subst show_nat.simps) simp

lemma show_nat_inj: "show_nat m = show_nat n \<Longrightarrow> m = n"
proof (induction m arbitrary: n rule: show_nat.induct)
  case (1 m)
  show ?case
  proof (cases "m < 10 \<or> n < 10")
    case True
    with "1.prems" show ?thesis
      by (auto simp: show_nat.simps [of m] show_nat.simps [of n] append_eq_Cons_conv
          dest!: digit_inj [rotated 2] dest: sym [of "[]"] split: if_splits)
  next
    case False
    then have "show_nat (m div 10) = show_nat (n div 10)" "digit (m mod 10) = digit (n mod 10)"
      using "1.prems" by (auto simp: show_nat.simps [of m] show_nat.simps [of n])
    with "1.IH" False have "m div 10 = n div 10" "m mod 10 = n mod 10"
      by (auto dest!: digit_inj [rotated 2])
    then show ?thesis by (metis div_mult_mod_eq)
  qed
qed

lemma show_nat_digits: "c \<in> set (show_nat n) \<Longrightarrow> 48 \<le> byte c \<and> byte c \<le> 57"
proof (induction n rule: show_nat.induct)
  case (1 n)
  show ?case
  proof (cases "n < 10")
    case True
    with "1.prems" show ?thesis by (simp add: show_nat.simps [of n] byte_digit)
  next
    case False
    with "1.prems" consider "c \<in> set (show_nat (n div 10))" | "c = digit (n mod 10)"
      by (auto simp: show_nat.simps [of n])
    then show ?thesis
    proof cases
      case 2
      then show ?thesis by (simp add: byte_digit)
    qed (use False "1.IH" in simp)
  qed
qed

lemma show_int_inj: "show_int i = show_int j \<Longrightarrow> i = j"
proof -
  have neg: "show_nat n \<noteq> CHR ''-'' # t" for n t
    using show_nat_digits [of "CHR ''-''" n] by (auto dest: arg_cong [of _ _ set])
  assume "show_int i = show_int j"
  then show ?thesis
    using neg neg [symmetric]
    by (auto simp: show_int_def dest!: show_nat_inj split: if_splits)
qed

lemma length_hex_encode [simp]: "length (hex_encode bs) = 2 * length bs"
  by (induction bs) (simp_all add: hex_encode_def hex_byte_def)

lemma hex_encode_inj:
  assumes "hex_encode as = hex_encode bs" "\<forall>a\<in>set as. a < 256" "\<forall>b\<in>set bs. b < 256"
  shows "as = bs"
  using assms
proof (induction as arbitrary: bs)
  case Nil
  then show ?case by (cases bs) (auto simp: hex_encode_def hex_byte_def)
next
  case (Cons a as)
  then obtain b bs' where bs: "bs = b # bs'" by (cases bs) (auto simp: hex_encode_def hex_byte_def)
  with Cons.prems have d: "digit (a div 16) = digit (b div 16)" "digit (a mod 16) = digit (b mod 16)"
    and r: "hex_encode as = hex_encode bs'"
    by (auto simp: hex_encode_def hex_byte_def)
  have "a div 16 = b div 16" using d(1) Cons.prems bs by (intro digit_inj) auto
  moreover have "a mod 16 = b mod 16" using d(2) by (intro digit_inj) auto
  ultimately have "a = b" by (metis div_mult_mod_eq)
  with Cons.IH [OF r] Cons.prems bs show ?case by simp
qed

text \<open>Strings of visible ASCII characters are not trimmed; hexadecimal and decimal numbers are such strings.\<close>

abbreviation graphic :: "string \<Rightarrow> bool" where
  "graphic s \<equiv> list_all (\<lambda>c. 33 \<le> byte c \<and> byte c < 0x80) s"

lemma trim_space_graphic: "graphic s \<Longrightarrow> trim_space s = s"
proof -
  have l: "trim_left s = s" if "graphic s" for s
    using that by (cases s) (auto simp: decode_eqs is_space_def)
  have r: "trim_right_rev s = s" if "graphic s" for s
    using that by (cases s) (auto simp: decode_eqs is_space_def)
  assume "graphic s"
  then show ?thesis using l [of s] r [of "rev s"] by (simp add: trim_space_def trim_right_def list_all_rev)
qed

lemma graphic_hex_encode: "\<forall>b\<in>set bs. b < 256 \<Longrightarrow> graphic (hex_encode bs)"
proof (induction bs)
  case (Cons b bs)
  then have "b div 16 < 16" "b mod 16 < 16" by auto
  then show ?case using Cons byte_digit [of "b div 16"] byte_digit [of "b mod 16"]
    by (auto simp: hex_encode_def hex_byte_def)
qed (simp add: hex_encode_def)

end
