(* ===== verification/Message.thy ===== *)
theory Message
  imports GoStrings
begin

text \<open>
  \<^verbatim>\<open>src/internal/message/message.go\<close>: the message that travels between gateway, bus, consumer and
  room, and its validation. An instant counts nanoseconds from Go's zero time, so \<^verbatim>\<open>IsZero\<close> is
  equality with 0.
\<close>

record danmaku =
  MessageID :: string
  RoomID :: string
  UserID :: string
  Content :: string
  Sequence :: uint64
  CreatedAt :: instant

datatype message_error =
  ErrEmptyMessageID | ErrEmptyRoomID | ErrEmptyUserID | ErrEmptyContent | ErrEmptyCreatedAt

text \<open>\<^verbatim>\<open>Danmaku.Validate\<close>: \<^term>\<open>None\<close> is Go's \<^verbatim>\<open>nil\<close> error.\<close>

definition Validate :: "danmaku \<Rightarrow> message_error option" where
  "Validate d =
     (if blank (MessageID d) then Some ErrEmptyMessageID
      else if blank (RoomID d) then Some ErrEmptyRoomID
      else if blank (UserID d) then Some ErrEmptyUserID
      else if blank (Content d) then Some ErrEmptyContent
      else if CreatedAt d = 0 then Some ErrEmptyCreatedAt
      else None)"

lemma Validate_None_iff:
  "Validate d = None \<longleftrightarrow>
     \<not> blank (MessageID d) \<and> \<not> blank (RoomID d) \<and> \<not> blank (UserID d) \<and> \<not> blank (Content d) \<and>
     CreatedAt d \<noteq> 0"
  by (simp add: Validate_def)

end
