(* ===== verification/Channels.thy ===== *)
theory Channels
  imports Prelude
begin

text \<open>
  Buffered Go channels as values: the buffer in order of arrival, the capacity, and whether the channel is
  closed. An operation that would block returns a value that says so, and the run-time panics of sending on
  or closing a closed channel are values too. Handing an element directly to a receiver that already waits
  is the same as buffering it and receiving it at once, so no separate case is needed for a capacity of at
  least one, which is the only kind the program shares between goroutines that exchange messages.
\<close>

record 'a chan =
  buf :: "'a list"
  cap :: nat
  closed :: bool

datatype send_result = Sent | WouldBlock | SendOnClosed

datatype 'a recv_result = Got 'a | RecvBlocks | RecvClosed

definition make_chan :: "nat \<Rightarrow> 'a chan" where
  "make_chan n = \<lparr>buf = [], cap = n, closed = False\<rparr>"

text \<open>\<^verbatim>\<open>select { case ch <- x: ...; default: ... }\<close>, and one attempt of a blocking send.\<close>

definition try_send :: "'a chan \<Rightarrow> 'a \<Rightarrow> send_result \<times> 'a chan" where
  "try_send ch x =
     (if closed ch then (SendOnClosed, ch)
      else if length (buf ch) < cap ch then (Sent, ch\<lparr>buf := buf ch @ [x]\<rparr>)
      else (WouldBlock, ch))"

definition try_recv :: "'a chan \<Rightarrow> 'a recv_result \<times> 'a chan" where
  "try_recv ch =
     (case buf ch of
        x # xs \<Rightarrow> (Got x, ch\<lparr>buf := xs\<rparr>)
      | [] \<Rightarrow> (if closed ch then RecvClosed else RecvBlocks, ch))"

text \<open>\<^verbatim>\<open>close(ch)\<close>: \<^term>\<open>None\<close> is the panic of closing a closed channel.\<close>

definition close_chan :: "'a chan \<Rightarrow> 'a chan option" where
  "close_chan ch = (if closed ch then None else Some (ch\<lparr>closed := True\<rparr>))"

definition chan_ok :: "'a chan \<Rightarrow> bool" where
  "chan_ok ch \<longleftrightarrow> length (buf ch) \<le> cap ch"

lemma chan_ok_make [simp]: "chan_ok (make_chan n)"
  by (simp add: chan_ok_def make_chan_def)

lemma chan_ok_send [simp]: "chan_ok ch \<Longrightarrow> chan_ok (snd (try_send ch x))"
  by (simp add: chan_ok_def try_send_def)

lemma chan_ok_recv [simp]: "chan_ok ch \<Longrightarrow> chan_ok (snd (try_recv ch))"
  by (auto simp: chan_ok_def try_recv_def split: list.split)

lemma cap_ops [simp]:
  "cap (make_chan n) = n" "cap (snd (try_send ch x)) = cap ch" "cap (snd (try_recv ch)) = cap ch"
  by (simp_all add: make_chan_def try_send_def try_recv_def split: list.split)

section \<open>Channels are bounded queues\<close>

text \<open>The interface a producer and a consumer rely on: what is accepted is appended, what is received is the
  head, and nothing else changes the contents. Whatever the interleaving, the elements received so far
  followed by the buffer are the elements accepted so far.\<close>

datatype 'a chan_event = ESend 'a | ERecv

locale bounded_queue =
  fixes contents :: "'q \<Rightarrow> 'a list"
    and offer :: "'q \<Rightarrow> 'a \<Rightarrow> bool \<times> 'q"
    and poll :: "'q \<Rightarrow> 'a option \<times> 'q"
    and bound :: "'q \<Rightarrow> nat"
  assumes offer_contents: "contents (snd (offer q x)) = (if fst (offer q x) then contents q @ [x] else contents q)"
    and poll_contents: "contents q = (case fst (poll q) of None \<Rightarrow> [] | Some x \<Rightarrow> [x]) @ contents (snd (poll q))"
    and poll_None: "fst (poll q) = None \<longleftrightarrow> contents q = []"
    and offer_bound: "length (contents q) \<le> bound q \<Longrightarrow> length (contents (snd (offer q x))) \<le> bound q"
    and bound_offer: "bound (snd (offer q x)) = bound q"
    and bound_poll: "bound (snd (poll q)) = bound q"
begin

fun drive :: "'q \<Rightarrow> 'a chan_event list \<Rightarrow> 'a list \<times> 'a list \<times> 'q" where
  "drive q [] = ([], [], q)"
| "drive q (ESend x # es) =
     (case drive (snd (offer q x)) es of (acc, rcv, q') \<Rightarrow>
        (if fst (offer q x) then x # acc else acc, rcv, q'))"
| "drive q (ERecv # es) =
     (case drive (snd (poll q)) es of (acc, rcv, q') \<Rightarrow>
        (acc, (case fst (poll q) of None \<Rightarrow> [] | Some x \<Rightarrow> [x]) @ rcv, q'))"

lemma drive_fifo: "drive q es = (acc, rcv, q') \<Longrightarrow> contents q @ acc = rcv @ contents q'"
proof (induction es arbitrary: q acc rcv q')
  case (Cons e es)
  show ?case
  proof (cases e)
    case (ESend x)
    with Cons.prems Cons.IH [of "snd (offer q x)"] show ?thesis
      by (auto simp: offer_contents split: prod.splits if_splits)
  next
    case ERecv
    with Cons.prems Cons.IH [of "snd (poll q)"] show ?thesis
      using poll_contents [of q] by (auto split: prod.splits option.splits)
  qed
qed simp

lemma drive_bound: "drive q es = (acc, rcv, q') \<Longrightarrow> length (contents q) \<le> bound q \<Longrightarrow> length (contents q') \<le> bound q"
proof (induction es arbitrary: q acc rcv q')
  case (Cons e es)
  show ?case
  proof (cases e)
    case (ESend x)
    with Cons.prems Cons.IH [of "snd (offer q x)"] show ?thesis
      by (auto simp: bound_offer offer_bound split: prod.splits if_splits)
  next
    case ERecv
    have "length (contents (snd (poll q))) \<le> bound q" using poll_contents [of q] Cons.prems(2) by (simp split: option.splits)
    with ERecv Cons.prems Cons.IH [of "snd (poll q)"] show ?thesis
      by (auto simp: bound_poll split: prod.splits)
  qed
qed simp

end

definition chan_offer :: "'a chan \<Rightarrow> 'a \<Rightarrow> bool \<times> 'a chan" where
  "chan_offer ch x = (case try_send ch x of (r, ch') \<Rightarrow> (r = Sent, ch'))"

definition chan_poll :: "'a chan \<Rightarrow> 'a option \<times> 'a chan" where
  "chan_poll ch = (case try_recv ch of (r, ch') \<Rightarrow> (case r of Got x \<Rightarrow> Some x | _ \<Rightarrow> None, ch'))"

interpretation chanq: bounded_queue buf chan_offer chan_poll cap
  by unfold_locales
    (auto simp: chan_offer_def chan_poll_def try_send_def try_recv_def split: list.splits)

end
