(* ===== verification/Bus.thy ===== *)
theory Bus
  imports Message Channels
begin

text \<open>
  \<^verbatim>\<open>src/internal/bus/bus.go\<close> and \<^verbatim>\<open>inmemory.go\<close>: the bus interface and the in-process bus.

  A context is represented by its error: \<^term>\<open>None\<close> while it is live, and the reason once it is done. Where
  several cases of a \<^verbatim>\<open>select\<close> are ready Go picks one at random; the argument \<open>pick\<close> is that choice. An
  operation that blocks returns \<^term>\<open>None\<close>. A handler acts on a state of type \<open>'s\<close> (for the server, the
  rooms) and returns Go's error, \<^term>\<open>None\<close> for \<^verbatim>\<open>nil\<close>.
\<close>

section \<open>Interfaces\<close>

datatype ctx_error = Canceled | DeadlineExceeded

type_synonym ctx = "ctx_error option"

type_synonym ('e, 's) handler = "'s \<Rightarrow> danmaku \<Rightarrow> 'e option \<times> 's"

datatype 'e bus_error =
  ErrInvalidBuffer | ErrNilHandler | ErrConsumerAlreadyRunning | CtxErr ctx_error | HandlerErr 'e

section \<open>The in-process bus\<close>

record inmemory_bus =
  messages :: "danmaku chan"
  consuming :: bool

definition NewInMemory :: "int \<Rightarrow> 'e bus_error + inmemory_bus" where
  "NewInMemory bufferSize =
     (if bufferSize \<le> 0 then Inl ErrInvalidBuffer
      else Inr \<lparr>messages = make_chan (nat bufferSize), consuming = False\<rparr>)"

text \<open>\<^verbatim>\<open>InMemoryBus.Publish\<close>: one evaluation of its \<^verbatim>\<open>select\<close>; \<^term>\<open>None\<close> while neither case is ready.\<close>

definition Publish_inmemory :: "bool \<Rightarrow> inmemory_bus \<Rightarrow> ctx \<Rightarrow> danmaku \<Rightarrow> ('e bus_error option \<times> inmemory_bus) option" where
  "Publish_inmemory pick b ctx msg =
     (case (try_send (messages b) msg, ctx) of
        ((Sent, ch), None) \<Rightarrow> Some (None, b\<lparr>messages := ch\<rparr>)
      | ((Sent, ch), Some e) \<Rightarrow>
          (if pick then Some (None, b\<lparr>messages := ch\<rparr>) else Some (Some (CtxErr e), b))
      | (_, Some e) \<Rightarrow> Some (Some (CtxErr e), b)
      | (_, None) \<Rightarrow> None)"

text \<open>\<^verbatim>\<open>InMemoryBus.Consume\<close> up to its loop: the nil check and the compare-and-swap on \<^verbatim>\<open>consuming\<close>.\<close>

definition Consume_begin :: "inmemory_bus \<Rightarrow> bool \<Rightarrow> 'e bus_error + inmemory_bus" where
  "Consume_begin b handler_nil =
     (if handler_nil then Inl ErrNilHandler
      else if consuming b then Inl ErrConsumerAlreadyRunning
      else Inr (b\<lparr>consuming := True\<rparr>))"

text \<open>One iteration of the loop. \<open>Returned\<close> includes the deferred reset of \<^verbatim>\<open>consuming\<close>; \<open>Handled\<close> carries
  the message that was processed.\<close>

datatype 'e iteration = Handled danmaku | Returned "danmaku option" "'e bus_error" | Waiting

definition Consume_iter ::
  "bool \<Rightarrow> inmemory_bus \<Rightarrow> ctx \<Rightarrow> ('e, 's) handler \<Rightarrow> 's \<Rightarrow> 'e iteration \<times> inmemory_bus \<times> 's" where
  "Consume_iter pick b ctx h s =
     (let stop = (\<lambda>e. (Returned None (CtxErr e), b\<lparr>consuming := False\<rparr>, s));
          receive = (\<lambda>msg ch.
            (case h s msg of
               (None, s') \<Rightarrow> (Handled msg, b\<lparr>messages := ch\<rparr>, s')
             | (Some e, s') \<Rightarrow> (Returned (Some msg) (HandlerErr e), b\<lparr>messages := ch, consuming := False\<rparr>, s')))
      in case (try_recv (messages b), ctx) of
           ((Got msg, ch), None) \<Rightarrow> receive msg ch
         | ((Got msg, ch), Some e) \<Rightarrow> (if pick then receive msg ch else stop e)
         | (_, Some e) \<Rightarrow> stop e
         | (_, None) \<Rightarrow> (Waiting, b, s))"

definition ConsumerReady_inmemory :: "inmemory_bus option \<Rightarrow> bool" where
  "ConsumerReady_inmemory b = (b \<noteq> None)"

definition Check_inmemory :: "inmemory_bus option \<Rightarrow> 'e bus_error option" where
  "Check_inmemory b = None"

section \<open>Producers and consumers together\<close>

text \<open>The system of any number of publishing goroutines and any number of goroutines that call
  \<^verbatim>\<open>Consume\<close>: the bus, the set of consumers inside the loop, the handler's state, and the histories of
  accepted and of handled messages.\<close>

record 's bus_system =
  the_bus :: inmemory_bus
  running :: "nat list"
  hstate :: 's
  accepted :: "danmaku list"
  handed :: "danmaku list"

inductive bus_step :: "('e, 's) handler \<Rightarrow> 's bus_system \<Rightarrow> 's bus_system \<Rightarrow> bool" for h where
  step_publish: "Publish_inmemory pick (the_bus y) ctx msg = Some (None :: 'e bus_error option, b') \<Longrightarrow>
     bus_step h y (y\<lparr>the_bus := b', accepted := accepted y @ [msg]\<rparr>)"
| step_refuse: "Publish_inmemory pick (the_bus y) ctx msg = Some (Some (e :: 'e bus_error), b') \<Longrightarrow>
     bus_step h y (y\<lparr>the_bus := b'\<rparr>)"
| step_begin: "Consume_begin (the_bus y) False = (Inr b' :: 'e bus_error + inmemory_bus) \<Longrightarrow>
     bus_step h y (y\<lparr>the_bus := b', running := i # running y\<rparr>)"
| step_handle: "i \<in> set (running y) \<Longrightarrow>
     Consume_iter pick (the_bus y) ctx h (hstate y) = (Handled msg, b', s') \<Longrightarrow>
     bus_step h y (y\<lparr>the_bus := b', hstate := s', handed := handed y @ [msg]\<rparr>)"
| step_return: "i \<in> set (running y) \<Longrightarrow>
     Consume_iter pick (the_bus y) ctx h (hstate y) = (Returned None e, b', s') \<Longrightarrow>
     bus_step h y (y\<lparr>the_bus := b', running := remove1 i (running y), hstate := s'\<rparr>)"
| step_fail: "i \<in> set (running y) \<Longrightarrow>
     Consume_iter pick (the_bus y) ctx h (hstate y) = (Returned (Some msg) e, b', s') \<Longrightarrow>
     bus_step h y (y\<lparr>the_bus := b', running := remove1 i (running y), hstate := s', handed := handed y @ [msg]\<rparr>)"

inductive bus_reach :: "('e, 's) handler \<Rightarrow> inmemory_bus \<Rightarrow> 's \<Rightarrow> 's bus_system \<Rightarrow> bool" for h b0 s0 where
  bus_start: "bus_reach h b0 s0 \<lparr>the_bus = b0, running = [], hstate = s0, accepted = [], handed = []\<rparr>"
| bus_next: "bus_reach h b0 s0 y \<Longrightarrow> bus_step h y y' \<Longrightarrow> bus_reach h b0 s0 y'"

text \<open>At most one consumer is inside the loop, the flag says whether, what was handed to the handler followed
  by the queue is what was accepted, and the handler's state is the fold of the handler over its messages.\<close>

definition run_handler :: "('e, 's) handler \<Rightarrow> danmaku list \<Rightarrow> 's \<Rightarrow> 's" where
  "run_handler h ms s = fold (\<lambda>m s. snd (h s m)) ms s"

definition bus_inv :: "('e, 's) handler \<Rightarrow> nat \<Rightarrow> 's \<Rightarrow> 's bus_system \<Rightarrow> bool" where
  "bus_inv h n s0 y \<longleftrightarrow>
     (if consuming (the_bus y) then length (running y) = 1 else running y = []) \<and>
     accepted y = handed y @ buf (messages (the_bus y)) \<and>
     cap (messages (the_bus y)) = n \<and> chan_ok (messages (the_bus y)) \<and>
     hstate y = run_handler h (handed y) s0"

lemma Publish_inmemoryD:
  assumes "Publish_inmemory pick b ctx msg = Some (r, b')"
  shows "b' = (if r = None then b\<lparr>messages := snd (try_send (messages b) msg)\<rparr> else b)"
    and "r = None \<Longrightarrow> fst (try_send (messages b) msg) = Sent"
  using assms by (auto simp: Publish_inmemory_def split: prod.splits send_result.splits option.splits if_splits)

lemma Consume_iterD:
  assumes "Consume_iter pick b ctx h s = (r, b', s')"
  shows "case r of
      Waiting \<Rightarrow> b' = b \<and> s' = s
    | Handled msg \<Rightarrow> try_recv (messages b) = (Got msg, messages b') \<and> consuming b' = consuming b \<and> h s msg = (None, s')
    | Returned None e \<Rightarrow> messages b' = messages b \<and> \<not> consuming b' \<and> s' = s \<and> (\<exists>c. ctx = Some c \<and> e = CtxErr c)
    | Returned (Some msg) e \<Rightarrow> try_recv (messages b) = (Got msg, messages b') \<and> \<not> consuming b' \<and>
        (\<exists>x. e = HandlerErr x \<and> h s msg = (Some x, s'))"
  using assms
  by (auto simp: Consume_iter_def Let_def split: prod.splits recv_result.splits option.splits if_splits)

lemma remove1_single: "i \<in> set xs \<Longrightarrow> length xs = 1 \<Longrightarrow> remove1 i xs = []"
  by (cases xs) auto

lemma try_recv_Got: "try_recv ch = (Got m, ch') \<longleftrightarrow> (\<exists>xs. buf ch = m # xs \<and> ch' = ch\<lparr>buf := xs\<rparr>)"
  by (auto simp: try_recv_def split: list.splits if_splits)

lemma bus_step_inv:
  assumes "bus_step h y y'" and "bus_inv h n s0 y"
  shows "bus_inv h n s0 y'"
  using assms
proof (induction rule: bus_step.induct)
  case (step_publish pick y ctx msg b')
  then show ?case using Publish_inmemoryD [OF step_publish.hyps]
    by (auto simp: bus_inv_def try_send_def chan_ok_def split: if_splits)
next
  case (step_refuse pick y ctx msg e b')
  then show ?case using Publish_inmemoryD [OF step_refuse.hyps] by (simp add: bus_inv_def)
next
  case (step_begin y b' i)
  then show ?case by (auto simp: bus_inv_def Consume_begin_def split: if_splits)
next
  case (step_handle i y pick ctx msg b' s')
  then show ?case using Consume_iterD [OF step_handle.hyps(2)]
    by (auto simp: bus_inv_def try_recv_Got chan_ok_def run_handler_def split: if_splits)
next
  case (step_return i y pick ctx e b' s')
  then show ?case using Consume_iterD [OF step_return.hyps(2)]
    by (auto simp: bus_inv_def remove1_single split: if_splits)
next
  case (step_fail i y pick ctx msg e b' s')
  then show ?case using Consume_iterD [OF step_fail.hyps(2)]
    by (auto simp: bus_inv_def try_recv_Got chan_ok_def run_handler_def remove1_single split: if_splits)
qed

lemma bus_reach_inv:
  assumes "bus_reach h b0 s0 y" and "NewInMemory n = Inr b0"
  shows "bus_inv h (nat n) s0 y"
  using assms
proof (induction rule: bus_reach.induct)
  case bus_start
  then show ?case by (auto simp: bus_inv_def NewInMemory_def make_chan_def chan_ok_def run_handler_def split: if_splits)
qed (auto intro: bus_step_inv)

section \<open>The contract of the in-process bus\<close>



text \<open>(C35) Back-pressure: \<^verbatim>\<open>Publish\<close> never drops a message silently. It blocks exactly while the queue is full
  and the context live; it reports success exactly when the message is appended to the queue; and it
  reports an error only for a context that is done, leaving the bus as it was.\<close>

theorem Publish_inmemory_outcome:
  assumes "\<not> closed (messages b)"
  shows "(Publish_inmemory pick b ctx msg = (None :: ('e bus_error option \<times> inmemory_bus) option) \<longleftrightarrow>
      cap (messages b) \<le> length (buf (messages b)) \<and> ctx = None) \<and>
    (Publish_inmemory pick b ctx msg = Some (None :: 'e bus_error option, b') \<longrightarrow>
      buf (messages b') = buf (messages b) @ [msg] \<and> consuming b' = consuming b) \<and>
    (Publish_inmemory pick b ctx msg = Some (Some (e :: 'e bus_error), b') \<longrightarrow>
      b' = b \<and> (\<exists>c. ctx = Some c \<and> e = CtxErr c))"
  using assms by (auto simp: Publish_inmemory_def try_send_def split: option.splits if_splits)

text \<open>Witness of C35: an empty queue of capacity one and a cancelled context, with the send picked.\<close>

theorem Publish_inmemory_outcome_witness:
  "Publish_inmemory True \<lparr>messages = make_chan 1, consuming = False\<rparr> (Some Canceled)
     \<lparr>MessageID = ''1'', RoomID = ''r'', UserID = ''u'', Content = ''c'', Sequence = 0, CreatedAt = 1\<rparr>
   \<noteq> (None :: (unit bus_error option \<times> inmemory_bus) option)"
proof -
  let ?b = "\<lparr>messages = make_chan 1, consuming = False\<rparr>"
  have "\<not> closed (messages ?b)" by (simp add: make_chan_def)
  from Publish_inmemory_outcome [OF this, of True "Some Canceled"] show ?thesis by blast
qed

end
