(* ===== verification/Kafka.thy ===== *)
theory Kafka
  imports Bus
begin

text \<open>
  \<^verbatim>\<open>src/internal/bus/kafka.go\<close>: the Kafka bus. The client library kafka-go is not part of the repository: what
  it answers is an argument of the definitions. \<open>balance\<close> is \<^verbatim>\<open>Hash.Balance\<close>, \<open>write\<close> is
  \<^verbatim>\<open>Writer.WriteMessages\<close>, \<open>lookup\<close> is \<^verbatim>\<open>LookupPartitions\<close>, and the results of \<^verbatim>\<open>ConsumerGroup.Next\<close>,
  \<^verbatim>\<open>Reader.FetchMessage\<close> and \<^verbatim>\<open>Generation.CommitOffsets\<close> arrive as lists of events in the order the loop
  asks for them. \<open>marshal\<close> and \<open>unmarshal\<close> are \<^verbatim>\<open>encoding/json\<close> on the message type. Logging has no effect
  on the state and is left out.
\<close>

section \<open>Data\<close>

datatype kafka_error =
  UnknownMemberId | IllegalGeneration | RebalanceInProgress | ErrGenerationEnded | KafkaFailure string

datatype 'e kafka_bus_error =
  ErrInvalidKafkaConfig | ErrKafkaBusClosed | ErrNilHandler_kafka
  | KafkaErr kafka_error | KafkaCtx ctx_error | MarshalErr
  | MissingPartition int | LookupErr "(string \<times> kafka_error) list"
  | CommitMalformed kafka_error | CommitInvalid kafka_error | CommitHandled kafka_error
  | HandleErr 'e

record kafka_config =
  Brokers :: "string list"
  Topic :: string
  GroupID :: string

text \<open>The fields of \<^verbatim>\<open>KafkaBus\<close>; \<open>writer_set\<close> and \<open>partitioner_set\<close> say that the pointer is not nil, and the set
  of assigned partitions is the list of the keys of its map. A nil receiver is \<^term>\<open>None\<close>.\<close>

record kafka_bus =
  writer_set :: bool
  partitioner_set :: bool
  config :: kafka_config
  activeGroup :: "nat option"
  consumerReady :: bool
  topicPartitions :: "int list"
  assignedPartition :: "int list"
  ownershipRevision :: uint64
  closeOnce :: bool
  closeErr :: "kafka_error list"

definition NewKafka :: "kafka_config \<Rightarrow> 'e kafka_bus_error + kafka_bus" where
  "NewKafka cfg =
     (if Brokers cfg = [] \<or> Topic cfg = [] \<or> GroupID cfg = [] then Inl ErrInvalidKafkaConfig
      else if list_ex blank (Brokers cfg) then Inl ErrInvalidKafkaConfig
      else Inr \<lparr>writer_set = True, partitioner_set = True, config = cfg, activeGroup = None,
             consumerReady = False, topicPartitions = [], assignedPartition = [],
             ownershipRevision = 0, closeOnce = False, closeErr = []\<rparr>)"

definition Publish_kafka ::
  "(danmaku \<Rightarrow> string option) \<Rightarrow> (ctx \<Rightarrow> string \<Rightarrow> string \<Rightarrow> kafka_error option)
    \<Rightarrow> kafka_bus option \<Rightarrow> ctx \<Rightarrow> danmaku \<Rightarrow> 'e kafka_bus_error option" where
  "Publish_kafka marshal write b ctx msg =
     (case b of
        None \<Rightarrow> Some ErrKafkaBusClosed
      | Some b' \<Rightarrow>
        (if \<not> writer_set b' then Some ErrKafkaBusClosed
         else case marshal msg of
           None \<Rightarrow> Some MarshalErr
         | Some value \<Rightarrow> map_option KafkaErr (write ctx (RoomID msg) value)))"

section \<open>Partition ownership\<close>

definition key_insert :: "'a \<Rightarrow> 'a list \<Rightarrow> 'a list" where
  "key_insert p ps = (if p \<in> set ps then ps else ps @ [p])"

fun collect_assigned :: "int list \<Rightarrow> int list \<Rightarrow> (int \<times> int) list \<Rightarrow> int + int list" where
  "collect_assigned available assigned [] = Inr assigned"
| "collect_assigned available assigned ((p, offset) # as) =
     (if p \<notin> set available then Inl p
      else collect_assigned available (key_insert p assigned) as)"

definition setPartitionOwnership ::
  "kafka_bus \<Rightarrow> int list \<Rightarrow> (int \<times> int) list \<Rightarrow> 'e kafka_bus_error + kafka_bus" where
  "setPartitionOwnership b partitions assignments =
     (case collect_assigned partitions [] assignments of
        Inl p \<Rightarrow> Inl (MissingPartition p)
      | Inr assigned \<Rightarrow>
          Inr (b\<lparr>topicPartitions := partitions, assignedPartition := assigned,
                 ownershipRevision := ownershipRevision b + 1\<rparr>))"

definition clearAssignedPartitions :: "kafka_bus \<Rightarrow> kafka_bus" where
  "clearAssignedPartitions b =
     b\<lparr>assignedPartition := [], ownershipRevision := ownershipRevision b + 1\<rparr>"

definition partitionForRoomLocked :: "(string \<Rightarrow> int list \<Rightarrow> int) \<Rightarrow> kafka_bus \<Rightarrow> string \<Rightarrow> int option" where
  "partitionForRoomLocked balance b roomID =
     (if topicPartitions b = [] then None
      else let p = balance roomID (topicPartitions b)
           in if p \<in> set (topicPartitions b) then Some p else None)"

definition PartitionForRoom :: "(string \<Rightarrow> int list \<Rightarrow> int) \<Rightarrow> kafka_bus option \<Rightarrow> string \<Rightarrow> int option" where
  "PartitionForRoom balance b roomID =
     (case b of None \<Rightarrow> None
      | Some b' \<Rightarrow> if \<not> partitioner_set b' \<or> blank roomID then None
                  else partitionForRoomLocked balance b' roomID)"

definition OwnsRoom :: "(string \<Rightarrow> int list \<Rightarrow> int) \<Rightarrow> kafka_bus option \<Rightarrow> string \<Rightarrow> bool" where
  "OwnsRoom balance b roomID =
     (case b of None \<Rightarrow> False
      | Some b' \<Rightarrow> if \<not> partitioner_set b' \<or> blank roomID then False
                  else case partitionForRoomLocked balance b' roomID of
                    None \<Rightarrow> False
                  | Some p \<Rightarrow> p \<in> set (assignedPartition b'))"

definition AssignedPartitions :: "kafka_bus option \<Rightarrow> int list" where
  "AssignedPartitions b = (case b of None \<Rightarrow> [] | Some b' \<Rightarrow> sort (assignedPartition b'))"

definition OwnershipRevision :: "kafka_bus option \<Rightarrow> uint64" where
  "OwnershipRevision b = (case b of None \<Rightarrow> 0 | Some b' \<Rightarrow> ownershipRevision b')"

text \<open>\<^verbatim>\<open>lookupTopicPartitions\<close>: \<open>lookup\<close> answers one broker with an error or with the partitions, each with its
  own error; \<open>ctx_done\<close> says whether the context is done after a failed lookup of that broker.\<close>

fun partition_ids :: "(int \<times> kafka_error option) list \<Rightarrow> kafka_error + int list" where
  "partition_ids [] = Inr []"
| "partition_ids ((p, err) # ps) =
     (case err of Some e \<Rightarrow> Inl e
      | None \<Rightarrow> (case partition_ids ps of Inl e \<Rightarrow> Inl e | Inr ids \<Rightarrow> Inr (p # ids)))"

fun lookup_brokers ::
  "(string \<Rightarrow> kafka_error + (int \<times> kafka_error option) list) \<Rightarrow> (string \<Rightarrow> bool)
    \<Rightarrow> string list \<Rightarrow> (string \<times> kafka_error) list \<Rightarrow> 'e kafka_bus_error + int list" where
  "lookup_brokers lookup ctx_done [] errs = Inl (LookupErr errs)"
| "lookup_brokers lookup ctx_done (broker # brokers) errs =
     (case lookup broker of
        Inl e \<Rightarrow>
          (if ctx_done broker then Inl (LookupErr (errs @ [(broker, e)]))
           else lookup_brokers lookup ctx_done brokers (errs @ [(broker, e)]))
      | Inr partitions \<Rightarrow>
          (case partition_ids partitions of
             Inl e \<Rightarrow> lookup_brokers lookup ctx_done brokers (errs @ [(broker, e)])
           | Inr ids \<Rightarrow>
               (if ids = []
                then lookup_brokers lookup ctx_done brokers (errs @ [(broker, KafkaFailure ''has no partitions'')])
                else Inr (sort ids))))"

definition lookupTopicPartitions ::
  "(string \<Rightarrow> kafka_error + (int \<times> kafka_error option) list) \<Rightarrow> (string \<Rightarrow> bool)
    \<Rightarrow> kafka_bus \<Rightarrow> 'e kafka_bus_error + int list" where
  "lookupTopicPartitions lookup ctx_done b = lookup_brokers lookup ctx_done (Brokers (config b)) []"

section \<open>Consuming one partition\<close>

record kafka_message =
  km_Topic :: string
  km_Partition :: int
  km_Offset :: uint64
  km_Value :: string

text \<open>\<^verbatim>\<open>offsetsAfter\<close>: topic, partition and the offset after the message; the
  \<^verbatim>\<open>int64\<close> offset is its 64-bit pattern, so that the addition wraps around as in the source.\<close>

definition offsetsAfter :: "kafka_message \<Rightarrow> string \<times> int \<times> uint64" where
  "offsetsAfter m = (km_Topic m, km_Partition m, km_Offset m + 1)"

text \<open>What the loop meets: a failed fetch, or a fetched message together with the answer the commit of its
  offset would get.\<close>

datatype fetch_event = FetchFails kafka_error | Fetched kafka_message "kafka_error option"

text \<open>The trace of a partition worker: what the handler was given, what was committed, the handler's state and
  the error returned, \<^term>\<open>None\<close> while the worker waits in \<^verbatim>\<open>FetchMessage\<close>.\<close>

record ('e, 's) partition_run =
  run_handled :: "danmaku list"
  run_committed :: "(string \<times> int \<times> uint64) list"
  run_state :: 's
  run_error :: "'e kafka_bus_error option"

fun partition_loop ::
  "(string \<Rightarrow> danmaku option) \<Rightarrow> ('e, 's) handler \<Rightarrow> ('e, 's) partition_run \<Rightarrow> fetch_event list \<Rightarrow> ('e, 's) partition_run" where
  "partition_loop unmarshal h p [] = p"
| "partition_loop unmarshal h p (FetchFails e # es) = p\<lparr>run_error := Some (KafkaErr e)\<rparr>"
| "partition_loop unmarshal h p (Fetched m commit # es) =
     (case unmarshal (km_Value m) of
        None \<Rightarrow>
          (case commit of
             Some e \<Rightarrow> p\<lparr>run_error := Some (CommitMalformed e)\<rparr>
           | None \<Rightarrow> partition_loop unmarshal h (p\<lparr>run_committed := run_committed p @ [offsetsAfter m]\<rparr>) es)
      | Some d \<Rightarrow>
          (if Validate d \<noteq> None then
             (case commit of
                Some e \<Rightarrow> p\<lparr>run_error := Some (CommitInvalid e)\<rparr>
              | None \<Rightarrow> partition_loop unmarshal h (p\<lparr>run_committed := run_committed p @ [offsetsAfter m]\<rparr>) es)
           else
             (case h (run_state p) d of
                (Some e, s') \<Rightarrow> p\<lparr>run_state := s', run_error := Some (HandleErr e)\<rparr>
              | (None, s') \<Rightarrow>
                  (case commit of
                     Some e \<Rightarrow> p\<lparr>run_state := s', run_handled := run_handled p @ [d], run_error := Some (CommitHandled e)\<rparr>
                   | None \<Rightarrow>
                       partition_loop unmarshal h
                         (p\<lparr>run_state := s', run_handled := run_handled p @ [d],
                            run_committed := run_committed p @ [offsetsAfter m]\<rparr>) es))))"

definition consumePartition ::
  "(string \<Rightarrow> danmaku option) \<Rightarrow> ('e, 's) handler \<Rightarrow> 's \<Rightarrow> kafka_error option \<Rightarrow> fetch_event list \<Rightarrow> ('e, 's) partition_run" where
  "consumePartition unmarshal h s set_offset es =
     (let p = \<lparr>run_handled = [], run_committed = [], run_state = s, run_error = None\<rparr> in
      case set_offset of
        Some e \<Rightarrow> p\<lparr>run_error := Some (KafkaErr e)\<rparr>
      | None \<Rightarrow> partition_loop unmarshal h p es)"

section \<open>Generations\<close>

text \<open>\<^verbatim>\<open>errors.Is(err, kafka.ErrGenerationEnded)\<close>: the wrapped commit errors unwrap to what they wrap; the errors
  of this program's handlers come from rooms and never wrap an error of kafka-go.\<close>

fun is_generation_ended :: "'e kafka_bus_error \<Rightarrow> bool" where
  "is_generation_ended (KafkaErr e) = (e = ErrGenerationEnded)"
| "is_generation_ended (CommitMalformed e) = (e = ErrGenerationEnded)"
| "is_generation_ended (CommitInvalid e) = (e = ErrGenerationEnded)"
| "is_generation_ended (CommitHandled e) = (e = ErrGenerationEnded)"
| "is_generation_ended _ = False"

fun isConsumerGroupTransition :: "'e kafka_bus_error \<Rightarrow> bool" where
  "isConsumerGroupTransition (KafkaErr e) =
     (e = UnknownMemberId \<or> e = IllegalGeneration \<or> e = RebalanceInProgress)"
| "isConsumerGroupTransition _ = False"

text \<open>\<^verbatim>\<open>consumeGeneration\<close>: \<open>ends\<close> are the errors the partition workers return, in the order they finish (one per
  assignment; a member without assignments has one worker that only waits), and \<open>ctx\<close> is the state of the
  outer context after all have finished. The channel of errors has one slot per assignment.\<close>

fun report_errors :: "'e kafka_bus_error chan \<Rightarrow> 'e kafka_bus_error list \<Rightarrow> 'e kafka_bus_error chan" where
  "report_errors errs [] = errs"
| "report_errors errs (e # es) =
     report_errors (if is_generation_ended e then errs else snd (try_send errs e)) es"

definition consumeGeneration ::
  "(int \<times> int) list \<Rightarrow> 'e kafka_bus_error list \<Rightarrow> ctx \<Rightarrow> 'e kafka_bus_error option" where
  "consumeGeneration assignments ends ctx =
     (let errs = report_errors (make_chan (length assignments)) (if assignments = [] then [] else ends) in
      case ctx of
        Some c \<Rightarrow> Some (KafkaCtx c)
      | None \<Rightarrow> (case try_recv errs of (Got e, _) \<Rightarrow> Some e | _ \<Rightarrow> None))"

text \<open>One round of the loop of \<^verbatim>\<open>Consume\<close>: either \<^verbatim>\<open>group.Next\<close> fails, with the state of the outer context at
  that moment, or it yields a generation, for which the metadata lookup answers and the workers end.\<close>

datatype 'e group_event =
  NextFails "'e kafka_bus_error" ctx
  | NextGeneration "(int \<times> int) list" "'e kafka_bus_error + int list" "'e kafka_bus_error list" ctx

definition setActiveGroup :: "nat \<Rightarrow> kafka_bus \<Rightarrow> kafka_bus" where
  "setActiveGroup g b = b\<lparr>activeGroup := Some g\<rparr>"

definition clearActiveGroup :: "nat \<Rightarrow> kafka_bus \<Rightarrow> kafka_bus" where
  "clearActiveGroup g b = (if activeGroup b = Some g then b\<lparr>activeGroup := None\<rparr> else b)"

definition storeReady :: "bool \<Rightarrow> kafka_bus \<Rightarrow> kafka_bus" where
  "storeReady r b = b\<lparr>consumerReady := r\<rparr>"

text \<open>The loop with the states it leaves behind, in order: each atomic update of the bus adds one. The result
  is \<^term>\<open>None\<close> while the loop waits for the next generation.\<close>

fun Consume_loop :: "kafka_bus \<Rightarrow> 'e group_event list \<Rightarrow> 'e kafka_bus_error option \<times> kafka_bus list" where
  "Consume_loop b [] = (let b1 = storeReady False b; b2 = clearAssignedPartitions b1 in (None, [b1, b2]))"
| "Consume_loop b (ev # evs) =
     (let b1 = storeReady False b; b2 = clearAssignedPartitions b1 in
      case ev of
        NextFails e ctx \<Rightarrow>
          (if isConsumerGroupTransition e \<and> ctx = None
           then (case Consume_loop b2 evs of (r, tr) \<Rightarrow> (r, b1 # b2 # tr))
           else (Some e, [b1, b2]))
      | NextGeneration assignments partitions ends ctx \<Rightarrow>
          (case partitions of
             Inl e \<Rightarrow> (Some e, [b1, b2])
           | Inr ps \<Rightarrow>
             (case setPartitionOwnership b2 ps assignments of
                Inl e \<Rightarrow> (Some e, [b1, b2])
              | Inr b3 \<Rightarrow>
                (let b4 = storeReady True b3;
                     err = consumeGeneration assignments ends ctx;
                     b5 = storeReady False b4;
                     b6 = clearAssignedPartitions b5
                 in case err of
                      Some e \<Rightarrow> (Some e, [b1, b2, b3, b4, b5, b6])
                    | None \<Rightarrow>
                        (case Consume_loop b6 evs of (r, tr) \<Rightarrow> (r, b1 # b2 # b3 # b4 # b5 # b6 # tr))))))"

text \<open>\<^verbatim>\<open>Consume\<close>: \<open>grp\<close> is the result of \<^verbatim>\<open>NewConsumerGroup\<close>. When the loop returns, the deferred function resets
  readiness, assignments and the active group.\<close>

definition Consume_kafka ::
  "kafka_bus option \<Rightarrow> bool \<Rightarrow> kafka_error + nat \<Rightarrow> 'e group_event list \<Rightarrow> 'e kafka_bus_error option \<times> kafka_bus list" where
  "Consume_kafka b handler_nil grp evs =
     (case b of
        None \<Rightarrow> (Some ErrKafkaBusClosed, [])
      | Some b0 \<Rightarrow>
        (if \<not> writer_set b0 then (Some ErrKafkaBusClosed, [])
         else if handler_nil then (Some ErrNilHandler_kafka, [])
         else case grp of
           Inl e \<Rightarrow> (Some (KafkaErr e), [])
         | Inr g \<Rightarrow>
             (let b1 = setActiveGroup g b0 in
              case Consume_loop b1 evs of
                (None, tr) \<Rightarrow> (None, b1 # tr)
              | (Some e, tr) \<Rightarrow>
                  (let c1 = storeReady False (last tr);
                       c2 = clearAssignedPartitions c1;
                       c3 = clearActiveGroup g c2
                   in (Some e, b1 # tr @ [c1, c2, c3])))))"

definition ConsumerReady_kafka :: "kafka_bus option \<Rightarrow> bool" where
  "ConsumerReady_kafka b = (case b of None \<Rightarrow> False | Some b' \<Rightarrow> consumerReady b')"

text \<open>\<^verbatim>\<open>Check\<close> dials the first broker and closes the connection; \<open>dial\<close> and \<open>conn_close\<close> are the answers.\<close>

definition Check_kafka :: "(string \<Rightarrow> kafka_error option) \<Rightarrow> kafka_error option \<Rightarrow> kafka_bus option \<Rightarrow> 'e kafka_bus_error option" where
  "Check_kafka dial conn_close b =
     (case b of
        None \<Rightarrow> Some ErrKafkaBusClosed
      | Some b' \<Rightarrow>
        (case Brokers (config b') of
           [] \<Rightarrow> Some ErrKafkaBusClosed
         | broker # _ \<Rightarrow>
             (case dial broker of Some e \<Rightarrow> Some (KafkaErr e) | None \<Rightarrow> map_option KafkaErr conn_close)))"

text \<open>\<^verbatim>\<open>Close\<close>: \<^verbatim>\<open>sync.Once\<close> runs the body at the first call only; \<open>group_close\<close> and \<open>writer_close\<close> are the answers
  of the library. The result is the joined error, empty for nil.\<close>

definition Close_kafka ::
  "(nat \<Rightarrow> kafka_error option) \<Rightarrow> kafka_error option \<Rightarrow> kafka_bus \<Rightarrow> kafka_error list \<times> kafka_bus" where
  "Close_kafka group_close writer_close b =
     (if closeOnce b then (closeErr b, b)
      else let b1 = clearAssignedPartitions (storeReady False b);
               groupErr = (case activeGroup b1 of None \<Rightarrow> None | Some g \<Rightarrow> group_close g);
               errs = (case writer_close of None \<Rightarrow> [] | Some e \<Rightarrow> [e]) @ (case groupErr of None \<Rightarrow> [] | Some e \<Rightarrow> [e])
           in (errs, b1\<lparr>closeOnce := True, closeErr := errs\<rparr>))"

section \<open>Ownership: invariant and revision\<close>

definition kafka_ok :: "kafka_bus \<Rightarrow> bool" where
  "kafka_ok b \<longleftrightarrow> distinct (assignedPartition b) \<and> set (assignedPartition b) \<subseteq> set (topicPartitions b)"

lemma collect_assigned_Inr:
  "collect_assigned av acc as = Inr res \<Longrightarrow>
     set (map fst as) \<subseteq> set av \<and> set res = set acc \<union> set (map fst as) \<and> (distinct acc \<longrightarrow> distinct res)"
  by (induction av acc as rule: collect_assigned.induct) (auto simp: key_insert_def split: if_splits)

lemma collect_assigned_total:
  "(\<exists>res. collect_assigned av acc as = Inr res) \<longleftrightarrow> set (map fst as) \<subseteq> set av"
  by (induction av acc as rule: collect_assigned.induct) auto

lemma setPartitionOwnershipD:
  assumes "setPartitionOwnership b ps as = Inr b'"
  shows "topicPartitions b' = ps" "set (assignedPartition b') = set (map fst as)" "distinct (assignedPartition b')"
    "set (map fst as) \<subseteq> set ps" "ownershipRevision b' = ownershipRevision b + 1"
    "consumerReady b' = consumerReady b" "activeGroup b' = activeGroup b"
  using assms collect_assigned_Inr [of ps "[]" as] by (force simp: setPartitionOwnership_def split: sum.splits)+

text \<open>The atomic updates that \<^verbatim>\<open>Consume\<close> and \<^verbatim>\<open>Close\<close> make, in any interleaving; the number counts the updates of
  the ownership snapshot.\<close>

inductive own_step :: "kafka_bus \<Rightarrow> nat \<Rightarrow> kafka_bus \<Rightarrow> bool" where
  own_set: "setPartitionOwnership b ps as = (Inr b' :: unit kafka_bus_error + kafka_bus) \<Longrightarrow> own_step b 1 b'"
| own_clear: "own_step b 1 (clearAssignedPartitions b)"
| own_ready: "own_step b 0 (storeReady r b)"
| own_group: "own_step b 0 (b\<lparr>activeGroup := g\<rparr>)"
| own_close: "own_step b 0 (b\<lparr>closeOnce := True, closeErr := errs\<rparr>)"

inductive own_reach :: "kafka_bus \<Rightarrow> nat \<Rightarrow> kafka_bus \<Rightarrow> bool" where
  own_refl: "own_reach b 0 b"
| own_next: "own_reach b n b' \<Longrightarrow> own_step b' k b'' \<Longrightarrow> own_reach b (n + k) b''"

inductive_simps own_reach_0: "own_reach b 0 b'"

lemma own_step_facts:
  assumes "own_step b k b'"
  shows "ownershipRevision b' = ownershipRevision b + of_nat k" and "kafka_ok b \<Longrightarrow> kafka_ok b'"
    and "k = 0 \<Longrightarrow> topicPartitions b' = topicPartitions b \<and> assignedPartition b' = assignedPartition b"
    and "partitioner_set b' = partitioner_set b"
  using assms
proof (induction rule: own_step.induct)
  case (own_set b ps as b')
  note d = setPartitionOwnershipD [OF own_set]
  { case 1 show ?case using d by simp }
  { case 2 show ?case using d by (auto simp: kafka_ok_def) }
  { case 3 then show ?case by simp }
  { case 4 show ?case using own_set by (auto simp: setPartitionOwnership_def split: sum.splits) }
qed (simp_all add: clearAssignedPartitions_def storeReady_def kafka_ok_def)

lemma own_reach_facts:
  assumes "own_reach b n b'"
  shows "ownershipRevision b' = ownershipRevision b + of_nat n" and "kafka_ok b \<Longrightarrow> kafka_ok b'"
    and "n = 0 \<Longrightarrow> topicPartitions b' = topicPartitions b \<and> assignedPartition b' = assignedPartition b"
    and "partitioner_set b' = partitioner_set b"
  using assms by (induction rule: own_reach.induct) (auto simp: own_step_facts)

fun chain :: "kafka_bus \<Rightarrow> kafka_bus list \<Rightarrow> bool" where
  "chain b [] = True"
| "chain b (c # cs) = ((\<exists>k. own_step b k c) \<and> chain c cs)"

lemma chain_append: "chain b (xs @ ys) \<longleftrightarrow> chain b xs \<and> chain (last (b # xs)) ys"
  by (induction xs arbitrary: b) auto

lemma setPartitionOwnership_any_error:
  "setPartitionOwnership b ps as = (Inr b' :: 'e kafka_bus_error + kafka_bus) \<Longrightarrow>
     setPartitionOwnership b ps as = (Inr b' :: 'f kafka_bus_error + kafka_bus)"
  by (auto simp: setPartitionOwnership_def split: sum.splits)

lemma own_step_set [intro]:
  "setPartitionOwnership b ps as = (Inr b' :: 'e kafka_bus_error + kafka_bus) \<Longrightarrow> \<exists>k. own_step b k b'"
  by (blast intro: own_set setPartitionOwnership_any_error)

lemma own_step_intros [intro]:
  "\<exists>k. own_step b k (clearAssignedPartitions b)" "\<exists>k. own_step b k (storeReady r b)"
  "\<exists>k. own_step b k (setActiveGroup g b)" "\<exists>k. own_step b k (clearActiveGroup g b)"
proof -
  show "\<exists>k. own_step b k (clearActiveGroup g b)"
    using own_group [of b None] own_group [of b "activeGroup b"] by (auto simp: clearActiveGroup_def)
qed (use own_group [of b "Some g"] in \<open>auto simp: setActiveGroup_def intro: own_clear own_ready\<close>)

lemma Consume_loop_nonempty: "snd (Consume_loop b evs) \<noteq> []"
  by (cases evs) (auto simp: Let_def split: group_event.split sum.split option.split prod.split)

lemma Consume_loop_chain: "chain b (snd (Consume_loop b evs))"
proof (induction evs arbitrary: b)
  case Nil
  show ?case by (auto simp: Let_def)
next
  case (Cons ev evs)
  show ?case
  proof (cases ev)
    case (NextFails e ctx)
    then show ?thesis using Cons.IH by (auto simp: Let_def split: prod.splits) (metis snd_conv)
  next
    case (NextGeneration as ps ends ctx)
    then show ?thesis
      using Cons.IH by (auto simp: Let_def split: sum.split option.split prod.splits) (metis snd_conv)
  qed
qed

lemma Consume_kafka_chain: "chain b (snd (Consume_kafka (Some b) hn grp evs))"
proof (cases "writer_set b \<and> \<not> hn \<and> (\<exists>g. grp = Inr g)")
  case True
  then obtain g where g: "grp = Inr g" by blast
  let ?b = "setActiveGroup g b"
  obtain r tr where l: "Consume_loop ?b evs = (r, tr)" by fastforce
  have "chain ?b tr" "tr \<noteq> []" using Consume_loop_chain [of ?b evs] Consume_loop_nonempty [of ?b evs] l by simp_all
  then show ?thesis using True g l by (cases r) (auto simp: Consume_kafka_def Let_def chain_append)
next
  case False
  then show ?thesis by (auto simp: Consume_kafka_def split: sum.split)
qed

section \<open>What a partition worker commits\<close>

text \<open>The messages an event list fetches, and the message behind a record: \<^term>\<open>None\<close> for a record that is not
  valid JSON or lacks a required field.\<close>

fun fetched :: "fetch_event list \<Rightarrow> kafka_message list" where
  "fetched [] = []"
| "fetched (FetchFails e # es) = []"
| "fetched (Fetched m c # es) = m # fetched es"

definition payload :: "(string \<Rightarrow> danmaku option) \<Rightarrow> kafka_message \<Rightarrow> danmaku option" where
  "payload unmarshal m =
     (case unmarshal (km_Value m) of None \<Rightarrow> None | Some d \<Rightarrow> if Validate d = None then Some d else None)"

definition payloads :: "(string \<Rightarrow> danmaku option) \<Rightarrow> kafka_message list \<Rightarrow> danmaku list" where
  "payloads unmarshal ms = List.map_filter (payload unmarshal) ms"

lemma payloads_simps [simp]:
  "payloads u [] = []"
  "payloads u (m # ms) = (case payload u m of None \<Rightarrow> [] | Some d \<Rightarrow> [d]) @ payloads u ms"
  "payloads u (xs @ ys) = payloads u xs @ payloads u ys"
  by (simp_all add: payloads_def List.map_filter_def split: option.split)

lemma partition_loop_Cons:
  "partition_loop u h p (Fetched m commit # es) =
     (case payload u m of
        None \<Rightarrow>
          (case commit of
             Some e \<Rightarrow> p\<lparr>run_error := Some ((if u (km_Value m) = None then CommitMalformed else CommitInvalid) e)\<rparr>
           | None \<Rightarrow> partition_loop u h (p\<lparr>run_committed := run_committed p @ [offsetsAfter m]\<rparr>) es)
      | Some d \<Rightarrow>
          (case h (run_state p) d of
             (Some e, s') \<Rightarrow> p\<lparr>run_state := s', run_error := Some (HandleErr e)\<rparr>
           | (None, s') \<Rightarrow>
               (case commit of
                  Some e \<Rightarrow> p\<lparr>run_state := s', run_handled := run_handled p @ [d], run_error := Some (CommitHandled e)\<rparr>
                | None \<Rightarrow>
                    partition_loop u h
                      (p\<lparr>run_state := s', run_handled := run_handled p @ [d],
                         run_committed := run_committed p @ [offsetsAfter m]\<rparr>) es)))"
  by (auto simp: payload_def split: option.splits prod.splits)

text \<open>The shape of every run: a prefix of the fetched records is committed, in order, and the handler has been
  given exactly the messages of that prefix, plus one more if its commit failed. In \<open>run_end\<close>, \<open>rest\<close> are the
  records not committed and \<open>given\<close> the messages of the committed ones.\<close>

definition run_end ::
  "(string \<Rightarrow> danmaku option) \<Rightarrow> kafka_message list \<Rightarrow> danmaku list \<Rightarrow> ('e, 's) partition_run \<Rightarrow> bool" where
  "run_end u rest given q \<longleftrightarrow>
     (case run_error q of
        None \<Rightarrow> rest = [] \<and> run_handled q = given
      | Some (HandleErr x) \<Rightarrow> run_handled q = given \<and> (\<exists>m ms. rest = m # ms \<and> payload u m \<noteq> None)
      | Some (CommitHandled x) \<Rightarrow> (\<exists>m ms d. rest = m # ms \<and> payload u m = Some d \<and> run_handled q = given @ [d])
      | Some _ \<Rightarrow> run_handled q = given)"

definition run_shape ::
  "(string \<Rightarrow> danmaku option) \<Rightarrow> kafka_message list \<Rightarrow> danmaku list \<Rightarrow> (string \<times> int \<times> uint64) list
    \<Rightarrow> ('e, 's) partition_run \<Rightarrow> bool" where
  "run_shape u ms given committed q \<longleftrightarrow>
     (\<exists>pre rest. ms = pre @ rest \<and> run_committed q = committed @ map offsetsAfter pre \<and>
        run_end u rest (given @ payloads u pre) q)"

lemma run_shapeI:
  assumes "run_shape u ms (given @ (case payload u m of None \<Rightarrow> [] | Some d \<Rightarrow> [d])) (committed @ [offsetsAfter m]) q"
  shows "run_shape u (m # ms) given committed q"
proof -
  from assms obtain pre rest where "ms = pre @ rest" and
    "run_committed q = (committed @ [offsetsAfter m]) @ map offsetsAfter pre" and
    "run_end u rest ((given @ (case payload u m of None \<Rightarrow> [] | Some d \<Rightarrow> [d])) @ payloads u pre) q"
    unfolding run_shape_def by blast
  then show ?thesis unfolding run_shape_def
    by (intro exI [of _ "m # pre"] exI [of _ rest]) simp
qed

lemma run_shape_stop:
  "run_committed q = committed \<Longrightarrow> run_end u ms given q \<Longrightarrow> run_shape u ms given committed q"
  unfolding run_shape_def by (intro exI [of _ "[]"] exI [of _ ms]) simp

lemma partition_loop_shape:
  "run_error p = None \<Longrightarrow>
     run_shape u (fetched es) (run_handled p) (run_committed p) (partition_loop u h p es)"
proof (induction es arbitrary: p)
  case Nil
  then show ?case by (intro run_shape_stop) (simp_all add: run_end_def)
next
  case (Cons ev es)
  show ?case
  proof (cases ev)
    case (FetchFails e)
    then show ?thesis by (intro run_shape_stop) (simp_all add: run_end_def)
  next
    case (Fetched m commit)
    consider (skip) "payload u m = None" "commit = None"
      | (skip_fails) e where "payload u m = None" "commit = Some e"
      | (refused) d e s' where "payload u m = Some d" "h (run_state p) d = (Some e, s')"
      | (handled) d s' where "payload u m = Some d" "h (run_state p) d = (None, s')" "commit = None"
      | (handled_fails) d s' e where "payload u m = Some d" "h (run_state p) d = (None, s')" "commit = Some e"
      by (metis old.prod.exhaust option.exhaust)
    then show ?thesis
    proof cases
      case skip
      let ?p = "p\<lparr>run_committed := run_committed p @ [offsetsAfter m]\<rparr>"
      have "run_shape u (fetched es) (run_handled ?p) (run_committed ?p) (partition_loop u h ?p es)"
        using Cons.prems by (intro Cons.IH) simp
      then show ?thesis using Fetched skip
        by (simp add: partition_loop_Cons del: partition_loop.simps(3)) (rule run_shapeI, simp)
    next
      case handled
      let ?p = "p\<lparr>run_state := s', run_handled := run_handled p @ [d], run_committed := run_committed p @ [offsetsAfter m]\<rparr>"
      have "run_shape u (fetched es) (run_handled ?p) (run_committed ?p) (partition_loop u h ?p es)"
        using Cons.prems by (intro Cons.IH) simp
      then show ?thesis using Fetched handled
        by (simp add: partition_loop_Cons del: partition_loop.simps(3)) (rule run_shapeI, simp)
    qed (use Fetched in \<open>auto simp: partition_loop_Cons run_end_def intro!: run_shape_stop simp del: partition_loop.simps(3)\<close>)
  qed
qed

text \<open>A handler that accepts every valid message, on the states it reaches, never stops the worker.\<close>

lemma partition_loop_clean:
  assumes "run_error p = None" and "\<forall>ev\<in>set es. \<exists>m. ev = Fetched m None" and "good (run_state p)"
    and "\<And>s d. good s \<Longrightarrow> Validate d = None \<Longrightarrow> fst (h s d) = None \<and> good (snd (h s d))"
  shows "run_error (partition_loop u h p es) = None \<and> good (run_state (partition_loop u h p es))"
  using assms(1-3)
proof (induction es arbitrary: p)
  case (Cons ev es)
  then obtain m where ev: "ev = Fetched m None" by auto
  show ?case
  proof (cases "payload u m")
    case None
    then show ?thesis using Cons ev by (simp add: partition_loop_Cons del: partition_loop.simps(3))
  next
    case (Some d)
    then have "Validate d = None" by (auto simp: payload_def split: option.splits if_splits)
    with assms(4) Cons.prems(3) obtain s' where "h (run_state p) d = (None, s')" "good s'"
      by (metis prod.collapse)
    then show ?thesis using Cons ev Some by (simp add: partition_loop_Cons del: partition_loop.simps(3))
  qed
qed simp

section \<open>Metadata lookup and generations\<close>

lemma partition_ids_Inr:
  "partition_ids ps = Inr ids \<longleftrightarrow> list_all (\<lambda>(p, err). err = None) ps \<and> ids = map fst ps"
  by (induction ps arbitrary: ids rule: partition_ids.induct) (fastforce split: option.splits sum.splits)+

text \<open>A broker answers the lookup usefully: no error, at least one partition, no partition in error.\<close>

definition healthy :: "(string \<Rightarrow> kafka_error + (int \<times> kafka_error option) list) \<Rightarrow> string \<Rightarrow> bool" where
  "healthy lookup broker =
     (case lookup broker of Inl e \<Rightarrow> False
      | Inr ps \<Rightarrow> ps \<noteq> [] \<and> list_all (\<lambda>(p, err). err = None) ps)"

lemma lookup_brokers_healthy:
  assumes "healthy lookup broker"
  obtains ps where "lookup broker = Inr ps" "ps \<noteq> []" "partition_ids ps = Inr (map fst ps)"
  using assms by (auto simp: healthy_def partition_ids_Inr split: sum.splits)

lemma lookup_brokers_unhealthy:
  assumes "\<not> healthy lookup broker" and "\<not> ctx_done broker"
  obtains e where "lookup_brokers lookup ctx_done (broker # brokers) errs =
    lookup_brokers lookup ctx_done brokers (errs @ [(broker, e)])"
proof (cases "lookup broker")
  case (Inr ps)
  show ?thesis
  proof (cases "partition_ids ps")
    case (Inr ids)
    then show ?thesis using that \<open>lookup broker = Inr ps\<close> assms
      by (auto simp: healthy_def partition_ids_Inr)
  qed (use that Inr in auto)
qed (use that assms(2) in auto)

lemma lookup_brokers_find:
  assumes "\<And>broker. \<not> ctx_done broker"
  shows "case find (healthy lookup) brokers of
      Some broker \<Rightarrow> \<exists>ps. lookup broker = Inr ps \<and> ps \<noteq> [] \<and>
        lookup_brokers lookup ctx_done brokers errs = (Inr (sort (map fst ps)) :: 'e kafka_bus_error + int list)
    | None \<Rightarrow> \<exists>errs'. lookup_brokers lookup ctx_done brokers errs =
          (Inl (LookupErr (errs @ errs')) :: 'e kafka_bus_error + int list) \<and>
        map fst errs' = brokers"
proof (induction brokers arbitrary: errs)
  case (Cons broker brokers)
  show ?case
  proof (cases "healthy lookup broker")
    case True
    then show ?thesis by (rule lookup_brokers_healthy) (use True in simp)
  next
    case False
    then obtain e where e: "lookup_brokers lookup ctx_done (broker # brokers) errs =
        (lookup_brokers lookup ctx_done brokers (errs @ [(broker, e)]) :: 'e kafka_bus_error + int list)"
      using assms by (rule lookup_brokers_unhealthy)
    show ?thesis using Cons.IH [of "errs @ [(broker, e)]"] False e
      by (cases "find (healthy lookup) brokers") (auto simp del: lookup_brokers.simps intro: exI [of _ "(broker, e) # _"])
  qed
qed simp

lemma report_errors_buf:
  "closed errs = False \<Longrightarrow> length (buf errs) + length es \<le> cap errs \<Longrightarrow>
     buf (report_errors errs es) = buf errs @ filter (\<lambda>e. \<not> is_generation_ended e) es \<and>
     closed (report_errors errs es) = False"
  by (induction errs es rule: report_errors.induct) (auto simp: try_send_def)

lemma find_hd_filter: "find P xs = (case filter P xs of [] \<Rightarrow> None | x # _ \<Rightarrow> Some x)"
  by (induction xs) auto

text \<open>The states that \<^verbatim>\<open>Consume\<close> goes through: whenever the bus is ready, its ownership is exactly what some
  generation among the events assigned, on the partitions the metadata lookup gave.\<close>

definition ready_backed :: "'e group_event list \<Rightarrow> kafka_bus \<Rightarrow> bool" where
  "ready_backed evs b \<longleftrightarrow>
     (consumerReady b \<longrightarrow>
        (\<exists>as ps ends ctx. NextGeneration as (Inr ps) ends ctx \<in> set evs \<and>
           topicPartitions b = ps \<and> set (assignedPartition b) = set (map fst as) \<and> set (map fst as) \<subseteq> set ps))"

lemma ready_backed_mono: "ready_backed evs b \<Longrightarrow> ready_backed (ev # evs) b"
  by (auto simp: ready_backed_def)

lemma not_ready_backed [simp]: "\<not> consumerReady b \<Longrightarrow> ready_backed evs b"
  by (simp add: ready_backed_def)

lemmas bus_updates = storeReady_def clearAssignedPartitions_def setActiveGroup_def

lemma Consume_loop_states:
  "\<forall>c\<in>set (snd (Consume_loop b evs)). ready_backed evs c \<and> activeGroup c = activeGroup b"
proof (induction evs arbitrary: b)
  case (Cons ev evs)
  show ?case
  proof (cases ev)
    case (NextFails e ctx)
    then show ?thesis using Cons.IH [of "clearAssignedPartitions (storeReady False b)"]
      by (auto simp: Let_def bus_updates intro: ready_backed_mono split: prod.splits)
  next
    case (NextGeneration as ps ends ctx)
    define b2 where "b2 = clearAssignedPartitions (storeReady False b)"
    have b2: "\<not> consumerReady b2" "activeGroup b2 = activeGroup b" by (simp_all add: b2_def bus_updates)
    show ?thesis
    proof (cases "\<exists>qs b3. ps = Inr qs \<and> setPartitionOwnership b2 qs as = (Inr b3 :: 'a kafka_bus_error + kafka_bus)")
      case True
      then obtain qs b3 where *: "ps = Inr qs" "setPartitionOwnership b2 qs as = (Inr b3 :: 'a kafka_bus_error + kafka_bus)"
        by blast
      note d = setPartitionOwnershipD [OF *(2)]
      have "ready_backed (ev # evs) (storeReady True b3)"
        unfolding ready_backed_def NextGeneration *(1) using d by (auto simp: bus_updates)
      then show ?thesis
        using NextGeneration * d b2 Cons.IH [of "clearAssignedPartitions (storeReady False (storeReady True b3))"]
        by (auto simp: Let_def bus_updates b2_def intro: ready_backed_mono split: prod.splits option.splits)
    next
      case False
      then show ?thesis using NextGeneration b2
        by (auto simp: Let_def bus_updates b2_def split: sum.splits)
    qed
  qed
qed (auto simp: Let_def bus_updates)

section \<open>The ownership interface\<close>

text \<open>\<^verbatim>\<open>bus.RoomOwnership\<close> as the gateway relies on it: ownership of a room is ownership of its partition, the
  assigned partitions come as a sorted list, and the revision counts the updates, so that a client that
  reads the same revision twice may keep what it decided in between. \<open>reach s n s'\<close> says that \<open>n\<close> updates of the
  ownership lead from \<open>s\<close> to \<open>s'\<close>.\<close>

locale room_ownership =
  fixes owns :: "'s \<Rightarrow> string \<Rightarrow> bool" and partition_of :: "'s \<Rightarrow> string \<Rightarrow> int option"
    and assigned :: "'s \<Rightarrow> int list" and revision :: "'s \<Rightarrow> uint64"
    and ok :: "'s \<Rightarrow> bool" and reach :: "'s \<Rightarrow> nat \<Rightarrow> 's \<Rightarrow> bool"
  assumes owns_iff: "owns s r \<longleftrightarrow> (\<exists>p. partition_of s r = Some p \<and> p \<in> set (assigned s))"
    and assigned_sorted: "ok s \<Longrightarrow> sorted_wrt (<) (assigned s)"
    and ok_reach: "ok s \<Longrightarrow> reach s n s' \<Longrightarrow> ok s'"
    and revision_counts: "reach s n s' \<Longrightarrow> revision s' = revision s + of_nat n"
    and unchanged: "reach s 0 s' \<Longrightarrow> partition_of s' r = partition_of s r \<and> assigned s' = assigned s"
begin

lemma revision_eq_iff:
  assumes "reach s n s'" and "n < 2 ^ 64"
  shows "revision s' = revision s \<longleftrightarrow> n = 0"
proof -
  have "(of_nat n :: uint64) = 0 \<longleftrightarrow> n = 0"
    using assms(2) by (auto simp: word_of_nat_eq_0_iff dest: dvd_imp_le)
  then show ?thesis using revision_counts [OF assms(1)] by simp
qed

lemma revision_stable:
  assumes "reach s n s'" and "n < 2 ^ 64" and "revision s' = revision s"
  shows "owns s' r = owns s r" and "partition_of s' r = partition_of s r" and "assigned s' = assigned s"
proof -
  have "reach s 0 s'" using assms revision_eq_iff by metis
  then show "partition_of s' r = partition_of s r" "assigned s' = assigned s" using unchanged by blast+
  then show "owns s' r = owns s r" by (simp add: owns_iff)
qed

end

lemma own_reach_same_view:
  assumes "own_reach b 0 b'"
  shows "PartitionForRoom balance (Some b') r = PartitionForRoom balance (Some b) r"
    and "AssignedPartitions (Some b') = AssignedPartitions (Some b)"
  using own_reach_facts [OF assms]
  by (simp_all add: PartitionForRoom_def AssignedPartitions_def partitionForRoomLocked_def)

interpretation kafka: room_ownership "\<lambda>b. OwnsRoom balance (Some b)" "\<lambda>b. PartitionForRoom balance (Some b)"
  "\<lambda>b. AssignedPartitions (Some b)" "\<lambda>b. OwnershipRevision (Some b)" kafka_ok own_reach for balance
proof unfold_locales
  show "OwnsRoom balance (Some b) r \<longleftrightarrow>
      (\<exists>p. PartitionForRoom balance (Some b) r = Some p \<and> p \<in> set (AssignedPartitions (Some b)))" for b r
    by (auto simp: OwnsRoom_def PartitionForRoom_def AssignedPartitions_def split: option.splits)
  show "sorted_wrt (<) (AssignedPartitions (Some b))" if "kafka_ok b" for b
    using that by (simp add: AssignedPartitions_def kafka_ok_def strict_sorted_iff)
qed (auto simp: own_reach_facts own_reach_same_view OwnershipRevision_def)

lemma chain_reach: "chain b cs \<Longrightarrow> c \<in> set cs \<Longrightarrow> own_reach a n b \<Longrightarrow> \<exists>k. own_reach a k c"
proof (induction cs arbitrary: b n)
  case (Cons d cs)
  then obtain k where "own_step b k d" by auto
  then have "own_reach a (n + k) d" using Cons.prems own_next by blast
  then show ?case using Cons by auto
qed simp

section \<open>Properties\<close>

text \<open>(C11) The ownership revision tells a client whether ownership may have changed: over any interleaving of
  the atomic updates of \<^verbatim>\<open>Consume\<close> and \<^verbatim>\<open>Close\<close> with fewer than \<open>2^64\<close> ownership updates, the revision is the same
  exactly if there was none, and then every room has the same partition and the same owner. An ownership
  lost and taken back in between is noticed.\<close>

theorem revision_detects_change:
  assumes "own_reach b n b'" and "n < 2 ^ 64"
  shows "(OwnershipRevision (Some b') = OwnershipRevision (Some b) \<longleftrightarrow> n = 0) \<and>
    (OwnershipRevision (Some b') = OwnershipRevision (Some b) \<longrightarrow>
       OwnsRoom balance (Some b') r = OwnsRoom balance (Some b) r \<and>
       PartitionForRoom balance (Some b') r = PartitionForRoom balance (Some b) r \<and>
       AssignedPartitions (Some b') = AssignedPartitions (Some b))"
  using kafka.revision_eq_iff [OF assms] kafka.revision_stable [OF assms] by blast

text \<open>Witness of C11: a bus that owns partition 1, loses it and takes it back; the revision differs.\<close>

theorem revision_detects_change_witness:
  "\<exists>b b'. OwnsRoom (\<lambda>r ps. 1) (Some b) ''room'' \<and> OwnsRoom (\<lambda>r ps. 1) (Some b') ''room'' \<and> own_reach b 2 b' \<and>
     OwnershipRevision (Some b') \<noteq> OwnershipRevision (Some b)"
proof -
  define b where "b = \<lparr>writer_set = True, partitioner_set = True,
    config = \<lparr>Brokers = [''k''], Topic = ''t'', GroupID = ''g''\<rparr>, activeGroup = None, consumerReady = False,
    topicPartitions = [0, 1], assignedPartition = [1], ownershipRevision = 5, closeOnce = False, closeErr = []\<rparr>"
  define b' where "b' = b\<lparr>ownershipRevision := 5 + 1 + 1\<rparr>"
  have "setPartitionOwnership (clearAssignedPartitions b) [0, 1] [(1, 7)] = (Inr b' :: unit kafka_bus_error + kafka_bus)"
    by (simp add: setPartitionOwnership_def clearAssignedPartitions_def b_def b'_def key_insert_def)
  then have r: "own_reach b (0 + 1 + 1) b'"
    by (intro own_next [OF own_next [OF own_refl own_clear]]) (rule own_set)
  have "OwnsRoom (\<lambda>r ps. 1) (Some b) ''room''" "OwnsRoom (\<lambda>r ps. 1) (Some b') ''room''"
    by (simp_all add: OwnsRoom_def partitionForRoomLocked_def b_def b'_def trim_space_def
      trim_right_def decode_eqs is_space_def)
  moreover have "OwnershipRevision (Some b') \<noteq> OwnershipRevision (Some b)"
    using revision_detects_change [OF r] by simp
  ultimately show ?thesis using r by (auto simp: numeral_2_eq_2)
qed

text \<open>(C2) At least once and in order: whatever the broker, the commits and the handler answer, a partition worker
  commits exactly a prefix of the records it fetched, in order, each at the offset after it; the handler
  has accepted exactly the valid messages of that prefix, in order, and one more only if its commit
  failed. A message that the handler refuses is not committed, and while the worker runs nothing fetched is
  left uncommitted.\<close>

theorem consumePartition_at_least_once:
  "\<exists>pre rest. fetched es = pre @ rest \<and>
     run_committed (consumePartition unmarshal h s None es) = map offsetsAfter pre \<and>
     run_end unmarshal rest (payloads unmarshal pre) (consumePartition unmarshal h s None es)"
  using partition_loop_shape [of "\<lparr>run_handled = [], run_committed = [], run_state = s, run_error = None\<rparr>" unmarshal es h]
  by (simp add: consumePartition_def run_shape_def)

text \<open>(C24) Poison messages do not block a partition: if the broker accepts the commits and the handler accepts
  every message, the worker never stops, every record is committed, and the handler receives all the valid
  messages in order, however many records are malformed or incomplete.\<close>

theorem consumePartition_skips_poison:
  assumes "\<forall>ev\<in>set es. \<exists>m. ev = Fetched m None" and "\<And>s d. fst (h s d) = None"
  shows "run_error (consumePartition unmarshal h s None es) = None \<and>
    run_committed (consumePartition unmarshal h s None es) = map offsetsAfter (fetched es) \<and>
    run_handled (consumePartition unmarshal h s None es) = payloads unmarshal (fetched es)"
proof -
  let ?p = "\<lparr>run_handled = [], run_committed = [], run_state = s, run_error = None\<rparr>"
  have "run_error (partition_loop unmarshal h ?p es) = None" using partition_loop_clean [where good = "\<lambda>s. True" and p = ?p and u = unmarshal and h = h, OF _ assms(1)] assms(2) by simp
  moreover from this obtain pre where "fetched es = pre @ []"
    "run_committed (partition_loop unmarshal h ?p es) = map offsetsAfter pre"
    "run_handled (partition_loop unmarshal h ?p es) = payloads unmarshal pre"
    using partition_loop_shape [of ?p unmarshal es h] by (auto simp: run_shape_def run_end_def)
  ultimately show ?thesis by (simp add: consumePartition_def)
qed

text \<open>Witness of C24: an undecodable record, one without a user and a good one.\<close>

theorem consumePartition_skips_poison_witness:
  "\<exists>unmarshal :: string \<Rightarrow> danmaku option. \<exists>es.
     length (run_committed (consumePartition unmarshal (\<lambda>n d. (None :: unit option, Suc n)) 0 None es)) = 3 \<and>
     length (run_handled (consumePartition unmarshal (\<lambda>n d. (None :: unit option, Suc n)) 0 None es)) = 1"
proof -
  define d :: danmaku where
    "d = \<lparr>MessageID = ''1'', RoomID = ''r'', UserID = ''u'', Content = ''c'', Sequence = 0, CreatedAt = 1\<rparr>"
  define u where "u = (\<lambda>v. if v = ''bad'' then None else if v = ''anon'' then Some (d\<lparr>UserID := []\<rparr>) else Some d)"
  define rec where "rec = (\<lambda>v off. Fetched \<lparr>km_Topic = ''t'', km_Partition = 0, km_Offset = off, km_Value = v\<rparr> None)"
  define es where "es = [rec ''bad'' 4, rec ''anon'' 5, rec ''good'' 6]"
  have ok: "\<forall>ev\<in>set es. \<exists>m. ev = Fetched m None" by (simp add: es_def rec_def)
  have "length (payloads u (fetched es)) = 1"
    by (simp add: es_def rec_def payload_def u_def d_def Validate_def trim_space_def
      trim_right_def decode_eqs is_space_def)
  moreover have "length (fetched es) = 3" by (simp add: es_def rec_def)
  ultimately show ?thesis
    using consumePartition_skips_poison [OF ok, of "\<lambda>n d. (None :: unit option, Suc n)" u 0]
    by (intro exI [of _ u] exI [of _ es]) simp
qed

text \<open>(C15) Readiness of the Kafka bus is backed by a generation: started on a bus that is not ready, every state
  that \<^verbatim>\<open>Consume\<close> goes through with \<^verbatim>\<open>ConsumerReady\<close> true owns exactly the partitions of a generation it was given,
  all of them known to the topic; and when \<^verbatim>\<open>Consume\<close> returns, the bus is not ready, owns no room and has no
  active group.\<close>

theorem Consume_kafka_ready:
  assumes "writer_set b" and "\<not> ConsumerReady_kafka (Some b)" and "Consume_kafka (Some b) False (Inr g) evs = (r, tr)"
  shows "(\<forall>c\<in>set tr. ConsumerReady_kafka (Some c) \<longrightarrow>
      (\<exists>as ps ends ctx. NextGeneration as (Inr ps) ends ctx \<in> set evs \<and> topicPartitions c = ps \<and>
         set (AssignedPartitions (Some c)) = set (map fst as) \<and> set (map fst as) \<subseteq> set ps)) \<and>
    (r \<noteq> None \<longrightarrow> \<not> ConsumerReady_kafka (Some (last tr)) \<and> \<not> OwnsRoom balance (Some (last tr)) room \<and>
      activeGroup (last tr) = None)"
proof -
  let ?b = "setActiveGroup g b"
  obtain r' tr' where l: "Consume_loop ?b evs = (r', tr')" by fastforce
  have ne: "tr' \<noteq> []" using Consume_loop_nonempty [of ?b evs] l by simp
  have st: "\<forall>c\<in>set tr'. ready_backed evs c \<and> activeGroup c = Some g"
    using Consume_loop_states [of ?b evs] l by (simp add: setActiveGroup_def)
  then have lst: "activeGroup (last tr') = Some g" using ne by simp
  have "\<forall>c\<in>set tr. ready_backed evs c"
    using assms l st by (cases r') (auto simp: Consume_kafka_def ConsumerReady_kafka_def Let_def bus_updates
      clearActiveGroup_def)
  moreover have "r \<noteq> None \<Longrightarrow> last tr = clearActiveGroup g (clearAssignedPartitions (storeReady False (last tr')))"
    using assms(1,3) l by (cases r') (auto simp: Consume_kafka_def Let_def)
  ultimately show ?thesis using lst
    by (auto simp: ready_backed_def ConsumerReady_kafka_def AssignedPartitions_def OwnsRoom_def bus_updates
      clearActiveGroup_def split: option.split)
qed

text \<open>Witness of C15: one generation with partition 1 of two, whose worker is ended by the rebalance, and then a
  failure of the group.\<close>

theorem Consume_kafka_ready_witness:
  "\<exists>b r tr. Consume_kafka (Some b) False (Inr 3)
       [NextGeneration [(1, 0)] (Inr [0, 1]) [KafkaErr ErrGenerationEnded] None,
        NextFails (KafkaErr (KafkaFailure ''down'') :: unit kafka_bus_error) None] = (r, tr) \<and>
     r = Some (KafkaErr (KafkaFailure ''down'')) \<and> (\<exists>c\<in>set tr. ConsumerReady_kafka (Some c)) \<and>
     \<not> ConsumerReady_kafka (Some (last tr))"
proof -
  define b where "b = \<lparr>writer_set = True, partitioner_set = True,
    config = \<lparr>Brokers = [''k''], Topic = ''t'', GroupID = ''g''\<rparr>, activeGroup = None, consumerReady = False,
    topicPartitions = [], assignedPartition = [], ownershipRevision = 0, closeOnce = False, closeErr = []\<rparr>"
  let ?evs = "[NextGeneration [(1, 0)] (Inr [0, 1]) [KafkaErr ErrGenerationEnded] None,
        NextFails (KafkaErr (KafkaFailure ''down'') :: unit kafka_bus_error) None]"
  obtain r tr where c: "Consume_kafka (Some b) False (Inr 3) ?evs = (r, tr)" by fastforce
  have b: "writer_set b" "\<not> ConsumerReady_kafka (Some b)" by (simp_all add: b_def ConsumerReady_kafka_def)
  have r: "r = Some (KafkaErr (KafkaFailure ''down''))" and rdy: "\<exists>c\<in>set tr. ConsumerReady_kafka (Some c)"
    using c by (auto simp: Consume_kafka_def b_def bus_updates Let_def setPartitionOwnership_def key_insert_def
      consumeGeneration_def try_recv_def make_chan_def ConsumerReady_kafka_def)
  have "\<not> ConsumerReady_kafka (Some (last tr))" using Consume_kafka_ready [OF b c] r by simp
  with c r rdy show ?thesis by blast
qed



text \<open>(C30) End of a generation: with one result per assignment, \<^verbatim>\<open>consumeGeneration\<close> never loses a failure. It returns
  the context's error if the context is done, else the first worker failure that is not the normal end of
  the generation, else nil, so that only a rebalance leads to the next generation.\<close>

theorem consumeGeneration_first_failure:
  assumes "length ends = length assignments"
  shows "consumeGeneration assignments ends ctx =
    (case ctx of Some c \<Rightarrow> Some (KafkaCtx c) | None \<Rightarrow> find (\<lambda>e. \<not> is_generation_ended e) ends)"
proof -
  have "buf (report_errors (make_chan (length assignments)) ends) = filter (\<lambda>e. \<not> is_generation_ended e) ends"
    "\<not> closed (report_errors (make_chan (length assignments)) ends)"
    using report_errors_buf [of "make_chan (length assignments)" ends] assms by (simp_all add: make_chan_def)
  moreover have "(if assignments = [] then [] else ends) = ends" using assms by auto
  ultimately show ?thesis
    by (auto simp: consumeGeneration_def try_recv_def find_hd_filter Let_def split: option.split list.split)
qed

text \<open>Witness of C30: two workers, one ended by the rebalance, one whose commit failed.\<close>

theorem consumeGeneration_first_failure_witness:
  "consumeGeneration [(0, 5), (1, 9)] [KafkaErr ErrGenerationEnded, CommitHandled (KafkaFailure ''x'') :: unit kafka_bus_error] None
     = Some (CommitHandled (KafkaFailure ''x''))"
  using consumeGeneration_first_failure [of "[KafkaErr ErrGenerationEnded, CommitHandled (KafkaFailure ''x'') :: unit kafka_bus_error]"
      "[(0, 5), (1, 9)]" None]
  by simp

end
