(* ===== verification/Connections.thy ===== *)
theory Connections
  imports Kafka
begin

text \<open>
  The table of upgraded connections of \<^verbatim>\<open>src/internal/httpserver/websocket.go\<close>, the worker pool that closes
  connections, and the table next to handshakes, the ownership monitor of \<^verbatim>\<open>server.go\<close> and shutdown. A
  connection is a number, its identity; the map is the list of its keys.
\<close>

section \<open>The table\<close>

record ws_connections =
  items :: "nat list"
  closing :: bool

definition newWebSocketConnections :: ws_connections where
  "newWebSocketConnections = \<lparr>items = [], closing = False\<rparr>"

definition add :: "ws_connections \<Rightarrow> nat \<Rightarrow> bool \<times> ws_connections" where
  "add cs conn = (if closing cs then (False, cs) else (True, cs\<lparr>items := key_insert conn (items cs)\<rparr>))"

definition remove :: "ws_connections \<Rightarrow> nat \<Rightarrow> ws_connections" where
  "remove cs conn = cs\<lparr>items := removeAll conn (items cs)\<rparr>"

text \<open>\<open>order\<close> is the order in which Go visits the map; both return the connections handed to \<^verbatim>\<open>closeWebSockets\<close>.\<close>

definition closeForOwnershipChange :: "ws_connections \<Rightarrow> nat list \<Rightarrow> nat list \<times> ws_connections" where
  "closeForOwnershipChange cs order = (order, cs\<lparr>items := filter (\<lambda>c. c \<notin> set order) (items cs)\<rparr>)"

definition closeForServiceRestart :: "ws_connections \<Rightarrow> nat list \<Rightarrow> nat list \<times> ws_connections" where
  "closeForServiceRestart cs order = (order, cs\<lparr>closing := True\<rparr>)"

definition table_order :: "ws_connections \<Rightarrow> nat list \<Rightarrow> bool" where
  "table_order cs order \<longleftrightarrow> distinct order \<and> set order = set (items cs)"

section \<open>The closing pool\<close>

definition websocketCloseWorkers :: nat where
  "websocketCloseWorkers = 32"

text \<open>\<^verbatim>\<open>closeWebSockets\<close>: the feeder's remaining connections, whether it has closed the unbuffered channel, the
  connections being closed, the workers waiting and gone, the connections closed, the context.\<close>

record pool =
  todo :: "nat list"
  jobs_closed :: bool
  busy :: "nat list"
  idle :: nat
  gone :: nat
  pool_closed :: "nat list"
  pool_ctx_done :: bool

definition pool_init :: "nat list \<Rightarrow> pool" where
  "pool_init conns =
     \<lparr>todo = conns, jobs_closed = False, busy = [], idle = min (length conns) websocketCloseWorkers, gone = 0,
      pool_closed = [], pool_ctx_done = False\<rparr>"

inductive pool_step :: "pool \<Rightarrow> pool \<Rightarrow> bool" where
  pool_hand: "\<not> jobs_closed s \<Longrightarrow> todo s = c # cs \<Longrightarrow> idle s = Suc k \<Longrightarrow>
    pool_step s (s\<lparr>todo := cs, idle := k, busy := c # busy s\<rparr>)"
| pool_feed_end: "\<not> jobs_closed s \<Longrightarrow> todo s = [] \<or> pool_ctx_done s \<Longrightarrow> pool_step s (s\<lparr>jobs_closed := True\<rparr>)"
| pool_finish: "busy s = xs @ c # ys \<Longrightarrow>
    pool_step s (s\<lparr>busy := xs @ ys, idle := Suc (idle s), pool_closed := pool_closed s @ [c]\<rparr>)"
| pool_exit: "jobs_closed s \<or> pool_ctx_done s \<Longrightarrow> idle s = Suc k \<Longrightarrow> pool_step s (s\<lparr>idle := k, gone := Suc (gone s)\<rparr>)"
| pool_cancel: "\<not> pool_ctx_done s \<Longrightarrow> pool_step s (s\<lparr>pool_ctx_done := True\<rparr>)"

inductive pool_reach :: "nat list \<Rightarrow> pool \<Rightarrow> bool" for conns where
  pool_start: "pool_reach conns (pool_init conns)"
| pool_next: "pool_reach conns s \<Longrightarrow> pool_step s s' \<Longrightarrow> pool_reach conns s'"

text \<open>\<^verbatim>\<open>workers.Wait\<close> returns.\<close>

definition pool_finished :: "pool \<Rightarrow> bool" where
  "pool_finished s \<longleftrightarrow> busy s = [] \<and> idle s = 0"

definition pool_inv :: "nat list \<Rightarrow> pool \<Rightarrow> bool" where
  "pool_inv conns s \<longleftrightarrow>
     mset conns = mset (todo s) + mset (busy s) + mset (pool_closed s) \<and>
     length (busy s) + idle s + gone s = min (length conns) websocketCloseWorkers \<and>
     (jobs_closed s \<longrightarrow> todo s = [] \<or> pool_ctx_done s) \<and>
     (0 < gone s \<longrightarrow> jobs_closed s \<or> pool_ctx_done s)"

lemma pool_reach_inv: "pool_reach conns s \<Longrightarrow> pool_inv conns s"
proof (induction rule: pool_reach.induct)
  case pool_start
  show ?case by (simp add: pool_inv_def pool_init_def)
next
  case (pool_next s s')
  from pool_next.hyps(2) pool_next.IH show ?case
    by (cases rule: pool_step.cases) (auto simp: pool_inv_def)
qed

definition pool_measure :: "pool \<Rightarrow> nat" where
  "pool_measure s = 3 * length (todo s) + 2 * length (busy s) + idle s +
     (if jobs_closed s then 0 else 1) + (if pool_ctx_done s then 0 else 1)"

lemma pool_step_measure: "pool_step s s' \<Longrightarrow> pool_measure s' < pool_measure s"
  by (induction rule: pool_step.induct) (auto simp: pool_measure_def)

lemma pool_stuck_done:
  assumes "pool_reach conns s" and "\<not> pool_ctx_done s" and "\<And>s'. pool_step s s' \<Longrightarrow> pool_ctx_done s'"
  shows "mset (pool_closed s) = mset conns \<and> pool_finished s"
proof -
  have inv: "pool_inv conns s" using pool_reach_inv [OF assms(1)] .
  have b: "busy s = []"
  proof (rule ccontr)
    assume "busy s \<noteq> []"
    then obtain c cs where "busy s = [] @ c # cs" by (cases "busy s") auto
    from assms(3) [OF pool_finish [OF this]] assms(2) show False by simp
  qed
  have feed: "jobs_closed s" if "todo s = []"
    using assms(3) [OF pool_feed_end, of] that assms(2) by fastforce
  have exit: "idle s = 0" if "jobs_closed s"
  proof (rule ccontr)
    assume "idle s \<noteq> 0"
    then obtain k where "idle s = Suc k" by (cases "idle s") auto
    from assms(3) [OF pool_exit [OF _ this]] that assms(2) show False by simp
  qed
  have "jobs_closed s"
  proof (rule ccontr)
    assume j: "\<not> jobs_closed s"
    then obtain c cs where t: "todo s = c # cs" using feed by (cases "todo s") auto
    have "idle s = 0"
    proof (rule ccontr)
      assume "idle s \<noteq> 0"
      then obtain k where "idle s = Suc k" by (cases "idle s") auto
      from assms(3) [OF pool_hand [OF j t this]] assms(2) show False by simp
    qed
    moreover have "gone s = 0" using inv j assms(2) by (auto simp: pool_inv_def)
    ultimately have "length conns = 0" using inv b by (auto simp: pool_inv_def websocketCloseWorkers_def min_def split: if_splits)
    then show False using inv t by (simp add: pool_inv_def)
  qed
  then show ?thesis using inv b exit assms(2) by (auto simp: pool_inv_def pool_finished_def)
qed

section \<open>Handshakes, monitor and shutdown\<close>

text \<open>How far a connection's handler has come, with the revision it read first: revision read, ownership checked,
  registered in the table, revision read again and found the same, ownership checked again. A handler that
  gives up, or whose connection ends, is \<open>Left\<close>.\<close>

datatype stage = NoRequest | RevisionRead uint64 | OwnerChecked uint64 | Added uint64 | Rechecked uint64 | Established uint64 | Left

text \<open>\<open>g_room\<close> is the room each connection asks for, \<open>mon_last\<close> and \<open>mon_pending\<close> are the monitor's \<^verbatim>\<open>lastRevision\<close> and whether
  it is between reading a new revision and closing the connections, \<open>g_told\<close> collects the connections handed to
  \<^verbatim>\<open>closeWebSockets\<close> and \<open>g_updates\<close> counts the ownership updates.\<close>

record gate =
  g_bus :: kafka_bus
  g_updates :: nat
  g_conns :: ws_connections
  g_stage :: "nat \<Rightarrow> stage"
  g_room :: "nat \<Rightarrow> string"
  g_told :: "nat set"
  mon_last :: uint64
  mon_pending :: bool

definition gate_init :: "kafka_bus \<Rightarrow> (nat \<Rightarrow> string) \<Rightarrow> gate" where
  "gate_init b rooms =
     \<lparr>g_bus = b, g_updates = 0, g_conns = newWebSocketConnections, g_stage = (\<lambda>c. NoRequest), g_room = rooms, g_told = {},
      mon_last = OwnershipRevision (Some b), mon_pending = False\<rparr>"

abbreviation set_stage :: "nat \<Rightarrow> stage \<Rightarrow> gate \<Rightarrow> gate" where
  "set_stage c st s \<equiv> s\<lparr>g_stage := (g_stage s)(c := st)\<rparr>"

abbreviation owns :: "(string \<Rightarrow> int list \<Rightarrow> int) \<Rightarrow> gate \<Rightarrow> nat \<Rightarrow> bool" where
  "owns balance s c \<equiv> OwnsRoom balance (Some (g_bus s)) (g_room s c)"

abbreviation revision :: "gate \<Rightarrow> uint64" where
  "revision s \<equiv> OwnershipRevision (Some (g_bus s))"

inductive gate_step :: "(string \<Rightarrow> int list \<Rightarrow> int) \<Rightarrow> gate \<Rightarrow> gate \<Rightarrow> bool" for balance where
  gs_own: "own_step (g_bus s) k b' \<Longrightarrow> gate_step balance s (s\<lparr>g_bus := b', g_updates := g_updates s + k\<rparr>)"
| gs_request: "g_stage s c = NoRequest \<Longrightarrow> gate_step balance s (set_stage c (RevisionRead (revision s)) s)"
| gs_owned: "g_stage s c = RevisionRead r \<Longrightarrow> gate_step balance s (set_stage c (if owns balance s c then OwnerChecked r else Left) s)"
| gs_add: "g_stage s c = OwnerChecked r \<Longrightarrow> add (g_conns s) c = (acc, cs) \<Longrightarrow>
    gate_step balance s (set_stage c (if acc then Added r else Left) (s\<lparr>g_conns := cs\<rparr>))"
| gs_same: "g_stage s c = Added r \<Longrightarrow> revision s = r \<Longrightarrow> gate_step balance s (set_stage c (Rechecked r) s)"
| gs_changed: "g_stage s c = Added r \<Longrightarrow> revision s \<noteq> r \<Longrightarrow>
    gate_step balance s (set_stage c Left (s\<lparr>g_conns := remove (g_conns s) c\<rparr>))"
| gs_established: "g_stage s c = Rechecked r \<Longrightarrow> owns balance s c \<Longrightarrow> gate_step balance s (set_stage c (Established r) s)"
| gs_lost: "g_stage s c = Rechecked r \<Longrightarrow> \<not> owns balance s c \<Longrightarrow>
    gate_step balance s (set_stage c Left (s\<lparr>g_conns := remove (g_conns s) c\<rparr>))"
| gs_end: "g_stage s c = Established r \<Longrightarrow>
    gate_step balance s (set_stage c Left (s\<lparr>g_conns := remove (g_conns s) c\<rparr>))"
| gs_monitor: "\<not> mon_pending s \<Longrightarrow> revision s \<noteq> mon_last s \<Longrightarrow>
    gate_step balance s (s\<lparr>mon_last := revision s, mon_pending := True\<rparr>)"
| gs_sweep: "mon_pending s \<Longrightarrow> table_order (g_conns s) order \<Longrightarrow> closeForOwnershipChange (g_conns s) order = (told, cs) \<Longrightarrow>
    gate_step balance s (s\<lparr>g_conns := cs, g_told := g_told s \<union> set told, mon_pending := False\<rparr>)"
| gs_shutdown: "table_order (g_conns s) order \<Longrightarrow> closeForServiceRestart (g_conns s) order = (told, cs) \<Longrightarrow>
    gate_step balance s (s\<lparr>g_conns := cs, g_told := g_told s \<union> set told\<rparr>)"

inductive gate_reach :: "(string \<Rightarrow> int list \<Rightarrow> int) \<Rightarrow> gate \<Rightarrow> bool" for balance where
  gate_start: "NewKafka cfg = (Inr b :: unit kafka_bus_error + kafka_bus) \<Longrightarrow> gate_reach balance (gate_init b rooms)"
| gate_next: "gate_reach balance s \<Longrightarrow> gate_step balance s s' \<Longrightarrow> gate_reach balance s'"

text \<open>The revision a handler holds.\<close>

fun stage_rev :: "stage \<Rightarrow> uint64 option" where
  "stage_rev (RevisionRead r) = Some r"
| "stage_rev (OwnerChecked r) = Some r"
| "stage_rev (Added r) = Some r"
| "stage_rev (Rechecked r) = Some r"
| "stage_rev (Established r) = Some r"
| "stage_rev _ = None"

fun registered :: "stage \<Rightarrow> bool" where
  "registered (Added r) = True"
| "registered (Rechecked r) = True"
| "registered (Established r) = True"
| "registered _ = False"

fun rechecked :: "stage \<Rightarrow> bool" where
  "rechecked (Rechecked r) = True"
| "rechecked (Established r) = True"
| "rechecked _ = False"

text \<open>A registered connection is in the table or has been told to close; once the table is closing, all of it has
  been told.\<close>

definition told_inv :: "gate \<Rightarrow> bool" where
  "told_inv s \<longleftrightarrow>
     (\<forall>c. registered (g_stage s c) \<longrightarrow> c \<in> set (items (g_conns s)) \<union> g_told s) \<and>
     (closing (g_conns s) \<longrightarrow> set (items (g_conns s)) \<subseteq> g_told s)"

lemma gate_step_told: "gate_step balance s s' \<Longrightarrow> told_inv s \<Longrightarrow> told_inv s'"
proof (induction rule: gate_step.induct)
  case (gs_same s c r)
  then have "registered (g_stage s c)" by simp
  with gs_same show ?case by (auto simp: told_inv_def)
next
  case (gs_established s c r)
  then have "registered (g_stage s c)" by simp
  with gs_established show ?case by (auto simp: told_inv_def)
next
  case (gs_add s c r acc cs)
  then show ?case by (auto simp: told_inv_def add_def key_insert_def split: if_splits)
next
  case (gs_sweep s order told cs)
  then show ?case by (auto simp: told_inv_def closeForOwnershipChange_def table_order_def)
next
  case (gs_shutdown s order told cs)
  then show ?case by (auto simp: told_inv_def closeForServiceRestart_def table_order_def)
qed (auto simp: told_inv_def remove_def split: if_splits)

text \<open>Revisions as numbers of updates: no handler and not the monitor holds a later one than the current, a
  connection in the table that has passed the second look at the revision is not older than what the
  monitor has acted on, and an established one that holds the current revision is in an owned room.\<close>

definition fresh_inv :: "(string \<Rightarrow> int list \<Rightarrow> int) \<Rightarrow> gate \<Rightarrow> bool" where
  "fresh_inv balance s \<longleftrightarrow>
     unat (revision s) = g_updates s \<and> unat (mon_last s) \<le> g_updates s \<and>
     (\<forall>c r. stage_rev (g_stage s c) = Some r \<longrightarrow> unat r \<le> g_updates s) \<and>
     (\<forall>c r. c \<in> set (items (g_conns s)) \<longrightarrow> rechecked (g_stage s c) \<longrightarrow> stage_rev (g_stage s c) = Some r \<longrightarrow>
        \<not> mon_pending s \<longrightarrow> unat (mon_last s) \<le> unat r) \<and>
     (\<forall>c r. g_stage s c = Established r \<longrightarrow> unat r = g_updates s \<longrightarrow> owns balance s c)"

lemma own_step_unat:
  assumes "own_step b k b'" and "unat (OwnershipRevision (Some b)) = n" and "n + k < 2 ^ 64"
  shows "unat (OwnershipRevision (Some b')) = n + k"
proof -
  have "OwnershipRevision (Some b) = of_nat n" by (simp flip: assms(2))
  then have "OwnershipRevision (Some b') = of_nat (n + k)"
    using own_step_facts(1) [OF assms(1)] by (simp add: OwnershipRevision_def)
  moreover have "unat (of_nat m :: uint64) = m" if "m < 2 ^ 64" for m using that by (simp add: unat_of_nat)
  ultimately show ?thesis using assms(3) by metis
qed

lemma own_step_owns: "own_step b 0 b' \<Longrightarrow> OwnsRoom balance (Some b') r = OwnsRoom balance (Some b) r"
  using own_step_facts(3,4) [of b 0 b'] by (simp add: OwnsRoom_def partitionForRoomLocked_def Let_def split: option.split)

lemma gate_step_updates: "gate_step balance s s' \<Longrightarrow> g_updates s \<le> g_updates s'"
  by (induction rule: gate_step.induct) auto

lemma fresh_invD:
  assumes "fresh_inv balance s"
  shows "stage_rev (g_stage s c) = Some r \<Longrightarrow> unat r \<le> g_updates s"
    and "c \<in> set (items (g_conns s)) \<Longrightarrow> rechecked (g_stage s c) \<Longrightarrow> stage_rev (g_stage s c) = Some r \<Longrightarrow>
      \<not> mon_pending s \<Longrightarrow> unat (mon_last s) \<le> unat r"
    and "g_stage s c = Established r \<Longrightarrow> unat r = g_updates s \<Longrightarrow> owns balance s c"
  using assms unfolding fresh_inv_def by blast+

lemma fresh_inv_own:
  assumes "own_step (g_bus s) k b'" and "fresh_inv balance s" and "g_updates s + k < 2 ^ 64"
  shows "fresh_inv balance (s\<lparr>g_bus := b', g_updates := g_updates s + k\<rparr>)"
proof -
  have r: "unat (OwnershipRevision (Some b')) = g_updates s + k"
    using own_step_unat [OF assms(1) _ assms(3)] assms(2) by (simp add: fresh_inv_def)
  have le: "unat x \<le> g_updates s" if "stage_rev (g_stage s c) = Some x" for c x
    using assms(2) that by (auto simp: fresh_inv_def)
  have o: "OwnsRoom balance (Some b') (g_room s c)" if "g_stage s c = Established x" "unat x = g_updates s + k" for c x
  proof -
    have "k = 0" using le [of c x] that by simp
    then show ?thesis using own_step_owns [of "g_bus s" b'] assms(1,2) that by (simp add: fresh_inv_def)
  qed
  show ?thesis using assms(2) r le o by (auto simp: fresh_inv_def intro: trans_le_add1)
qed

lemma gate_step_fresh:
  "gate_step balance s s' \<Longrightarrow> fresh_inv balance s \<Longrightarrow> g_updates s' < 2 ^ 64 \<Longrightarrow> fresh_inv balance s'"
proof (induction rule: gate_step.induct)
  case (gs_own s k b')
  then show ?case using fresh_inv_own by simp
next
  case (gs_request s c)
  then show ?case by (auto simp: fresh_inv_def split: if_splits)
next
  case (gs_owned s c r)
  then have "unat r \<le> g_updates s" using fresh_invD(1) [of balance s c r] by simp
  with gs_owned show ?case by (auto simp: fresh_inv_def split: if_splits)
next
  case (gs_add s c r acc cs)
  then have "unat r \<le> g_updates s" using fresh_invD(1) [of balance s c r] by simp
  with gs_add show ?case by (auto simp: fresh_inv_def add_def key_insert_def split: if_splits)
next
  case (gs_same s c r)
  then show ?case by (auto simp: fresh_inv_def split: if_splits)
next
  case (gs_established s c r)
  then have "unat r \<le> g_updates s" "c \<in> set (items (g_conns s)) \<Longrightarrow> \<not> mon_pending s \<Longrightarrow> unat (mon_last s) \<le> unat r"
    using fresh_invD [of balance s c r] by simp_all
  with gs_established show ?case by (auto simp: fresh_inv_def split: if_splits)
next
  case (gs_sweep s order told cs)
  then have "items cs = []" by (auto simp: closeForOwnershipChange_def table_order_def filter_empty_conv)
  with gs_sweep show ?case by (auto simp: fresh_inv_def)
next
  case (gs_shutdown s order told cs)
  then show ?case by (auto simp: fresh_inv_def closeForServiceRestart_def)
qed (auto simp: fresh_inv_def remove_def split: if_splits)

lemma NewKafka_revision: "NewKafka cfg = Inr b \<Longrightarrow> OwnershipRevision (Some b) = 0"
  by (auto simp: NewKafka_def OwnershipRevision_def split: if_splits)

lemma gate_reach_inv: "gate_reach balance s \<Longrightarrow> told_inv s \<and> (g_updates s < 2 ^ 64 \<longrightarrow> fresh_inv balance s)"
proof (induction rule: gate_reach.induct)
  case (gate_start cfg b rooms)
  then show ?case
    by (auto simp: told_inv_def fresh_inv_def gate_init_def newWebSocketConnections_def dest: NewKafka_revision)
next
  case (gate_next s s')
  then show ?case using gate_step_told gate_step_fresh gate_step_updates [of balance s s'] by fastforce
qed

section \<open>Properties\<close>



text \<open>(C3) No connection is served for a room of another instance: in every interleaving of handshakes, ownership
  updates (fewer than \<open>2^64\<close>), the monitor and shutdown, once the monitor has acted on the current
  revision, every established connection that was not told to close holds the current revision and its
  room is owned by this instance.\<close>

theorem established_rooms_owned:
  assumes "gate_reach balance s" and "g_updates s < 2 ^ 64" and "\<not> mon_pending s"
    and "mon_last s = OwnershipRevision (Some (g_bus s))" and "g_stage s c = Established r" and "c \<notin> g_told s"
  shows "OwnsRoom balance (Some (g_bus s)) (g_room s c) \<and> r = OwnershipRevision (Some (g_bus s))"
proof -
  have told: "told_inv s" and inv: "fresh_inv balance s" using gate_reach_inv [OF assms(1)] assms(2) by simp_all
  have "c \<in> set (items (g_conns s))" using told assms(5,6) by (force simp: told_inv_def)
  moreover have st: "stage_rev (g_stage s c) = Some r" "rechecked (g_stage s c)" using assms(5) by simp_all
  ultimately have "unat (mon_last s) \<le> unat r" using inv assms(3) unfolding fresh_inv_def by blast
  moreover have "unat r \<le> g_updates s" using inv st unfolding fresh_inv_def by blast
  moreover have "unat (mon_last s) = g_updates s" using inv assms(4) by (simp add: fresh_inv_def)
  ultimately have "unat r = g_updates s" by simp
  moreover from this have "r = revision s" using inv by (simp add: fresh_inv_def word_unat_eq_iff)
  ultimately show ?thesis using fresh_invD(3) [OF inv assms(5)] by blast
qed

text \<open>(C14) No connection escapes a shutdown: once the table is closing, every connection whose handler has
  registered it, however its handshake raced with the shutdown, has been told to close.\<close>

theorem shutdown_reaches_all:
  assumes "gate_reach balance s" and "closing (g_conns s)" and "registered (g_stage s c)"
  shows "c \<in> g_told s"
  using gate_reach_inv [OF assms(1)] assms(2,3) by (auto simp: told_inv_def)

text \<open>The runs of the witnesses: a bus that has installed a generation with partition 1, a connection for a room of
  that partition, and its handshake.\<close>

definition ex_bus :: kafka_bus where
  "ex_bus = \<lparr>writer_set = True, partitioner_set = True,
    config = \<lparr>Brokers = [''k''], Topic = ''t'', GroupID = ''g''\<rparr>, activeGroup = None, consumerReady = False,
    topicPartitions = [], assignedPartition = [], ownershipRevision = 0, closeOnce = False, closeErr = []\<rparr>"

definition ex_owner :: kafka_bus where
  "ex_owner = ex_bus\<lparr>topicPartitions := [0, 1], assignedPartition := [1], ownershipRevision := 1\<rparr>"

definition ex_gate :: "stage \<Rightarrow> nat list \<Rightarrow> gate" where
  "ex_gate st tbl =
     \<lparr>g_bus = ex_owner, g_updates = 1, g_conns = \<lparr>items = tbl, closing = False\<rparr>, g_stage = (\<lambda>c. NoRequest)(7 := st),
      g_room = (\<lambda>c. ''room''), g_told = {}, mon_last = 1, mon_pending = False\<rparr>"

lemma ex_owner_facts:
  "OwnershipRevision (Some ex_owner) = 1" "OwnsRoom (\<lambda>r ps. 1) (Some ex_owner) ''room''"
  by (simp_all add: ex_owner_def ex_bus_def OwnershipRevision_def OwnsRoom_def partitionForRoomLocked_def
    trim_space_def trim_right_def decode_eqs is_space_def)

lemma ex_gate_start: "gate_reach (\<lambda>r ps. 1) (ex_gate NoRequest [])"
proof -
  let ?s0 = "gate_init ex_bus (\<lambda>c. ''room'')"
  have k: "NewKafka \<lparr>Brokers = [''k''], Topic = ''t'', GroupID = ''g''\<rparr> = (Inr ex_bus :: unit kafka_bus_error + kafka_bus)"
    by (simp add: NewKafka_def ex_bus_def trim_space_def trim_right_def decode_eqs is_space_def)
  have "setPartitionOwnership ex_bus [0, 1] [(1, 0)] = (Inr ex_owner :: unit kafka_bus_error + kafka_bus)"
    by (simp add: setPartitionOwnership_def ex_owner_def ex_bus_def key_insert_def)
  then have "own_step (g_bus ?s0) 1 ex_owner" using own_set by (simp add: gate_init_def)
  note 1 = gate_next [OF gate_start [OF k] gs_own [OF this]]
  let ?s1 = "?s0\<lparr>g_bus := ex_owner, g_updates := g_updates ?s0 + 1\<rparr>"
  have "gate_step (\<lambda>r ps. 1) ?s1 (?s1\<lparr>mon_last := revision ?s1, mon_pending := True\<rparr>)"
    by (rule gs_monitor) (simp_all add: gate_init_def OwnershipRevision_def ex_owner_def ex_bus_def)
  note 2 = gate_next [OF 1 this]
  let ?s2 = "?s1\<lparr>mon_last := revision ?s1, mon_pending := True\<rparr>"
  have "closeForOwnershipChange (g_conns ?s2) [] = ([], newWebSocketConnections)"
    by (simp add: closeForOwnershipChange_def gate_init_def newWebSocketConnections_def)
  then have "gate_step (\<lambda>r ps. 1) ?s2 (?s2\<lparr>g_conns := newWebSocketConnections, g_told := g_told ?s2 \<union> set [], mon_pending := False\<rparr>)"
    by (intro gs_sweep [where order = "[]"]) (simp_all add: table_order_def gate_init_def newWebSocketConnections_def)
  from gate_next [OF 2 this] show ?thesis
    by (simp add: ex_gate_def gate_init_def newWebSocketConnections_def ex_owner_facts fun_upd_idem)
qed

lemma ex_gate_upd: "(ex_gate st tbl)\<lparr>g_stage := (g_stage (ex_gate st tbl))(7 := st')\<rparr> = ex_gate st' tbl"
  by (simp add: ex_gate_def)

lemma ex_gate_established: "gate_reach (\<lambda>r ps. 1) (ex_gate (Established 1) [7])"
proof -
  let ?B = "\<lambda>r ps. 1"
  have rev: "revision (ex_gate st tbl) = 1" "owns ?B (ex_gate st tbl) 7" "g_stage (ex_gate st tbl) 7 = st" for st tbl
    by (simp_all add: ex_gate_def ex_owner_facts)
  have "gate_step ?B (ex_gate NoRequest []) (ex_gate (RevisionRead 1) [])"
    using gs_request [of "ex_gate NoRequest []" 7 ?B] by (simp add: rev ex_gate_upd)
  note 1 = gate_next [OF ex_gate_start this]
  have "gate_step ?B (ex_gate (RevisionRead 1) []) (ex_gate (OwnerChecked 1) [])"
    using gs_owned [of "ex_gate (RevisionRead 1) []" 7 1 ?B] by (simp add: rev ex_gate_upd)
  note 2 = gate_next [OF 1 this]
  have "gate_step ?B (ex_gate (OwnerChecked 1) []) (ex_gate (Added 1) [7])"
    using gs_add [of "ex_gate (OwnerChecked 1) []" 7 1 True "\<lparr>items = [7], closing = False\<rparr>" ?B]
    by (simp add: ex_gate_def add_def key_insert_def)
  note 3 = gate_next [OF 2 this]
  have "gate_step ?B (ex_gate (Added 1) [7]) (ex_gate (Rechecked 1) [7])"
    using gs_same [of "ex_gate (Added 1) [7]" 7 1 ?B] by (simp add: rev ex_gate_upd)
  note 4 = gate_next [OF 3 this]
  have "gate_step ?B (ex_gate (Rechecked 1) [7]) (ex_gate (Established 1) [7])"
    using gs_established [of "ex_gate (Rechecked 1) [7]" 7 1 ?B] by (simp add: rev ex_gate_upd)
  then show ?thesis using gate_next [OF 4] by blast
qed

text \<open>Witness of C3: the established connection of that run.\<close>

theorem established_rooms_owned_witness:
  "gate_reach (\<lambda>r ps. 1) (ex_gate (Established 1) [7]) \<and> OwnsRoom (\<lambda>r ps. 1) (Some ex_owner) ''room''"
proof -
  have "OwnsRoom (\<lambda>r ps. 1) (Some (g_bus (ex_gate (Established 1) [7]))) (g_room (ex_gate (Established 1) [7]) 7)"
    using established_rooms_owned [OF ex_gate_established, of 7 1] by (simp add: ex_gate_def ex_owner_facts)
  then show ?thesis using ex_gate_established by (simp add: ex_gate_def)
qed

text \<open>Witness of C14: that connection when the service restarts.\<close>

theorem shutdown_reaches_all_witness:
  "\<exists>s. gate_reach (\<lambda>r ps. 1) s \<and> closing (g_conns s) \<and> g_stage s 7 = Established 1 \<and> 7 \<in> g_told s"
proof -
  let ?s = "ex_gate (Established 1) [7]"
  have "closeForServiceRestart (g_conns ?s) [7] = ([7], (g_conns ?s)\<lparr>closing := True\<rparr>)" by (simp add: closeForServiceRestart_def)
  moreover have "table_order (g_conns ?s) [7]" by (simp add: table_order_def ex_gate_def)
  ultimately have "gate_step (\<lambda>r ps. 1) ?s (?s\<lparr>g_conns := (g_conns ?s)\<lparr>closing := True\<rparr>, g_told := g_told ?s \<union> set [7]\<rparr>)"
    by (intro gs_shutdown)
  note r = gate_next [OF ex_gate_established this]
  show ?thesis
    using r shutdown_reaches_all [OF r, of 7] by (intro exI [of _ "?s\<lparr>g_conns := (g_conns ?s)\<lparr>closing := True\<rparr>, g_told := g_told ?s \<union> set [7]\<rparr>"])
      (simp add: ex_gate_def)
qed

end
