(* ===== verification/Room.thy ===== *)
theory Room
  imports GoStrings Channels
begin

text \<open>
  \<^verbatim>\<open>src/internal/room\<close>: the in-memory room (\<^verbatim>\<open>room.go\<close>) and the registry of rooms (\<^verbatim>\<open>registry.go\<close>).

  A \<^verbatim>\<open>*Client\<close> is shared between the room, which sends on its channel, and the connection that reads from
  it, also after the client has left. The channels a room creates therefore live in a store of the room,
  \<open>chans\<close>, indexed by the order of creation, and a client holds the index. A \<^verbatim>\<open>*Room\<close> is represented by its
  key in the registry, which never removes or replaces a room. Each operation holds the mutex of its
  receiver, so it is one atomic step. Go iterates over a map in an unspecified order, which \<open>Publish\<close>
  takes as an argument.
\<close>

section \<open>State\<close>

datatype room_error =
  ErrEmptyClientID | ErrClientAlreadyJoined | ErrClientNotFound | ErrEmptyContent_room | ErrNoClient
  | PanicSendOnClosed | PanicCloseOfClosed

record message =
  msg_Sequence :: uint64
  msg_Content :: string

record publish_result =
  DroppedClients :: nat

record client =
  client_ID :: string
  Messages :: nat

record room =
  clients :: "(string, client) gomap"
  sequence :: uint64
  chans :: "nat \<Rightarrow> message chan"
  nchans :: nat

section \<open>Operations\<close>

definition new_room :: room where
  "new_room = \<lparr>clients = [], sequence = 0, chans = (\<lambda>_. make_chan 0), nchans = 0\<rparr>"

definition Join :: "room \<Rightarrow> string \<Rightarrow> room_error + (client \<times> room)" where
  "Join r clientID =
     (if blank clientID then Inl ErrEmptyClientID
      else if mget (clients r) clientID \<noteq> None then Inl ErrClientAlreadyJoined
      else let c = \<lparr>client_ID = clientID, Messages = nchans r\<rparr> in
        Inr (c, r\<lparr>clients := mput clientID c (clients r),
                  chans := (chans r)(nchans r := make_chan 1),
                  nchans := Suc (nchans r)\<rparr>))"

definition Leave :: "room \<Rightarrow> string \<Rightarrow> room_error + room" where
  "Leave r clientID =
     (case mget (clients r) clientID of
        None \<Rightarrow> Inl ErrClientNotFound
      | Some c \<Rightarrow>
        (case close_chan (chans r (Messages c)) of
           None \<Rightarrow> Inl PanicCloseOfClosed
         | Some ch \<Rightarrow>
             Inr (r\<lparr>clients := mdel clientID (clients r), chans := (chans r)(Messages c := ch)\<rparr>)))"

text \<open>The loop of \<^verbatim>\<open>Publish\<close> over the clients, in the order \<open>ids\<close>.\<close>

fun deliver :: "(string, client) gomap \<Rightarrow> message \<Rightarrow> string list \<Rightarrow> (nat \<Rightarrow> message chan) \<Rightarrow> nat
    \<Rightarrow> room_error + (nat \<times> (nat \<Rightarrow> message chan))" where
  "deliver cl m [] ch dropped = Inr (dropped, ch)"
| "deliver cl m (i # ids) ch dropped =
     (case mget cl i of
        None \<Rightarrow> deliver cl m ids ch dropped
      | Some c \<Rightarrow>
        (case try_send (ch (Messages c)) m of
           (Sent, ch') \<Rightarrow> deliver cl m ids (ch(Messages c := ch')) dropped
         | (WouldBlock, ch') \<Rightarrow> deliver cl m ids ch (Suc dropped)
         | (SendOnClosed, ch') \<Rightarrow> Inl PanicSendOnClosed))"

definition Publish :: "room \<Rightarrow> string \<Rightarrow> string list \<Rightarrow> room_error + (publish_result \<times> room)" where
  "Publish r content order =
     (if blank content then Inl ErrEmptyContent_room
      else if clients r = [] then Inl ErrNoClient
      else let s = sequence r + 1;
               m = \<lparr>msg_Sequence = s, msg_Content = content\<rparr>
           in case deliver (clients r) m order (chans r) 0 of
                Inl e \<Rightarrow> Inl e
              | Inr (dropped, ch) \<Rightarrow>
                  Inr (\<lparr>DroppedClients = dropped\<rparr>, r\<lparr>sequence := s, chans := ch\<rparr>))"

text \<open>One receive by the connection that holds channel \<open>a\<close>.\<close>

definition Receive :: "room \<Rightarrow> nat \<Rightarrow> message recv_result \<times> room" where
  "Receive r a = (case try_recv (chans r a) of (x, ch) \<Rightarrow> (x, r\<lparr>chans := (chans r)(a := ch)\<rparr>))"

text \<open>The orders in which Go may visit the clients.\<close>

definition map_order :: "room \<Rightarrow> string list \<Rightarrow> bool" where
  "map_order r order \<longleftrightarrow> distinct order \<and> set order = set (mkeys (clients r))"

section \<open>Registry\<close>

datatype registry_error = ErrEmptyRoomID_registry

type_synonym registry = "(string, room) gomap"

definition NewRegistry :: registry where
  "NewRegistry = []"

text \<open>\<^verbatim>\<open>GetOrCreate\<close> returns the registry and the key that stands for the pointer it returns.\<close>

definition GetOrCreate :: "registry \<Rightarrow> string \<Rightarrow> registry_error + (string \<times> registry)" where
  "GetOrCreate reg roomID =
     (let rid = trim_space roomID in
      if rid = [] then Inl ErrEmptyRoomID_registry
      else case mget reg rid of
        Some existing \<Rightarrow> Inr (rid, reg)
      | None \<Rightarrow> Inr (rid, mput rid new_room reg))"

section \<open>Invariant\<close>

definition room_ok :: "room \<Rightarrow> bool" where
  "room_ok r \<longleftrightarrow>
     mwf (clients r) \<and>
     (\<forall>i c. mget (clients r) i = Some c \<longrightarrow>
        client_ID c = i \<and> \<not> blank i \<and> Messages c < nchans r \<and> \<not> closed (chans r (Messages c))) \<and>
     (\<forall>i j c d. mget (clients r) i = Some c \<longrightarrow> mget (clients r) j = Some d \<longrightarrow>
        Messages c = Messages d \<longrightarrow> i = j) \<and>
     (\<forall>a < nchans r. cap (chans r a) = 1 \<and> chan_ok (chans r a)) \<and>
     (\<forall>a < nchans r. \<not> closed (chans r a) \<longrightarrow> (\<exists>i c. mget (clients r) i = Some c \<and> Messages c = a))"

lemma room_okD:
  assumes "room_ok r"
  shows "mwf (clients r)"
    and "mget (clients r) i = Some c \<Longrightarrow>
      client_ID c = i \<and> \<not> blank i \<and> Messages c < nchans r \<and> \<not> closed (chans r (Messages c))"
    and "mget (clients r) i = Some c \<Longrightarrow> mget (clients r) j = Some d \<Longrightarrow> Messages c = Messages d \<Longrightarrow> i = j"
    and "a < nchans r \<Longrightarrow> cap (chans r a) = 1 \<and> chan_ok (chans r a)"
    and "a < nchans r \<Longrightarrow> \<not> closed (chans r a) \<Longrightarrow> \<exists>i c. mget (clients r) i = Some c \<and> Messages c = a"
  using assms unfolding room_ok_def by blast+

lemma room_ok_new [simp]: "room_ok new_room"
  by (simp add: room_ok_def new_room_def)

lemma room_okI:
  assumes "mwf (clients r)"
    and "\<And>i c. mget (clients r) i = Some c \<Longrightarrow>
      client_ID c = i \<and> \<not> blank i \<and> Messages c < nchans r \<and> \<not> closed (chans r (Messages c))"
    and "\<And>i j c d. mget (clients r) i = Some c \<Longrightarrow> mget (clients r) j = Some d \<Longrightarrow>
      Messages c = Messages d \<Longrightarrow> i = j"
    and "\<And>a. a < nchans r \<Longrightarrow> cap (chans r a) = 1 \<and> chan_ok (chans r a)"
    and "\<And>a. a < nchans r \<Longrightarrow> \<not> closed (chans r a) \<Longrightarrow> \<exists>i c. mget (clients r) i = Some c \<and> Messages c = a"
  shows "room_ok r"
  using assms unfolding room_ok_def by blast

lemma JoinD:
  assumes "Join r i = Inr (c, r')"
  shows "\<not> blank i" "mget (clients r) i = None" "c = \<lparr>client_ID = i, Messages = nchans r\<rparr>"
    "r' = r\<lparr>clients := mput i c (clients r), chans := (chans r)(nchans r := make_chan 1), nchans := Suc (nchans r)\<rparr>"
  using assms by (auto simp: Join_def Let_def split: if_splits)

lemma room_ok_Join [inv_intros]:
  assumes ok: "room_ok r" and j: "Join r i = Inr (c, r')"
  shows "room_ok r'"
proof (rule room_okI)
  note J = JoinD [OF j] and D = room_okD [OF ok]
  have ne: "Messages d \<noteq> nchans r" if "mget (clients r) k = Some d" for k d
    using D(2) [OF that] by simp
  show "mwf (clients r')" using D(1) J by simp
  show "client_ID d = k \<and> \<not> blank k \<and> Messages d < nchans r' \<and> \<not> closed (chans r' (Messages d))"
    if "mget (clients r') k = Some d" for k d
    using that J D(2) [of k d] ne [of k d] by (auto simp: make_chan_def less_Suc_eq split: if_splits)
  show "k = l" if "mget (clients r') k = Some d" "mget (clients r') l = Some e" "Messages d = Messages e" for k l d e
    using that J D(3) [of k d l e] ne [of k d] ne [of l e] by (auto split: if_splits)
  show "cap (chans r' a) = 1 \<and> chan_ok (chans r' a)" if "a < nchans r'" for a
    using that J D(4) [of a] by (auto simp: less_Suc_eq)
  show "\<exists>k d. mget (clients r') k = Some d \<and> Messages d = a" if a: "a < nchans r'" "\<not> closed (chans r' a)" for a
  proof (cases "a = nchans r")
    case True
    then show ?thesis using J by (intro exI [of _ i] exI [of _ c]) simp
  next
    case False
    then obtain k d where "mget (clients r) k = Some d" "Messages d = a"
      using a J D(5) [of a] by (auto simp: less_Suc_eq)
    then show ?thesis using J by (intro exI [of _ k] exI [of _ d]) auto
  qed
qed

lemma LeaveD:
  assumes "Leave r i = Inr r'"
  obtains c where "mget (clients r) i = Some c" "\<not> closed (chans r (Messages c))"
    "r' = r\<lparr>clients := mdel i (clients r), chans := (chans r)(Messages c := (chans r (Messages c))\<lparr>closed := True\<rparr>)\<rparr>"
  using assms by (auto simp: Leave_def close_chan_def split: option.splits if_splits)

lemma room_ok_Leave [inv_intros]:
  assumes ok: "room_ok r" and l: "Leave r i = Inr r'"
  shows "room_ok r'"
proof -
  note D = room_okD [OF ok]
  from l obtain c where c: "mget (clients r) i = Some c" and
    r': "r' = r\<lparr>clients := mdel i (clients r), chans := (chans r)(Messages c := (chans r (Messages c))\<lparr>closed := True\<rparr>)\<rparr>"
    by (rule LeaveD)
  have ne: "Messages d \<noteq> Messages c" if "mget (clients r) k = Some d" "k \<noteq> i" for k d
    using D(3) [OF that(1) c] that(2) by blast
  show ?thesis
  proof (rule room_okI)
    show "mwf (clients r')" using D(1) r' by simp
    show "client_ID d = k \<and> \<not> blank k \<and> Messages d < nchans r' \<and> \<not> closed (chans r' (Messages d))"
      if "mget (clients r') k = Some d" for k d
      using that r' D(2) [of k d] ne [of k d] by (auto split: if_splits)
    show "k = j" if "mget (clients r') k = Some d" "mget (clients r') j = Some e" "Messages d = Messages e" for k j d e
      using that r' D(3) [of k d j e] by (auto split: if_splits)
    show "cap (chans r' a) = 1 \<and> chan_ok (chans r' a)" if "a < nchans r'" for a
      using that r' D(4) [of a] by (auto simp: chan_ok_def)
    show "\<exists>k d. mget (clients r') k = Some d \<and> Messages d = a" if a: "a < nchans r'" "\<not> closed (chans r' a)" for a
    proof -
      have "a \<noteq> Messages c" using a(2) r' by auto
      then obtain k d where kd: "mget (clients r) k = Some d" "Messages d = a"
        using a r' D(5) [of a] by auto
      then have "k \<noteq> i" using \<open>a \<noteq> Messages c\<close> c by auto
      then show ?thesis using kd r' by (intro exI [of _ k] exI [of _ d]) auto
    qed
  qed
qed

section \<open>What one broadcast does\<close>

text \<open>The specification of a broadcast: the channels of the clients in \<open>S\<close> that have room get the message,
  every other channel is unchanged, and the clients whose channel is full are counted.\<close>

definition has_space :: "'a chan \<Rightarrow> bool" where
  "has_space ch \<longleftrightarrow> length (buf ch) < cap ch"

definition push :: "'a \<Rightarrow> 'a chan \<Rightarrow> 'a chan" where
  "push m ch = ch\<lparr>buf := buf ch @ [m]\<rparr>"

definition broadcast :: "(string, client) gomap \<Rightarrow> string set \<Rightarrow> message \<Rightarrow> (nat \<Rightarrow> message chan) \<Rightarrow> nat \<Rightarrow> message chan" where
  "broadcast cl S m ch a =
     (if (\<exists>i\<in>S. \<exists>c. mget cl i = Some c \<and> Messages c = a) \<and> has_space (ch a) then push m (ch a) else ch a)"

definition slow :: "(string, client) gomap \<Rightarrow> (nat \<Rightarrow> message chan) \<Rightarrow> string \<Rightarrow> bool" where
  "slow cl ch i \<longleftrightarrow> (\<exists>c. mget cl i = Some c \<and> \<not> has_space (ch (Messages c)))"

lemma deliver_broadcast:
  assumes "distinct ids"
    and inj: "\<And>i j c d. mget cl i = Some c \<Longrightarrow> mget cl j = Some d \<Longrightarrow> Messages c = Messages d \<Longrightarrow> i = j"
    and "\<And>i c. i \<in> set ids \<Longrightarrow> mget cl i = Some c \<Longrightarrow> \<not> closed (ch (Messages c))"
  shows "deliver cl m ids ch dropped =
    Inr (dropped + length (filter (slow cl ch) ids), broadcast cl (set ids) m ch)"
  using assms(1,3)
proof (induction ids arbitrary: ch dropped)
  case Nil
  then show ?case by (auto simp: broadcast_def)
next
  case (Cons i ids)
  have IH: "deliver cl m ids ch d = Inr (d + length (filter (slow cl ch) ids), broadcast cl (set ids) m ch)" for d
    using Cons.prems by (intro Cons.IH) auto
  show ?case
  proof (cases "mget cl i")
    case None
    then have "broadcast cl (set (i # ids)) m ch = broadcast cl (set ids) m ch" by (auto simp: broadcast_def fun_eq_iff)
    moreover have "\<not> slow cl ch i" using None by (simp add: slow_def)
    ultimately show ?thesis using None IH by simp
  next
    case (Some c)
    have open_c: "\<not> closed (ch (Messages c))" using Cons.prems(2) [of i c] Some by simp
    have other: "Messages d \<noteq> Messages c" if "j \<in> set ids" "mget cl j = Some d" for j d
      using inj [OF that(2) Some] that Cons.prems by auto
    show ?thesis
    proof (cases "has_space (ch (Messages c))")
      case False
      then have "broadcast cl (set (i # ids)) m ch = broadcast cl (set ids) m ch"
        using Some by (auto simp: broadcast_def fun_eq_iff)
      moreover have "slow cl ch i" using False Some by (simp add: slow_def)
      ultimately show ?thesis using False Some open_c IH by (simp add: try_send_def has_space_def)
    next
      case True
      let ?ch = "ch(Messages c := push m (ch (Messages c)))"
      have "slow cl ?ch j = slow cl ch j" if "j \<in> set ids" for j
        using other [OF that] by (auto simp: slow_def)
      then have sl: "filter (slow cl ?ch) ids = filter (slow cl ch) ids" by (simp cong: filter_cong)
      have br: "broadcast cl (set ids) m ?ch = broadcast cl (set (i # ids)) m ch"
        using True Some other by (fastforce simp: broadcast_def fun_eq_iff)
      have "deliver cl m ids ?ch dropped = Inr (dropped + length (filter (slow cl ?ch) ids), broadcast cl (set ids) m ?ch)"
        using Cons.prems other by (intro Cons.IH) auto
      moreover have "\<not> slow cl ch i" using True Some by (simp add: slow_def)
      ultimately show ?thesis unfolding sl br
        using True Some open_c by (simp add: try_send_def has_space_def push_def)
    qed
  qed
qed

lemma broadcast_simps [simp]:
  "cap (broadcast cl S m ch a) = cap (ch a)" "closed (broadcast cl S m ch a) = closed (ch a)"
  by (simp_all add: broadcast_def push_def)

lemma chan_ok_broadcast: "chan_ok (ch a) \<Longrightarrow> chan_ok (broadcast cl S m ch a)"
  by (simp add: broadcast_def push_def chan_ok_def has_space_def)

text \<open>\<open>Publish\<close> on every branch, in terms of the specification.\<close>

lemma Publish_spec:
  assumes "room_ok r" and "map_order r order"
  shows "Publish r content order =
    (if blank content then Inl ErrEmptyContent_room
     else if clients r = [] then Inl ErrNoClient
     else Inr (\<lparr>DroppedClients = card {i. slow (clients r) (chans r) i}\<rparr>,
       r\<lparr>sequence := sequence r + 1,
         chans := broadcast (clients r) (set (mkeys (clients r)))
           \<lparr>msg_Sequence = sequence r + 1, msg_Content = content\<rparr> (chans r)\<rparr>))"
proof -
  have o: "distinct order" "set order = set (mkeys (clients r))" using assms(2) by (simp_all add: map_order_def)
  have "{i. slow (clients r) (chans r) i} = set (filter (slow (clients r) (chans r)) order)"
    using o(2) by (auto simp: slow_def dest: mget_SomeD)
  then have "card {i. slow (clients r) (chans r) i} = length (filter (slow (clients r) (chans r)) order)"
    using distinct_card [OF distinct_filter [OF o(1)]] by metis
  moreover have "deliver (clients r) m order (chans r) 0 =
      Inr (0 + length (filter (slow (clients r) (chans r)) order), broadcast (clients r) (set order) m (chans r))" for m
    using room_okD(2,3) [OF assms(1)] o by (intro deliver_broadcast) auto
  ultimately show ?thesis by (simp add: Publish_def Let_def o(2))
qed

lemma room_ok_Publish [inv_intros]:
  assumes ok: "room_ok r" and o: "map_order r order" and p: "Publish r content order = Inr (res, r')"
  shows "room_ok r'"
proof -
  from p have r': "clients r' = clients r" "nchans r' = nchans r"
    "chans r' = broadcast (clients r) (set (mkeys (clients r)))
       \<lparr>msg_Sequence = sequence r + 1, msg_Content = content\<rparr> (chans r)"
    unfolding Publish_spec [OF ok o] by (auto split: if_splits)
  show ?thesis
    using room_okD [OF ok] by (intro room_okI) (simp_all add: r' chan_ok_broadcast)
qed

lemma Receive_simps [simp]:
  "clients (snd (Receive r a)) = clients r" "nchans (snd (Receive r a)) = nchans r"
  "sequence (snd (Receive r a)) = sequence r"
  "chans (snd (Receive r a)) = (chans r)(a := snd (try_recv (chans r a)))"
  "fst (Receive r a) = fst (try_recv (chans r a))"
  by (simp_all add: Receive_def case_prod_beta)

lemma closed_recv [simp]: "closed (snd (try_recv ch)) = closed ch"
  by (simp add: try_recv_def split: list.split)

lemma room_ok_Receive [inv_intros]:
  assumes ok: "room_ok r"
  shows "room_ok (snd (Receive r a))"
proof (rule room_okI)
  note D = room_okD [OF ok]
  show "mwf (clients (snd (Receive r a)))" using D(1) by simp
  show "\<exists>i c. mget (clients (snd (Receive r a))) i = Some c \<and> Messages c = b"
    if "b < nchans (snd (Receive r a))" "\<not> closed (chans (snd (Receive r a)) b)" for b
    using that D(5) [of b] by (auto split: if_splits)
qed (use room_okD [OF ok] in \<open>auto\<close>)

section \<open>Runs of a room\<close>

text \<open>The states a room reaches when any number of goroutines call its operations in any order, with two
  histories: the contents accepted by \<open>Publish\<close> so far, and the messages connections have received, each
  with the channel it came from.\<close>

inductive room_reach :: "room \<Rightarrow> string list \<Rightarrow> (nat \<times> message) list \<Rightarrow> bool" where
  reach_new: "room_reach new_room [] []"
| reach_join: "room_reach r ps rs \<Longrightarrow> Join r i = Inr (c, r') \<Longrightarrow> room_reach r' ps rs"
| reach_leave: "room_reach r ps rs \<Longrightarrow> Leave r i = Inr r' \<Longrightarrow> room_reach r' ps rs"
| reach_publish: "room_reach r ps rs \<Longrightarrow> map_order r order \<Longrightarrow> Publish r content order = Inr (res, r') \<Longrightarrow>
     room_reach r' (ps @ [content]) rs"
| reach_receive: "room_reach r ps rs \<Longrightarrow> Receive r a = (Got m, r') \<Longrightarrow> room_reach r' ps (rs @ [(a, m)])"

lemma room_reach_ok: "room_reach r ps rs \<Longrightarrow> room_ok r"
proof (induction rule: room_reach.induct)
  case (reach_receive r ps rs a m r')
  then show ?case using room_ok_Receive [of r a] by simp
qed (auto intro: inv_intros)

definition received :: "nat \<Rightarrow> (nat \<times> message) list \<Rightarrow> message list" where
  "received a rs = map snd (filter (\<lambda>x. fst x = a) rs)"

text \<open>A list of messages agrees with the accepted contents: sequence numbers strictly increase, and the
  message numbered \<open>n\<close> carries the \<open>n\<close>-th accepted content.\<close>

definition numbered :: "string list \<Rightarrow> message \<Rightarrow> bool" where
  "numbered ps m \<longleftrightarrow> 1 \<le> unat (msg_Sequence m) \<and> unat (msg_Sequence m) \<le> length ps \<and>
     msg_Content m = ps ! (unat (msg_Sequence m) - 1)"

definition in_order :: "string list \<Rightarrow> message list \<Rightarrow> bool" where
  "in_order ps ms \<longleftrightarrow> sorted_wrt (<) (map (\<lambda>m. unat (msg_Sequence m)) ms) \<and> (\<forall>m\<in>set ms. numbered ps m)"

lemma in_order_Nil [simp]: "in_order ps []"
  by (simp add: in_order_def)

lemma in_order_butlast: "in_order ps (xs @ ys) \<Longrightarrow> in_order ps xs"
  by (auto simp: in_order_def sorted_wrt_append)

lemma numbered_append: "numbered ps m \<Longrightarrow> numbered (ps @ [c]) m"
  by (auto simp: numbered_def nth_append)

lemma in_order_more: "in_order ps ms \<Longrightarrow> in_order (ps @ [c]) ms"
  by (auto simp: in_order_def numbered_append)

lemma in_order_snoc:
  assumes "in_order ps ms" and "Suc (length ps) < 2 ^ 64"
  shows "in_order (ps @ [c]) (ms @ [\<lparr>msg_Sequence = of_nat (Suc (length ps)), msg_Content = c\<rparr>])"
proof -
  have u: "unat (of_nat (Suc (length ps)) :: uint64) = Suc (length ps)"
    using assms(2) by (simp add: unat_of_nat del: of_nat_Suc)
  have "\<forall>m\<in>set ms. unat (msg_Sequence m) < Suc (length ps)"
    using assms(1) by (auto simp: in_order_def numbered_def)
  with in_order_more [OF assms(1), of c] show ?thesis
    by (auto simp: in_order_def numbered_def sorted_wrt_append u simp del: of_nat_Suc)
qed

lemma room_reach_history:
  assumes "room_reach r ps rs" and "length ps < 2 ^ 64"
  shows "sequence r = of_nat (length ps) \<and> (\<forall>a. in_order ps (received a rs @ buf (chans r a)))"
  using assms
proof (induction rule: room_reach.induct)
  case reach_new
  then show ?case by (simp add: new_room_def received_def make_chan_def)
next
  case (reach_join r ps rs i c r')
  then show ?case using JoinD [OF reach_join.hyps(2)]
    by (auto simp: make_chan_def dest: in_order_butlast)
next
  case (reach_leave r ps rs i r')
  from reach_leave.hyps(2) obtain c :: client where
    "r' = r\<lparr>clients := mdel i (clients r), chans := (chans r)(Messages c := (chans r (Messages c))\<lparr>closed := True\<rparr>)\<rparr>"
    by (rule LeaveD) blast
  then show ?case using reach_leave by simp
next
  case (reach_publish r ps rs order content res r')
  from reach_publish have ih: "sequence r = of_nat (length ps)" "\<And>a. in_order ps (received a rs @ buf (chans r a))"
    by auto
  let ?m = "\<lparr>msg_Sequence = of_nat (Suc (length ps)), msg_Content = content\<rparr>"
  have r': "sequence r' = of_nat (Suc (length ps))"
    "chans r' = broadcast (clients r) (set (mkeys (clients r))) ?m (chans r)"
    using reach_publish.hyps(3) ih(1)
    unfolding Publish_spec [OF room_reach_ok [OF reach_publish.hyps(1)] reach_publish.hyps(2)]
    by (auto split: if_splits simp: add.commute)
  have "in_order (ps @ [content]) (received a rs @ buf (chans r' a))" for a
    using in_order_snoc [OF ih(2) [of a], of content] in_order_more [OF ih(2) [of a], of content] reach_publish.prems
    by (simp add: r'(2) broadcast_def push_def)
  with r'(1) show ?case by simp
next
  case (reach_receive r ps rs a m r')
  have m: "buf (chans r a) = m # buf (chans r' a)" and o: "\<And>b. b \<noteq> a \<Longrightarrow> chans r' b = chans r b"
    "sequence r' = sequence r"
    using reach_receive.hyps(2) by (auto simp: Receive_def try_recv_def split: list.splits if_splits)
  have "in_order ps (received b (rs @ [(a, m)]) @ buf (chans r' b))" for b
  proof -
    have "in_order ps (received b rs @ buf (chans r b))" using reach_receive.IH reach_receive.prems by blast
    then show ?thesis using m o(1) [of b] by (cases "b = a") (simp_all add: received_def)
  qed
  with reach_receive o(2) show ?case by simp
qed

section \<open>The room's contract\<close>

text \<open>(C4) Every client receives messages in the order of their sequence numbers, each number at most once,
  and all clients agree on the content behind a number: the message numbered \<open>n\<close> is the \<open>n\<close>-th content the
  room accepted. Slow clients miss messages but never see them late, twice or altered. The bound is the
  point where the 64-bit counter would wrap.\<close>

theorem room_delivery_order:
  assumes "room_reach r ps rs" and "length ps < 2 ^ 64"
  shows "sorted_wrt (<) (map (\<lambda>m. unat (msg_Sequence m)) (received a rs)) \<and>
    (\<forall>m\<in>set (received a rs). 1 \<le> unat (msg_Sequence m) \<and> unat (msg_Sequence m) \<le> length ps \<and>
       msg_Content m = ps ! (unat (msg_Sequence m) - 1))"
  using room_reach_history [OF assms] in_order_butlast [of ps "received a rs" "buf (chans r a)"]
  by (simp add: in_order_def numbered_def)

lemma room_example_join:
  "Join new_room ''a'' = Inr (\<lparr>client_ID = ''a'', Messages = 0\<rparr>,
     \<lparr>clients = [(''a'', \<lparr>client_ID = ''a'', Messages = 0\<rparr>)], sequence = 0,
       chans = (\<lambda>_. make_chan 0)(0 := make_chan 1), nchans = 1\<rparr>)"
  by (simp add: Join_def Let_def new_room_def trim_space_def trim_right_def decode_eqs is_space_def)

text \<open>Witness of C4: one client joins, one message is published and received.\<close>

theorem room_delivery_order_witness:
  "\<exists>r m. room_reach r [''hi''] [(0, m)] \<and> unat (msg_Sequence m) = 1 \<and> msg_Content m = ''hi''"
proof -
  let ?c = "\<lparr>client_ID = ''a'', Messages = 0\<rparr>"
  let ?r1 = "\<lparr>clients = [(''a'', ?c)], sequence = 0, chans = (\<lambda>_. make_chan 0)(0 := make_chan 1), nchans = 1\<rparr>"
  let ?m = "\<lparr>msg_Sequence = 1, msg_Content = ''hi''\<rparr>"
  let ?r2 = "?r1\<lparr>sequence := 1, chans := (chans ?r1)(0 := push ?m (make_chan 1))\<rparr>"
  have "room_reach ?r1 [] []" by (rule reach_join [OF reach_new room_example_join])
  moreover have "map_order ?r1 [''a'']" by (simp add: map_order_def)
  moreover have "Publish ?r1 ''hi'' [''a''] = Inr (\<lparr>DroppedClients = 0\<rparr>, ?r2)"
    by (simp add: Publish_def trim_space_def trim_right_def decode_eqs is_space_def try_send_def make_chan_def push_def)
  ultimately have "room_reach ?r2 ([] @ [''hi'']) []" by (rule reach_publish)
  moreover have "\<exists>r. Receive ?r2 0 = (Got ?m, r)" by (simp add: Receive_def try_recv_def push_def make_chan_def)
  ultimately obtain r where r: "room_reach r [''hi''] [(0, ?m)]" using reach_receive by fastforce
  from room_delivery_order [OF r, of 0] r show ?thesis
    by (intro exI [of _ r] exI [of _ ?m]) (simp add: received_def)
qed

text \<open>(C20) \<open>Publish\<close> never sends on a closed channel and \<open>Leave\<close> never closes one twice, whatever the
  goroutines that share the room did before.\<close>

theorem room_never_panics:
  assumes "room_reach r ps rs" and "map_order r order"
  shows "Publish r content order \<noteq> Inl PanicSendOnClosed \<and> Leave r i \<noteq> Inl PanicCloseOfClosed"
proof -
  note ok = room_reach_ok [OF assms(1)]
  show ?thesis
    using room_okD(2) [OF ok] unfolding Publish_spec [OF ok assms(2)]
    by (auto simp: Leave_def close_chan_def split: option.splits)
qed

text \<open>Witness of C20: the room with one client.\<close>

theorem room_never_panics_witness:
  "\<exists>r. room_reach r [] [] \<and> clients r \<noteq> [] \<and> Publish r ''hi'' [''a''] \<noteq> Inl PanicSendOnClosed \<and>
     Leave r ''a'' \<noteq> Inl PanicCloseOfClosed"
  using room_never_panics [OF reach_join [OF reach_new room_example_join], of "[''a'']" "''hi''" "''a''"]
    reach_join [OF reach_new room_example_join]
  by (auto simp: map_order_def intro!: exI)

text \<open>(C21) The effect of \<open>Publish\<close> on every branch, for whatever order Go visits the clients in: blank content
  and an empty room are refused; otherwise the counter advances by one (modulo \<open>2\<^sup>6\<^sup>4\<close>), every client with
  room in its channel gets the message, every other channel stays as it is, and the result counts exactly
  the clients that were full.\<close>

theorem Publish_outcome:
  assumes "room_reach r ps rs" and "map_order r order"
  shows "Publish r content order =
    (if blank content then Inl ErrEmptyContent_room
     else if clients r = [] then Inl ErrNoClient
     else Inr (\<lparr>DroppedClients = card {i. slow (clients r) (chans r) i}\<rparr>,
       r\<lparr>sequence := sequence r + 1,
         chans := broadcast (clients r) (set (mkeys (clients r)))
           \<lparr>msg_Sequence = sequence r + 1, msg_Content = content\<rparr> (chans r)\<rparr>))"
  using Publish_spec [OF room_reach_ok [OF assms(1)] assms(2)] .

text \<open>Witness of C21: publishing in the room with one client succeeds and drops nobody.\<close>

theorem Publish_outcome_witness:
  "\<exists>r r'. room_reach r [] [] \<and> Publish r ''hi'' [''a''] = Inr (\<lparr>DroppedClients = 0\<rparr>, r') \<and> sequence r' = 1"
proof -
  let ?r = "\<lparr>clients = [(''a'', \<lparr>client_ID = ''a'', Messages = 0\<rparr>)], sequence = 0,
       chans = (\<lambda>_. make_chan 0)(0 := make_chan 1), nchans = 1\<rparr>"
  have r: "room_reach ?r [] []" by (rule reach_join [OF reach_new room_example_join])
  have e: "{i. slow (clients ?r) (chans ?r) i} = {}" by (auto simp: slow_def has_space_def make_chan_def split: if_splits)
  have m: "map_order ?r [''a'']" and b: "\<not> blank ''hi''"
    by (simp_all add: map_order_def trim_space_def trim_right_def decode_eqs is_space_def)
  from Publish_outcome [OF r m, of "''hi''", unfolded e] b
  have "Publish ?r ''hi'' [''a''] = Inr (\<lparr>DroppedClients = 0\<rparr>, ?r\<lparr>sequence := 1,
      chans := broadcast (clients ?r) (set (mkeys (clients ?r))) \<lparr>msg_Sequence = 1, msg_Content = ''hi''\<rparr> (chans ?r)\<rparr>)"
    by simp
  with r show ?thesis by fastforce
qed

text \<open>(C33) A connection that reads from a client's channel after \<open>Leave\<close> first drains the message still
  buffered, if any, and then sees the channel closed: the writer goroutine ends, and loses nothing that was
  delivered to it.\<close>

theorem Leave_drains_then_closes:
  assumes "room_reach r ps rs" and "mget (clients r) i = Some c" and "Leave r i = Inr r'"
  shows "fst (Receive r' (Messages c)) =
      (case buf (chans r (Messages c)) of [] \<Rightarrow> RecvClosed | m # _ \<Rightarrow> Got m) \<and>
    fst (Receive (snd (Receive r' (Messages c))) (Messages c)) = RecvClosed \<and>
    mget (clients r') i = None"
proof -
  note ok = room_reach_ok [OF assms(1)]
  have "length (buf (chans r (Messages c))) \<le> 1"
    using room_okD(2) [OF ok assms(2)] room_okD(4) [OF ok, of "Messages c"] by (simp add: chan_ok_def)
  moreover have "r' = r\<lparr>clients := mdel i (clients r),
      chans := (chans r)(Messages c := (chans r (Messages c))\<lparr>closed := True\<rparr>)\<rparr>"
    using LeaveD [OF assms(3)] assms(2) by (metis option.inject)
  ultimately show ?thesis
    by (auto simp: try_recv_def split: list.splits)
qed

text \<open>Witness of C33: the only client leaves.\<close>

theorem Leave_drains_then_closes_witness:
  "\<exists>r r'. room_reach r [] [] \<and> Leave r ''a'' = Inr r' \<and> fst (Receive r' 0) = RecvClosed"
proof -
  let ?c = "\<lparr>client_ID = ''a'', Messages = 0\<rparr>"
  let ?r = "\<lparr>clients = [(''a'', ?c)], sequence = 0,
       chans = (\<lambda>_. make_chan 0)(0 := make_chan 1), nchans = 1\<rparr>"
  have r: "room_reach ?r [] []" by (rule reach_join [OF reach_new room_example_join])
  have l: "\<exists>r'. Leave ?r ''a'' = Inr r'" by (simp add: Leave_def close_chan_def make_chan_def)
  then obtain r' where "Leave ?r ''a'' = Inr r'" by blast
  with Leave_drains_then_closes [OF r, of "''a''" ?c r'] r show ?thesis
    by (auto simp: make_chan_def)
qed

text \<open>(C34) The registry: two identifiers that differ only in surrounding white space name the same room, a
  room once created is never replaced or reset by later lookups, and a blank identifier is refused.\<close>

theorem GetOrCreate_contract:
  "(trim_space x = [] \<longrightarrow> GetOrCreate reg x = Inl ErrEmptyRoomID_registry) \<and>
   (trim_space x \<noteq> [] \<longrightarrow> (\<exists>reg'. GetOrCreate reg x = Inr (trim_space x, reg') \<and>
      mget reg' (trim_space x) = Some (case mget reg (trim_space x) of Some r \<Rightarrow> r | None \<Rightarrow> new_room) \<and>
      (\<forall>k r. mget reg k = Some r \<longrightarrow> mget reg' k = Some r) \<and>
      (\<forall>k. k \<noteq> trim_space x \<longrightarrow> mget reg' k = mget reg k) \<and>
      (\<forall>y. trim_space y = trim_space x \<longrightarrow> GetOrCreate reg' y = Inr (trim_space x, reg'))))"
  by (cases "mget reg (trim_space x)") (auto simp: GetOrCreate_def Let_def)

text \<open>Witness of C34: the identifier \<^verbatim>\<open>" a"\<close> and an empty registry.\<close>

theorem GetOrCreate_contract_witness:
  "\<exists>reg'. GetOrCreate NewRegistry '' a'' = Inr (''a'', reg') \<and> GetOrCreate reg' ''a'' = Inr (''a'', reg')"
proof -
  have "trim_space '' a'' = ''a''" "trim_space ''a'' = ''a''"
    by (simp_all add: trim_space_def trim_right_def decode_eqs is_space_def)
  with GetOrCreate_contract [of "'' a''" NewRegistry] show ?thesis by auto
qed

end
