(* ===== verification/Float64.thy ===== *)
theory Float64
  imports Complex_Main "HOL-Library.Log_Nat" "HOL-Library.Signed_Division" Prelude
begin

text \<open>
  The double-precision arithmetic of Go's \<^verbatim>\<open>float64\<close>, as far as the rate limiter uses it. A finite
  \<^verbatim>\<open>float64\<close> is a rational number; an operation computes the exact rational result and rounds it to
  nearest, ties to even, with 53 significant bits and the subnormal spacing \<open>2\<^sup>-\<^sup>1\<^sup>0\<^sup>7\<^sup>4\<close> (\<open>f64\<close>). Overflow
  to infinity and NaN are outside the model: the limiter's values stay far below \<open>2\<^sup>1\<^sup>0\<^sup>2\<^sup>3\<close>.
  The locale \<open>rounding\<close> states what the limiter relies on, and \<open>f64\<close> and exact arithmetic are
  both instances.
\<close>

section \<open>Rounding to nearest even\<close>

definition round_half_even :: "rat \<Rightarrow> int" where
  "round_half_even x =
     (let n = \<lfloor>x\<rfloor>; d = x - of_int n in
      if d < 1 / 2 then n else if 1 / 2 < d then n + 1 else if even n then n else n + 1)"

definition expo :: "rat \<Rightarrow> int" where
  "expo x =
     (case quotient_of x of (n, d) \<Rightarrow>
        let k = int (floorlog 2 (nat n)) - int (floorlog 2 (nat d))
        in if 2 powi k \<le> x then k else k - 1)"

definition ulp_expo :: "rat \<Rightarrow> int" where
  "ulp_expo x = max (expo x - 52) (- 1074)"

definition f64_pos :: "rat \<Rightarrow> rat" where
  "f64_pos x = of_int (round_half_even (x / 2 powi ulp_expo x)) * 2 powi ulp_expo x"

definition f64 :: "rat \<Rightarrow> rat" where
  "f64 x = (if x = 0 then 0 else if x < 0 then - f64_pos (- x) else f64_pos x)"

section \<open>Facts on rounding\<close>

lemma round_half_even_bounds:
  "of_int (round_half_even x) \<le> x + 1 / 2" "x - 1 / 2 \<le> of_int (round_half_even x)"
  by (auto simp: round_half_even_def Let_def; linarith)+

lemma round_half_even_int [simp]: "round_half_even (of_int n) = n"
  by (simp add: round_half_even_def)

lemma round_half_even_mono:
  assumes "x \<le> y"
  shows "round_half_even x \<le> round_half_even y"
proof (cases "\<lfloor>x\<rfloor> = \<lfloor>y\<rfloor>")
  case True
  with assms show ?thesis by (auto simp: round_half_even_def Let_def)
next
  case False
  then have "\<lfloor>x\<rfloor> + 1 \<le> \<lfloor>y\<rfloor>" using floor_mono [OF assms] by linarith
  moreover have "round_half_even x \<le> \<lfloor>x\<rfloor> + 1" "\<lfloor>y\<rfloor> \<le> round_half_even y"
    by (auto simp: round_half_even_def Let_def)
  ultimately show ?thesis by linarith
qed

lemma powi_int_nat: "0 \<le> k \<Longrightarrow> (2::rat) powi k = of_int (2 ^ nat k)"
  by (simp add: power_int_def)

lemma floorlog_bounds:
  assumes "0 < n"
  shows "2 ^ floorlog 2 n \<le> 2 * n" "n < 2 ^ floorlog 2 n"
proof -
  show "n < 2 ^ floorlog 2 n" using assms floorlog_bounds [of n 2] by simp
  have "2 ^ (floorlog 2 n - 1) \<le> n" using assms floorlog_bounds [of n 2] by simp
  moreover have "0 < floorlog 2 n" using assms by (simp add: floorlog_def)
  ultimately show "2 ^ floorlog 2 n \<le> 2 * n" by (cases "floorlog 2 n") simp_all
qed

lemma expo_bounds:
  assumes "0 < x"
  shows "2 powi expo x \<le> x" "x < 2 powi (expo x + 1)"
proof -
  obtain n d where q: "quotient_of x = (n, d)" by fastforce
  have x: "x = of_int n / of_int d" and d: "0 < d"
    using quotient_of_div [OF q] quotient_of_denom_pos [OF q] by simp_all
  then have n: "0 < n" using assms by (simp add: zero_less_divide_iff)
  define a b where "a = floorlog 2 (nat n)" and "b = floorlog 2 (nat d)"
  have "(2::nat) ^ a \<le> 2 * nat n" "nat n < 2 ^ a" "(2::nat) ^ b \<le> 2 * nat d" "nat d < 2 ^ b"
    using floorlog_bounds [of "nat n"] floorlog_bounds [of "nat d"] n d by (simp_all add: a_def b_def)
  then have "of_nat (2 ^ a) \<le> (of_nat (2 * nat n) :: rat)" "of_nat (nat n) < (of_nat (2 ^ a) :: rat)"
    "of_nat (2 ^ b) \<le> (of_nat (2 * nat d) :: rat)" "of_nat (nat d) < (of_nat (2 ^ b) :: rat)"
    by (simp_all only: of_nat_le_iff of_nat_less_iff)
  then have r: "(2::rat) ^ a \<le> 2 * of_int n" "of_int n < (2::rat) ^ a" "(2::rat) ^ b \<le> 2 * of_int d"
    "of_int d < (2::rat) ^ b"
    using n d by simp_all
  have dp: "(0::rat) < of_int d" "(0::rat) < of_int n" using d n by simp_all
  have k: "(2::rat) powi (int a - int b) = 2 ^ a / 2 ^ b" by (simp add: power_int_diff)
  have k1: "(2::rat) powi (int a - int b + 1) = 2 * (2 ^ a / 2 ^ b)" 
    by (simp add: power_int_add k)
  have k2: "(2::rat) powi (int a - int b - 1) = (2 ^ a / 2 ^ b) / 2" 
    by (simp add: power_int_diff)
  have hi: "x < 2 * (2 ^ a / 2 ^ b)"
  proof -
    have "x < 2 ^ a / of_int d" unfolding x using r dp by (intro divide_strict_right_mono)
    also have "\<dots> \<le> 2 ^ a / (2 ^ b / 2)" using r dp by (intro divide_left_mono) simp_all
    finally show ?thesis by (simp add: mult.commute)
  qed
  have lo: "(2 ^ a / 2 ^ b) / 2 \<le> x"
  proof -
    have "(2 ^ a / 2 ^ b) / 2 \<le> (2 ^ a / of_int d) / (2::rat)" using r dp by (intro divide_right_mono divide_left_mono) simp_all
    also have "\<dots> \<le> x" unfolding x using r dp by (simp add: field_simps)
    finally show ?thesis .
  qed
  have e: "expo x = (if 2 powi (int a - int b) \<le> x then int a - int b else int a - int b - 1)"
    by (simp add: expo_def q a_def b_def Let_def)
  show "2 powi expo x \<le> x" "x < 2 powi (expo x + 1)"
    using hi lo by (auto simp: e k k1 k2 not_le)
qed

lemma two_powi_mono: "a \<le> b \<Longrightarrow> (2::rat) powi a \<le> 2 powi b"
  by (intro power_int_increasing) simp_all

lemma two_powi_pos [simp]: "(0::rat) < 2 powi a"
  by (simp add: zero_less_power_int)

lemma expo_mono:
  assumes "0 < x" "x \<le> y"
  shows "expo x \<le> expo y"
proof (rule ccontr)
  assume "\<not> expo x \<le> expo y"
  then have "2 powi (expo y + 1) \<le> (2::rat) powi expo x" by (intro two_powi_mono) simp
  with expo_bounds [of x] expo_bounds [of y] assms show False by linarith
qed

lemma f64_pos_le_grid:
  assumes "0 < x" "x \<le> 2 powi e" "ulp_expo x \<le> e"
  shows "f64_pos x \<le> 2 powi e"
proof -
  let ?q = "ulp_expo x"
  have g: "2 powi e / 2 powi ?q = (of_int (2 ^ nat (e - ?q)) :: rat)"
    using assms(3) by (simp add: power_int_diff [symmetric] powi_int_nat)
  have "x / 2 powi ?q \<le> 2 powi e / 2 powi ?q" using assms by (intro divide_right_mono) simp_all
  then have "round_half_even (x / 2 powi ?q) \<le> round_half_even (of_int (2 ^ nat (e - ?q)))"
    unfolding g by (rule round_half_even_mono)
  then have "(of_int (round_half_even (x / 2 powi ?q)) :: rat) \<le> 2 powi e / 2 powi ?q"
    unfolding g round_half_even_int of_int_le_iff .
  then show ?thesis by (simp add: f64_pos_def pos_le_divide_eq)
qed

lemma f64_pos_ge_grid:
  assumes "2 powi e \<le> x" "ulp_expo x \<le> e"
  shows "2 powi e \<le> f64_pos x"
proof -
  let ?q = "ulp_expo x"
  have g: "2 powi e / 2 powi ?q = (of_int (2 ^ nat (e - ?q)) :: rat)"
    using assms(2) by (simp add: power_int_diff [symmetric] powi_int_nat)
  have "2 powi e / 2 powi ?q \<le> x / 2 powi ?q" using assms by (intro divide_right_mono) simp_all
  then have "round_half_even (of_int (2 ^ nat (e - ?q))) \<le> round_half_even (x / 2 powi ?q)"
    unfolding g by (rule round_half_even_mono)
  then have "2 powi e / 2 powi ?q \<le> (of_int (round_half_even (x / 2 powi ?q)) :: rat)"
    unfolding g round_half_even_int of_int_le_iff .
  then show ?thesis by (simp add: f64_pos_def pos_divide_le_eq)
qed

lemma f64_pos_mono:
  assumes "0 < x" "x \<le> y"
  shows "f64_pos x \<le> f64_pos y"
proof (cases "ulp_expo x = ulp_expo y")
  case True
  have "x / 2 powi ulp_expo y \<le> y / 2 powi ulp_expo y" using assms by (intro divide_right_mono) simp_all
  then have "of_int (round_half_even (x / 2 powi ulp_expo y)) \<le> (of_int (round_half_even (y / 2 powi ulp_expo y)) :: rat)"
    using round_half_even_mono by simp
  with True show ?thesis by (simp add: f64_pos_def mult_right_mono less_imp_le)
next
  case False
  with expo_mono [OF assms] have q: "ulp_expo x \<le> expo y - 53" "ulp_expo y = expo y - 52" "expo x < expo y"
    by (auto simp: ulp_expo_def max_def split: if_splits)
  have "x \<le> 2 powi (expo x + 1)" using expo_bounds(2) [OF assms(1)] by simp
  also have "\<dots> \<le> 2 powi expo y" using q by (intro two_powi_mono) simp
  finally have "f64_pos x \<le> 2 powi expo y" using q assms by (intro f64_pos_le_grid) simp_all
  also have "\<dots> \<le> f64_pos y" using q assms expo_bounds(1) [of y] by (intro f64_pos_ge_grid) simp_all
  finally show ?thesis .
qed

lemma round_half_even_nonneg: "0 \<le> x \<Longrightarrow> 0 \<le> round_half_even x"
  using round_half_even_mono [of 0 x] round_half_even_int [of 0] by simp

lemma f64_pos_nonneg: "0 < x \<Longrightarrow> 0 \<le> f64_pos x"
  by (simp add: f64_pos_def round_half_even_nonneg)

lemma f64_mono: "x \<le> y \<Longrightarrow> f64 x \<le> f64 y"
  using f64_pos_mono [of x y] f64_pos_mono [of "- y" "- x"] f64_pos_nonneg [of y] f64_pos_nonneg [of "- x"]
  by (auto simp: f64_def)

lemma f64_exact:
  assumes "0 \<le> n" "n \<le> 2 ^ 53"
  shows "f64 (of_int n) = of_int n"
proof (cases "n = 0")
  case False
  let ?x = "of_int n :: rat"
  have x: "0 < ?x" "1 \<le> ?x" using assms False by simp_all
  have "?x \<le> 2 powi 53" using assms(2) by (simp add: power_int_def)
  have e0: "0 \<le> expo ?x"
  proof (rule ccontr)
    assume "\<not> 0 \<le> expo ?x"
    then have "2 powi (expo ?x + 1) \<le> (2::rat) powi 0" by (intro two_powi_mono) simp
    with expo_bounds(2) [OF x(1)] x(2) show False by simp
  qed
  have "expo ?x \<le> 53"
  proof (rule ccontr)
    assume "\<not> expo ?x \<le> 53"
    then have "(2::rat) powi 54 \<le> 2 powi expo ?x" by (intro two_powi_mono) simp
    moreover have "(2::rat) powi 53 < 2 powi 54" by (simp add: power_int_def)
    ultimately show False using expo_bounds(1) [OF x(1)] \<open>?x \<le> 2 powi 53\<close> by linarith
  qed
  then consider "expo ?x = 53" | "expo ?x \<le> 52" by linarith
  then have "\<exists>k. ?x / 2 powi ulp_expo ?x = of_int k"
  proof cases
    case 1
    with expo_bounds(1) [OF x(1)] \<open>?x \<le> 2 powi 53\<close> have "?x = 2 powi 53" by simp
    then have "?x / 2 powi ulp_expo ?x = of_int (2 ^ 52)"
      using 1 by (simp add: ulp_expo_def power_int_def)
    then show ?thesis by blast
  next
    case 2
    then have "ulp_expo ?x = - (52 - expo ?x)" using e0 by (simp add: ulp_expo_def)
    then have "?x / 2 powi ulp_expo ?x = ?x * 2 powi (52 - expo ?x)"
      by (simp only: power_int_minus divide_inverse inverse_inverse_eq)
    also have "\<dots> = of_int (n * 2 ^ nat (52 - expo ?x))" using 2 by (simp add: powi_int_nat)
    finally show ?thesis by blast
  qed
  then obtain k where k: "?x / 2 powi ulp_expo ?x = of_int k" by blast
  then have "f64_pos ?x = of_int k * 2 powi ulp_expo ?x" by (simp add: f64_pos_def)
  also have "\<dots> = ?x" by (simp add: k [symmetric])
  finally show ?thesis using x by (simp add: f64_def)
qed (simp add: f64_def)

text \<open>The standard error model: relative error \<open>2\<^sup>-\<^sup>5\<^sup>3\<close>, plus half the subnormal spacing.\<close>

lemma f64_error:
  assumes "0 \<le> x"
  shows "f64 x \<le> (1 + 1 / 2 ^ 53) * x + 1 / 2 ^ 1075"
proof (cases "x = 0")
  case False
  with assms have x: "0 < x" by simp
  let ?q = "ulp_expo x"
  have "f64_pos x \<le> (x / 2 powi ?q + 1 / 2) * 2 powi ?q"
    unfolding f64_pos_def using round_half_even_bounds(1) by (intro mult_right_mono) simp_all
  also have "\<dots> = x + 2 powi (?q - 1)" by (simp add: distrib_right power_int_diff)
  also have "2 powi (?q - 1) \<le> x / 2 ^ 53 + 1 / 2 ^ 1075"
  proof (cases "expo x - 52 \<le> - 1074")
    case True
    then have "(2::rat) powi (?q - 1) = 1 / 2 ^ 1075"
      by (simp add: ulp_expo_def power_int_def field_simps)
    then show ?thesis using x by simp
  next
    case False
    then have "(2::rat) powi (?q - 1) = 2 powi expo x / 2 powi 53"
      by (simp add: ulp_expo_def power_int_diff)
    also have "\<dots> \<le> x / 2 powi 53" using expo_bounds(1) [OF x] by (intro divide_right_mono) simp_all
    finally show ?thesis by (simp add: power_int_def)
  qed
  finally show ?thesis using x by (simp add: f64_def distrib_right)
qed (simp add: f64_def)

section \<open>What the limiter relies on\<close>

text \<open>The interface of a rounding mode: it is monotone and exact on the integers a \<^verbatim>\<open>float64\<close> represents;
  \<open>rounding_err\<close> adds a bound on the upward error.\<close>

locale rounding =
  fixes rnd :: "rat \<Rightarrow> rat"
  assumes rnd_mono: "x \<le> y \<Longrightarrow> rnd x \<le> rnd y"
    and rnd_exact: "0 \<le> n \<Longrightarrow> n \<le> 2 ^ 53 \<Longrightarrow> rnd (of_int n) = of_int n"
begin

lemma rnd_0: "rnd 0 = 0"
  using rnd_exact [of 0] by simp

lemma rnd_nonneg: "0 \<le> x \<Longrightarrow> 0 \<le> rnd x"
  using rnd_mono [of 0 x] by (simp add: rnd_0)

lemma rnd_le_int: "x \<le> of_int n \<Longrightarrow> 0 \<le> n \<Longrightarrow> n \<le> 2 ^ 53 \<Longrightarrow> rnd x \<le> of_int n"
  using rnd_mono [of x "of_int n"] rnd_exact [of n] by simp

end

locale rounding_err = rounding +
  fixes u eta :: rat
  assumes u_nonneg: "0 \<le> u" and eta_nonneg: "0 \<le> eta"
    and rnd_err: "0 \<le> x \<Longrightarrow> rnd x \<le> (1 + u) * x + eta"

interpretation f64: rounding_err f64 "1 / 2 ^ 53" "1 / 2 ^ 1075"
  by unfold_locales (simp_all only: f64_mono f64_exact f64_error, simp_all)

interpretation exact: rounding_err "\<lambda>x. x" 0 0
  by unfold_locales simp_all

end
