(* ===== verification/RateLimit.thy ===== *)
theory RateLimit
  imports Float64
begin

text \<open>
  \<^verbatim>\<open>src/internal/ratelimit/limiter.go\<close>: one token bucket per key. The operations take the rounding of
  \<^verbatim>\<open>float64\<close> results as the argument \<open>rnd\<close> (the program runs with \<open>f64\<close>, every operation rounded on
  its own) and the reading of the limiter's clock as the argument \<open>now\<close>. The lemmas that depend on
  rounding are proved once, in the locales of \<open>Float64\<close>.
\<close>

section \<open>Durations\<close>

text \<open>\<^verbatim>\<open>Duration.Seconds\<close> adds the whole seconds and the
  rest divided by 1e9 in floating point, with integer division truncating towards zero.\<close>

definition dur_seconds :: "(rat \<Rightarrow> rat) \<Rightarrow> duration \<Rightarrow> rat" where
  "dur_seconds rnd d =
     rnd (rnd (of_int (d sdiv 1000000000)) + rnd (rnd (of_int (d smod 1000000000)) / 1000000000))"

section \<open>The limiter\<close>

datatype limiter_error = ErrInvalidRate | ErrInvalidBurst

record bucket =
  tokens :: rat
  last_seen :: instant

record limiter =
  buckets :: "(string, bucket) gomap"
  tokensPerSecond :: rat
  burst :: rat

definition NewLimiter :: "(rat \<Rightarrow> rat) \<Rightarrow> rat \<Rightarrow> int \<Rightarrow> limiter_error + limiter" where
  "NewLimiter rnd rate b =
     (if rate \<le> 0 then Inl ErrInvalidRate
      else if b \<le> 0 then Inl ErrInvalidBurst
      else Inr \<lparr>buckets = [], tokensPerSecond = rate, burst = rnd (of_int b)\<rparr>)"

definition min_f64 :: "rat \<Rightarrow> rat \<Rightarrow> rat" where
  "min_f64 a b = (if a < b then a else b)"

definition Allow :: "(rat \<Rightarrow> rat) \<Rightarrow> limiter \<Rightarrow> string \<Rightarrow> instant \<Rightarrow> bool \<times> limiter" where
  "Allow rnd l key now =
     (if key = [] then (False, l)
      else case mget (buckets l) key of
        None \<Rightarrow>
          (True, l\<lparr>buckets := mput key \<lparr>tokens = rnd (burst l - 1), last_seen = now\<rparr> (buckets l)\<rparr>)
      | Some current \<Rightarrow>
          (let t = min_f64 (burst l)
                 (rnd (tokens current +
                    rnd (dur_seconds rnd (time_sub now (last_seen current)) * tokensPerSecond l)))
           in if t < 1
              then (False, l\<lparr>buckets := mput key \<lparr>tokens = t, last_seen = now\<rparr> (buckets l)\<rparr>)
              else (True, l\<lparr>buckets := mput key \<lparr>tokens = rnd (t - 1), last_seen = now\<rparr> (buckets l)\<rparr>)))"

text \<open>A sequence of calls, each with its key and clock reading, in the order the mutex admits them.\<close>

fun allow_run :: "(rat \<Rightarrow> rat) \<Rightarrow> limiter \<Rightarrow> (string \<times> instant) list \<Rightarrow> bool list \<times> limiter" where
  "allow_run rnd l [] = ([], l)"
| "allow_run rnd l ((key, now) # calls) =
     (case Allow rnd l key now of (r, l') \<Rightarrow>
      case allow_run rnd l' calls of (rs, l'') \<Rightarrow> (r # rs, l''))"

definition allowed_for :: "string \<Rightarrow> (string \<times> instant) list \<Rightarrow> bool list \<Rightarrow> nat" where
  "allowed_for key calls rs = length (filter (\<lambda>x. fst (fst x) = key \<and> snd x) (zip calls rs))"

declare allow_run.simps(2) [simp del]

lemma allow_run_Cons [simp]:
  "fst (allow_run rnd l ((key, now) # calls)) =
     fst (Allow rnd l key now) # fst (allow_run rnd (snd (Allow rnd l key now)) calls)"
  "snd (allow_run rnd l ((key, now) # calls)) = snd (allow_run rnd (snd (Allow rnd l key now)) calls)"
  by (simp_all add: allow_run.simps(2) case_prod_beta)

section \<open>Invariant\<close>

definition bucket_ok :: "rat \<Rightarrow> instant \<Rightarrow> bucket \<Rightarrow> bool" where
  "bucket_ok B now b \<longleftrightarrow> 0 \<le> tokens b \<and> tokens b \<le> B \<and> last_seen b \<le> now"

definition whole_burst :: "rat \<Rightarrow> bool" where
  "whole_burst B \<longleftrightarrow> (\<exists>n. 1 \<le> n \<and> n \<le> 2 ^ 53 \<and> B = of_int n)"

definition limiter_ok :: "instant \<Rightarrow> limiter \<Rightarrow> bool" where
  "limiter_ok now l \<longleftrightarrow>
     whole_burst (burst l) \<and> 0 < tokensPerSecond l \<and>
     (\<forall>k b. mget (buckets l) k = Some b \<longrightarrow> bucket_ok (burst l) now b)"

lemma Allow_frame [simp]:
  "tokensPerSecond (snd (Allow rnd l key now)) = tokensPerSecond l"
  "burst (snd (Allow rnd l key now)) = burst l"
  by (simp_all add: Allow_def Let_def split: option.split)

lemma Allow_other: "k \<noteq> key \<Longrightarrow> mget (buckets (snd (Allow rnd l key now))) k = mget (buckets l) k"
  by (simp add: Allow_def Let_def split: option.split)

lemma limiter_ok_later: "limiter_ok t l \<Longrightarrow> t \<le> t' \<Longrightarrow> limiter_ok t' l"
  by (fastforce simp: limiter_ok_def bucket_ok_def)

lemma min_f64_le: "min_f64 a b \<le> a" "min_f64 a b \<le> b"
  by (simp_all add: min_f64_def)

lemma sdiv_smod_nonneg:
  "0 \<le> d \<Longrightarrow> d sdiv (1000000000::int) = d div 1000000000 \<and> d smod (1000000000::int) = d mod 1000000000"
  by (simp add: signed_divide_int_def signed_modulo_int_def sgn_if minus_div_mult_eq_mod [symmetric])

context rounding
begin

lemma dur_seconds_nonneg: "0 \<le> d \<Longrightarrow> 0 \<le> dur_seconds rnd d"
  unfolding dur_seconds_def
  by (intro rnd_nonneg add_nonneg_nonneg divide_nonneg_nonneg)
    (auto simp: sdiv_smod_nonneg pos_imp_zdiv_nonneg_iff)

lemma refill_nonneg:
  assumes "0 \<le> t" "0 \<le> d" "0 \<le> rate"
  shows "0 \<le> rnd (t + rnd (dur_seconds rnd d * rate))"
  using assms dur_seconds_nonneg by (intro rnd_nonneg add_nonneg_nonneg mult_nonneg_nonneg) auto

lemma Allow_limiter_ok:
  assumes "limiter_ok now l"
  shows "limiter_ok now (snd (Allow rnd l key now))"
proof -
  have w: "whole_burst (burst l)" and rate: "0 < tokensPerSecond l"
    and bk: "\<And>k b. mget (buckets l) k = Some b \<Longrightarrow> bucket_ok (burst l) now b"
    using assms by (auto simp: limiter_ok_def)
  obtain n where n: "1 \<le> n" "n \<le> 2 ^ 53" "burst l = of_int n"
    using w unfolding whole_burst_def by blast
  have B: "1 \<le> burst l" using n by simp
  have sub: "0 \<le> rnd (t - 1) \<and> rnd (t - 1) \<le> burst l" if "1 \<le> t" "t \<le> burst l" for t
  proof -
    have "t - 1 \<le> of_int n" using that n(3) by linarith
    then have "rnd (t - 1) \<le> of_int n" using n by (intro rnd_le_int) auto
    then show ?thesis using that rnd_nonneg [of "t - 1"] n(3) by simp
  qed
  have "bucket_ok (burst l) now b" if "mget (buckets (snd (Allow rnd l key now))) key = Some b" for b
  proof (cases "mget (buckets l) key")
    case None
    then show ?thesis using that sub [of "burst l"] B
      by (auto simp: Allow_def bucket_ok_def split: if_splits)
  next
    case (Some c)
    note c = bk [OF Some, unfolded bucket_ok_def]
    let ?t = "min_f64 (burst l) (rnd (tokens c + rnd (dur_seconds rnd (time_sub now (last_seen c)) * tokensPerSecond l)))"
    have "0 \<le> ?t" using c rate B refill_nonneg [of "tokens c" "time_sub now (last_seen c)" "tokensPerSecond l"]
        time_sub_bounds [of "last_seen c" now] by (simp add: min_f64_def)
    moreover have "?t \<le> burst l" by (rule min_f64_le)
    ultimately show ?thesis using that Some bk [OF Some] sub [of ?t]
      by (auto simp: Allow_def bucket_ok_def Let_def split: if_splits)
  qed
  then show ?thesis
    using w rate bk Allow_other [of _ key rnd l now] unfolding limiter_ok_def
    by (metis Allow_frame)
qed

lemma allow_run_ok:
  assumes "limiter_ok t0 l" and "sorted (t0 # map snd calls)"
  shows "limiter_ok (List.last (t0 # map snd calls)) (snd (allow_run rnd l calls))"
  using assms
proof (induction calls arbitrary: l t0)
  case (Cons c calls)
  obtain key now where c: "c = (key, now)" by fastforce
  have "limiter_ok now (snd (Allow rnd l key now))"
    using Cons.prems c by (intro Allow_limiter_ok) (auto elim: limiter_ok_later)
  from Cons.IH [OF this] Cons.prems show ?case
    by (cases "calls = []") (auto simp: c last_map)
qed simp

lemma NewLimiter_ok:
  assumes "NewLimiter rnd rate b = Inr l" and "b \<le> 2 ^ 53"
  shows "limiter_ok t l"
proof -
  have b: "1 \<le> b" "l = \<lparr>buckets = [], tokensPerSecond = rate, burst = rnd (of_int b)\<rparr>" "0 < rate"
    using assms(1) by (auto simp: NewLimiter_def split: if_splits)
  have "whole_burst (rnd (of_int b))"
    unfolding whole_burst_def using b(1) assms(2) rnd_exact [of b] by (intro exI [of _ b]) simp
  with b show ?thesis by (simp add: limiter_ok_def)
qed

end

section \<open>Keys do not interfere\<close>

definition same_for :: "string \<Rightarrow> limiter \<Rightarrow> limiter \<Rightarrow> bool" where
  "same_for k l l' \<longleftrightarrow> mget (buckets l) k = mget (buckets l') k \<and>
     tokensPerSecond l = tokensPerSecond l' \<and> burst l = burst l'"

lemma same_for_Allow:
  assumes "same_for k l l'"
  shows "fst (Allow rnd l k now) = fst (Allow rnd l' k now)"
    and "same_for k (snd (Allow rnd l k now)) (snd (Allow rnd l' k now))"
  using assms by (auto simp: same_for_def Allow_def Let_def split: option.split)

lemma same_for_Allow_other: "same_for k l l' \<Longrightarrow> key \<noteq> k \<Longrightarrow> same_for k (snd (Allow rnd l key now)) l'"
  by (simp add: same_for_def Allow_other)

lemma allow_run_project:
  assumes "same_for k l l'"
  shows "map snd (filter (\<lambda>x. fst (fst x) = k) (zip calls (fst (allow_run rnd l calls))))
    = fst (allow_run rnd l' (filter (\<lambda>c. fst c = k) calls))"
  using assms
proof (induction calls arbitrary: l l')
  case (Cons c calls)
  obtain key now where c: "c = (key, now)" by fastforce
  show ?case
  proof (cases "key = k")
    case True
    from Cons.IH [OF same_for_Allow(2) [OF Cons.prems, of rnd now]] same_for_Allow(1) [OF Cons.prems, of rnd now]
    show ?thesis by (simp add: c True)
  next
    case False
    from Cons.IH [OF same_for_Allow_other [OF Cons.prems False, of rnd now]] False
    show ?thesis by (simp add: c)
  qed
qed simp

section \<open>A burst at one instant\<close>

context rounding
begin

lemma dur_seconds_0: "dur_seconds rnd 0 = 0"
  by (simp add: dur_seconds_def rnd_0)

lemma Allow_same_instant:
  assumes "key \<noteq> []" and "mget (buckets l) key = Some \<lparr>tokens = of_int m, last_seen = now\<rparr>"
    and "0 \<le> m" "of_int m \<le> burst l" "m \<le> 2 ^ 53"
  shows "fst (Allow rnd l key now) \<longleftrightarrow> 1 \<le> m"
    and "mget (buckets (snd (Allow rnd l key now))) key
      = Some \<lparr>tokens = of_int (if 1 \<le> m then m - 1 else 0), last_seen = now\<rparr>"
proof -
  have z: "time_sub now now = 0" by (simp add: time_sub_def)
  have t: "min_f64 (burst l) (rnd (of_int m + rnd (dur_seconds rnd (time_sub now now) * tokensPerSecond l)))
      = of_int m"
    using assms rnd_exact [of m] by (simp add: z dur_seconds_0 rnd_0 min_f64_def)
  have r: "rnd (of_int m - 1) = of_int (m - 1)" if "1 \<le> m"
    using rnd_exact [of "m - 1"] that assms(5) by simp
  show "fst (Allow rnd l key now) \<longleftrightarrow> 1 \<le> m"
    using assms(1,2) by (simp add: Allow_def t Let_def)
  show "mget (buckets (snd (Allow rnd l key now))) key
      = Some \<lparr>tokens = of_int (if 1 \<le> m then m - 1 else 0), last_seen = now\<rparr>"
    using assms(1,2,3) r by (auto simp: Allow_def t Let_def)
qed

lemma allow_run_same_instant:
  assumes "key \<noteq> []" and "mget (buckets l) key = Some \<lparr>tokens = of_int (int m), last_seen = now\<rparr>"
    and "of_int (int m) \<le> burst l" "int m \<le> 2 ^ 53"
  shows "fst (allow_run rnd l (replicate n (key, now))) = replicate (min m n) True @ replicate (n - m) False"
  using assms
proof (induction n arbitrary: m l)
  case (Suc n)
  note st = Allow_same_instant [OF Suc.prems(1,2) _ Suc.prems(3,4)]
  have b: "burst (snd (Allow rnd l key now)) = burst l" by simp
  show ?case
  proof (cases m)
    case 0
    have "fst (allow_run rnd (snd (Allow rnd l key now)) (replicate n (key, now))) = replicate n False"
      using Suc.IH [of "snd (Allow rnd l key now)" 0] st Suc.prems 0 b by simp
    then show ?thesis using st(1) 0 by simp
  next
    case (Suc m')
    have "fst (allow_run rnd (snd (Allow rnd l key now)) (replicate n (key, now)))
        = replicate (min m' n) True @ replicate (n - m') False"
      using Suc.IH [of "snd (Allow rnd l key now)" m'] st Suc.prems Suc b by simp
    then show ?thesis using st(1) Suc by simp
  qed
qed simp

lemma fresh_burst:
  assumes "NewLimiter rnd rate (int b) = Inr l" and "int b \<le> 2 ^ 53" and "key \<noteq> []"
  shows "fst (allow_run rnd l (replicate n (key, now))) = replicate (min b n) True @ replicate (n - b) False"
proof (cases n)
  case (Suc n')
  have b: "1 \<le> b" "l = \<lparr>buckets = [], tokensPerSecond = rate, burst = of_int (int b)\<rparr>"
    using assms rnd_exact [of "int b"] by (auto simp: NewLimiter_def split: if_splits)
  have "rnd (of_int (int b) - 1) = of_int (int (b - 1))"
    using rnd_exact [of "int (b - 1)"] b(1) assms(2) by (simp add: of_nat_diff)
  then have a: "Allow rnd l key now = (True, l\<lparr>buckets := mput key \<lparr>tokens = of_int (int (b - 1)), last_seen = now\<rparr> (buckets l)\<rparr>)"
    using assms(3) b by (simp add: Allow_def)
  have bl: "burst l = of_int (int b)" using b(2) by simp
  let ?l = "snd (Allow rnd l key now)"
  have "fst (allow_run rnd ?l (replicate n' (key, now)))
      = replicate (min (b - 1) n') True @ replicate (n' - (b - 1)) False"
    using assms(2,3) b(1) bl by (intro allow_run_same_instant) (auto simp: a)
  then show ?thesis using b(1) Suc a by (cases b) auto
qed simp

end

section \<open>The rate\<close>

text \<open>With relative error \<open>u\<close> and absolute error \<open>eta\<close> per operation, one call adds at most the factor
  \<open>rate_drift\<close> to the refill and \<open>rate_slack\<close> to the bucket; both vanish in exact arithmetic.\<close>

definition rate_drift :: "rat \<Rightarrow> rat" where
  "rate_drift u = (1 + u) ^ 4"

definition rate_slack :: "rat \<Rightarrow> rat \<Rightarrow> limiter \<Rightarrow> rat" where
  "rate_slack u eta l =
     2 * u * burst l + (1 + u) ^ 2 * (2 + u) * tokensPerSecond l * eta + (3 + u) * eta"

definition seconds_between :: "instant \<Rightarrow> instant \<Rightarrow> rat" where
  "seconds_between s t = of_int (t - s) / 1000000000"

lemma rate_slack_Allow [simp]: "rate_slack u eta (snd (Allow rnd l key now)) = rate_slack u eta l"
  by (simp add: rate_slack_def)

context rounding_err
begin

lemma dur_seconds_le:
  assumes "0 \<le> d" "d < 2 ^ 63"
  shows "dur_seconds rnd d \<le> (1 + u) ^ 2 * (of_int d / 1000000000) + (2 + u) * eta"
proof -
  define s ns where "s = d div 1000000000" and "ns = d mod 1000000000"
  have d: "of_int d / 1000000000 = of_int s + (of_int ns / 1000000000 :: rat)"
  proof -
    have "d = s * 1000000000 + ns" by (simp add: s_def ns_def)
    then have "(of_int d :: rat) = of_int s * 1000000000 + of_int ns"
      by (metis of_int_add of_int_mult of_int_numeral)
    then show ?thesis by simp
  qed
  have s: "0 \<le> s" "s \<le> 2 ^ 53" using assms by (simp_all add: s_def pos_imp_zdiv_nonneg_iff)
  have ns: "0 \<le> ns" "ns \<le> 2 ^ 53" using pos_mod_bound [of 1000000000 d] by (simp_all add: ns_def)
  let ?f = "of_int ns / 1000000000 :: rat"
  have f: "rnd ?f \<le> (1 + u) * ?f + eta" using ns by (intro rnd_err) simp
  have f0: "0 \<le> rnd ?f" using ns by (intro rnd_nonneg) simp
  have "dur_seconds rnd d = rnd (of_int s + rnd ?f)"
    using rnd_exact [OF s] rnd_exact [OF ns]
    by (simp only: dur_seconds_def sdiv_smod_nonneg [OF assms(1)] s_def [symmetric] ns_def [symmetric])
  also have "\<dots> \<le> (1 + u) * (of_int s + rnd ?f) + eta" using s f0 by (intro rnd_err) simp
  also have "\<dots> \<le> (1 + u) * (of_int s + ((1 + u) * ?f + eta)) + eta"
    using f u_nonneg by (intro add_right_mono mult_left_mono add_left_mono) simp_all
  also have "\<dots> \<le> (1 + u) * ((1 + u) * of_int s + ((1 + u) * ?f + eta)) + eta"
  proof -
    have "(of_int s :: rat) \<le> (1 + u) * of_int s" using s u_nonneg by (simp add: distrib_right)
    then show ?thesis using u_nonneg by (intro add_right_mono mult_left_mono) simp_all
  qed
  also have "\<dots> = (1 + u) ^ 2 * (of_int s + ?f) + (2 + u) * eta"
    by (simp add: power2_eq_square algebra_simps)
  finally show ?thesis by (simp add: d)
qed

lemma refill_le:
  assumes "0 \<le> t" "t \<le> B" "0 \<le> d" "d < 2 ^ 63" "0 < rate"
  shows "rnd (t + rnd (dur_seconds rnd d * rate)) \<le>
    t + rate_drift u * rate * (of_int d / 1000000000)
      + (u * B + (1 + u) ^ 2 * (2 + u) * rate * eta + (2 + u) * eta)"
proof -
  let ?S = "dur_seconds rnd d" and ?D = "of_int d / 1000000000 :: rat"
  let ?inc = "rnd (?S * rate)"
  have S: "0 \<le> ?S" using assms by (intro dur_seconds_nonneg) simp
  have "?inc \<le> (1 + u) * (?S * rate) + eta" using S assms by (intro rnd_err) simp
  also have "?S * rate \<le> ((1 + u) ^ 2 * ?D + (2 + u) * eta) * rate"
    using dur_seconds_le [OF assms(3,4)] assms by (intro mult_right_mono) simp_all
  finally have inc: "?inc \<le> (1 + u) * (((1 + u) ^ 2 * ?D + (2 + u) * eta) * rate) + eta"
    using u_nonneg by (simp add: mult_left_mono)
  have "0 \<le> ?inc" using S assms by (intro rnd_nonneg) simp
  then have "rnd (t + ?inc) \<le> (1 + u) * (t + ?inc) + eta" using assms by (intro rnd_err) simp
  also have "\<dots> = t + u * t + (1 + u) * ?inc + eta" by (simp add: algebra_simps)
  also have "\<dots> \<le> t + u * B + (1 + u) * ((1 + u) * (((1 + u) ^ 2 * ?D + (2 + u) * eta) * rate) + eta) + eta"
    using assms u_nonneg inc by (intro add_mono mult_left_mono) simp_all
  also have "\<dots> = t + rate_drift u * rate * ?D + (u * B + (1 + u) ^ 2 * (2 + u) * rate * eta + (2 + u) * eta)"
    by (simp add: rate_drift_def power2_eq_square power4_eq_xxxx algebra_simps)
  finally show ?thesis .
qed

text \<open>One call: what it grants plus what it leaves is bounded by what was there, what time refilled, and
  the slack; and by the burst and the slack, whatever the bucket held.\<close>

lemma Allow_step:
  assumes ok: "limiter_ok now l" and k: "key \<noteq> []"
  obtains b' where "mget (buckets (snd (Allow rnd l key now))) key = Some b'" "last_seen b' = now"
    "of_bool (fst (Allow rnd l key now)) + tokens b' \<le> burst l + rate_slack u eta l"
    "\<And>b. mget (buckets l) key = Some b \<Longrightarrow> of_bool (fst (Allow rnd l key now)) + tokens b' \<le>
       tokens b + rate_drift u * tokensPerSecond l * seconds_between (last_seen b) now + rate_slack u eta l"
proof -
  let ?B = "burst l" and ?R = "tokensPerSecond l"
  obtain n where "1 \<le> n" "?B = of_int n"
    using ok unfolding limiter_ok_def whole_burst_def by blast
  then have B: "1 \<le> ?B" by simp
  have R: "0 < ?R" using ok by (simp add: limiter_ok_def)
  have sl: "0 \<le> (1 + u) ^ 2 * (2 + u) * ?R * eta" "0 \<le> (2 + u) * eta" "0 \<le> u * ?B"
    using u_nonneg eta_nonneg R B by simp_all
  have slack: "rate_slack u eta l = (u * ?B + (1 + u) ^ 2 * (2 + u) * ?R * eta + (2 + u) * eta) + (u * ?B + eta)"
    by (simp add: rate_slack_def algebra_simps)
  have sub: "1 + rnd (t - 1) \<le> t + (u * ?B + eta)" if "1 \<le> t" "t \<le> ?B" for t
  proof -
    have "rnd (t - 1) \<le> (1 + u) * (t - 1) + eta" using that by (intro rnd_err) simp
    also have "\<dots> = t - 1 + u * (t - 1) + eta" by (simp add: algebra_simps)
    also have "u * (t - 1) \<le> u * ?B" using that u_nonneg by (intro mult_left_mono) simp_all
    finally show ?thesis by simp
  qed
  show thesis
  proof (cases "mget (buckets l) key")
    case None
    show thesis
      by (rule that [of "\<lparr>tokens = rnd (?B - 1), last_seen = now\<rparr>"])
        (use None k sub [OF B order_refl] sl slack in \<open>auto simp: Allow_def\<close>)
  next
    case (Some b)
    define t where "t = min_f64 ?B (rnd (tokens b + rnd (dur_seconds rnd (time_sub now (last_seen b)) * ?R)))"
    define e where "e = u * ?B + (1 + u) ^ 2 * (2 + u) * ?R * eta + (2 + u) * eta"
    have b: "0 \<le> tokens b" "tokens b \<le> ?B" "last_seen b \<le> now"
      using ok Some by (auto simp: limiter_ok_def bucket_ok_def)
    note ts = time_sub_bounds [OF b(3)]
    have "t \<le> rnd (tokens b + rnd (dur_seconds rnd (time_sub now (last_seen b)) * ?R))"
      by (simp add: t_def min_f64_le)
    also have "\<dots> \<le> tokens b + rate_drift u * ?R * (of_int (time_sub now (last_seen b)) / 1000000000) + e"
      unfolding e_def using ts b R by (intro refill_le) simp_all
    also have "rate_drift u * ?R * (of_int (time_sub now (last_seen b)) / 1000000000)
        \<le> rate_drift u * ?R * seconds_between (last_seen b) now"
      unfolding seconds_between_def using ts R u_nonneg
      by (intro mult_left_mono divide_right_mono) (simp_all add: rate_drift_def)
    finally have t: "t \<le> tokens b + rate_drift u * ?R * seconds_between (last_seen b) now + e" by simp
    have tB: "t \<le> ?B" by (simp add: t_def min_f64_le)
    have A: "fst (Allow rnd l key now) = (1 \<le> t)"
      "mget (buckets (snd (Allow rnd l key now))) key = Some \<lparr>tokens = (if 1 \<le> t then rnd (t - 1) else t), last_seen = now\<rparr>"
      using Some k by (auto simp: Allow_def Let_def t_def)
    have g: "of_bool (fst (Allow rnd l key now)) + (if 1 \<le> t then rnd (t - 1) else t) \<le> t + (u * ?B + eta)"
      using sub [of t] tB A(1) sl(3) eta_nonneg by auto
    have se: "rate_slack u eta l = e + (u * ?B + eta)" "0 \<le> e" using slack sl by (simp_all add: e_def)
    show thesis
      by (rule that [OF A(2)]) (use g t tB se Some in auto)
  qed
qed

lemma allowed_Cons:
  "allowed_for k ((key, now) # calls) (r # rs) = of_bool (key = k \<and> r) + allowed_for k calls rs"
  by (simp add: allowed_for_def)

lemma slack_nonneg: "limiter_ok t l \<Longrightarrow> 0 \<le> rate_slack u eta l"
proof -
  assume ok: "limiter_ok t l"
  then obtain n where "1 \<le> n" "burst l = of_int n" unfolding limiter_ok_def whole_burst_def by blast
  with ok show ?thesis using u_nonneg eta_nonneg by (simp add: rate_slack_def limiter_ok_def)
qed

lemma drift_mono: "limiter_ok t l \<Longrightarrow> s' \<le> s \<Longrightarrow>
    rate_drift u * tokensPerSecond l * seconds_between s e \<le> rate_drift u * tokensPerSecond l * seconds_between s' e"
  using u_nonneg
  by (intro mult_left_mono) (simp_all add: seconds_between_def limiter_ok_def rate_drift_def divide_right_mono)

lemma rate_from_bucket:
  assumes "limiter_ok t0 l" "sorted (t0 # map snd calls)" "k \<noteq> []"
    and "mget (buckets l) k = Some b"
  shows "of_nat (allowed_for k calls (fst (allow_run rnd l calls))) \<le>
    tokens b + rate_drift u * tokensPerSecond l * seconds_between (last_seen b) (List.last (t0 # map snd calls))
      + of_nat (length calls) * rate_slack u eta l"
  using assms
proof (induction calls arbitrary: l t0 b)
  case Nil
  then have "0 \<le> tokens b" "last_seen b \<le> t0" by (auto simp: limiter_ok_def bucket_ok_def)
  moreover have "0 \<le> rate_drift u * tokensPerSecond l * seconds_between t0 t0" by (simp add: seconds_between_def)
  ultimately show ?case using drift_mono [OF Nil.prems(1), of "last_seen b" t0 t0] by (simp add: allowed_for_def)
next
  case (Cons c calls)
  obtain key now where c: "c = (key, now)" by fastforce
  let ?l = "snd (Allow rnd l key now)" and ?R = "tokensPerSecond l"
  have ok: "limiter_ok now l" using Cons.prems c by (auto elim: limiter_ok_later)
  then have ok': "limiter_ok now ?l" by (rule Allow_limiter_ok)
  have srt: "sorted (now # map snd calls)" using Cons.prems(2) c by simp
  define e where "e = List.last (now # map snd calls)"
  have e: "List.last (t0 # map snd (c # calls)) = e" by (simp add: e_def c)
  have len: "of_nat (length (c # calls)) * rate_slack u eta l
      = rate_slack u eta l + of_nat (length calls) * rate_slack u eta l"
    by (simp add: algebra_simps)
  show ?case
  proof (cases "key = k")
    case False
    have "mget (buckets ?l) k = Some b" using False Cons.prems(4) by (simp add: Allow_other)
    from Cons.IH [OF ok' srt Cons.prems(3) this, folded e_def] show ?thesis
      using slack_nonneg [OF ok] False unfolding e len by (simp add: c allowed_Cons)
  next
    case True
    from Allow_step [OF ok, of k] Cons.prems(3,4) obtain b' where
      b': "mget (buckets (snd (Allow rnd l k now))) k = Some b'" "last_seen b' = now"
        "of_bool (fst (Allow rnd l k now)) + tokens b' \<le>
          tokens b + rate_drift u * ?R * seconds_between (last_seen b) now + rate_slack u eta l"
      by metis
    have "seconds_between (last_seen b) e = seconds_between (last_seen b) now + seconds_between now e"
      by (simp add: seconds_between_def diff_divide_distrib)
    then have sb: "rate_drift u * ?R * seconds_between (last_seen b) e
        = rate_drift u * ?R * seconds_between (last_seen b) now + rate_drift u * ?R * seconds_between now e"
      by (simp add: distrib_left)
    have "mget (buckets ?l) k = Some b'" using b'(1) True by simp
    from Cons.IH [OF ok' srt Cons.prems(3) this, folded e_def] b'(2,3) True show ?thesis
      unfolding e len sb by (simp add: c allowed_Cons)
  qed
qed

lemma rate_window:
  assumes "limiter_ok t0 l" "sorted (t0 # map snd calls)" "k \<noteq> []" "calls \<noteq> []"
  shows "of_nat (allowed_for k calls (fst (allow_run rnd l calls))) \<le>
    burst l + rate_drift u * tokensPerSecond l * seconds_between (snd (hd calls)) (snd (List.last calls))
      + of_nat (length calls) * rate_slack u eta l"
  using assms
proof (induction calls arbitrary: l t0)
  case (Cons c calls)
  obtain key now where c: "c = (key, now)" by fastforce
  let ?l = "snd (Allow rnd l key now)" and ?R = "tokensPerSecond l"
  have ok: "limiter_ok now l" using Cons.prems c by (auto elim: limiter_ok_later)
  then have ok': "limiter_ok now ?l" by (rule Allow_limiter_ok)
  have srt: "sorted (now # map snd calls)" using Cons.prems(2) c by simp
  define e where "e = snd (List.last (c # calls))"
  have len: "of_nat (length (c # calls)) * rate_slack u eta l
      = rate_slack u eta l + of_nat (length calls) * rate_slack u eta l"
    by (simp add: algebra_simps)
  have e: "List.last (now # map snd calls) = e" by (simp add: e_def c last_map)
  show ?case
  proof (cases "key = k")
    case True
    from Allow_step [OF ok, of k] Cons.prems(3) obtain b' where
      b': "mget (buckets (snd (Allow rnd l k now))) k = Some b'" "last_seen b' = now"
        "of_bool (fst (Allow rnd l k now)) + tokens b' \<le> burst l + rate_slack u eta l"
      by metis
    have "mget (buckets ?l) k = Some b'" using b'(1) True by simp
    from rate_from_bucket [OF ok' srt Cons.prems(3) this, unfolded e] b'(2,3) True show ?thesis
      unfolding len e_def [symmetric] by (simp add: c allowed_Cons)
  next
    case False
    show ?thesis
    proof (cases "calls = []")
      case True
      with ok have "0 \<le> burst l" unfolding limiter_ok_def whole_burst_def by auto
      with True False slack_nonneg [OF ok] show ?thesis
        by (simp add: c allowed_for_def seconds_between_def)
    next
      case ne: False
      then have "now \<le> snd (hd calls)" using srt by simp
      from drift_mono [OF ok this, of e] Cons.IH [OF ok' srt Cons.prems(3) ne] False ne slack_nonneg [OF ok]
      show ?thesis unfolding len by (simp add: c allowed_Cons e_def)
    qed
  qed
qed simp

end

section \<open>The limiter's contract\<close>

lemma NewLimiter_f64: "0 < rate \<Longrightarrow> 1 \<le> b \<Longrightarrow> b \<le> 2 ^ 53 \<Longrightarrow>
    NewLimiter f64 rate b = Inr \<lparr>buckets = [], tokensPerSecond = rate, burst = of_int b\<rparr>"
  by (simp add: NewLimiter_def f64.rnd_exact)

lemma NewLimiter_5_10: "NewLimiter f64 5 10 = Inr \<lparr>buckets = [], tokensPerSecond = 5, burst = 10\<rparr>"
  using NewLimiter_f64 [of 5 10] by simp



text \<open>(C23) A key seen for the first time may make exactly \<open>b\<close> calls at one instant: the first \<open>b\<close> are
  allowed and the rest refused, with no rounding error.\<close>

theorem limiter_burst_exact:
  assumes "NewLimiter f64 rate (int b) = Inr l" and "int b \<le> 2 ^ 53" and "key \<noteq> []"
  shows "fst (allow_run f64 l (replicate n (key, now))) = replicate (min b n) True @ replicate (n - b) False"
  using assms by (rule f64.fresh_burst)

text \<open>Witness of C23: twelve calls against the server's limiter.\<close>

theorem limiter_burst_exact_witness:
  "fst (allow_run f64 \<lparr>buckets = [], tokensPerSecond = 5, burst = 10\<rparr> (replicate 12 (''alice'', 7)))
     = replicate 10 True @ replicate 2 False"
  using limiter_burst_exact [of 5 10 "\<lparr>buckets = [], tokensPerSecond = 5, burst = 10\<rparr>" "''alice''" 12 7]
    NewLimiter_5_10 by simp

text \<open>(C10) The rate: over any window of calls, one key is granted at most the burst plus the rate times the
  seconds between the first and the last call, up to the rounding error of double precision, which is
  \<open>rate_slack\<close> per call and the factor \<open>rate_drift\<close> on the refill.\<close>

theorem limiter_rate_bound:
  assumes "limiter_ok t0 l" and "sorted (t0 # map snd calls)" and "key \<noteq> []" and "calls \<noteq> []"
  shows "of_nat (allowed_for key calls (fst (allow_run f64 l calls))) \<le>
    burst l + rate_drift (1 / 2 ^ 53) * tokensPerSecond l * seconds_between (snd (hd calls)) (snd (List.last calls))
      + of_nat (length calls) * rate_slack (1 / 2 ^ 53) (1 / 2 ^ 1075) l"
  using assms by (rule f64.rate_window)

text \<open>Witness of C10: one second of calls by one user on the server's limiter.\<close>

theorem limiter_rate_bound_witness:
  "of_nat (allowed_for ''alice'' [(''alice'', 0), (''alice'', 1000000000)]
      (fst (allow_run f64 \<lparr>buckets = [], tokensPerSecond = 5, burst = 10\<rparr> [(''alice'', 0), (''alice'', 1000000000)])))
    \<le> (10 :: rat) + rate_drift (1 / 2 ^ 53) * 5 * 1
      + 2 * rate_slack (1 / 2 ^ 53) (1 / 2 ^ 1075) \<lparr>buckets = [], tokensPerSecond = 5, burst = 10\<rparr>"
proof -
  let ?l = "\<lparr>buckets = [], tokensPerSecond = 5, burst = 10\<rparr>"
  have "limiter_ok 0 ?l" using f64.NewLimiter_ok [OF NewLimiter_5_10] by simp
  from limiter_rate_bound [OF this, of "[(''alice'', 0), (''alice'', 1000000000)]" "''alice''"]
  show ?thesis by (simp add: seconds_between_def)
qed

text \<open>(C36) Keys do not interfere: the answers one key receives in an interleaved sequence of calls are the
  answers it would receive if the other keys' calls were left out.\<close>

theorem limiter_keys_independent:
  "map snd (filter (\<lambda>x. fst (fst x) = key) (zip calls (fst (allow_run rnd l calls))))
     = fst (allow_run rnd l (filter (\<lambda>c. fst c = key) calls))"
  by (rule allow_run_project) (simp add: same_for_def)

end
