(* ===== verification/Gateway.thy ===== *)
theory Gateway
  imports Connections Room RateLimit Sensitive
begin

text \<open>
  The WebSocket handler of \<^verbatim>\<open>src/internal/httpserver/websocket.go\<close>: the handshake, the read loop and the write
  loop of one connection. What the handler reads from elsewhere (readiness, ownership, clock, random source,
  the bus, the answers of the WebSocket library) is an argument at the point where it is read. JSON decoding of
  a request is the argument \<open>unmarshal\<close>. Of the metrics, the counters of messages are modelled.
\<close>

section \<open>Metrics and session\<close>

record ws_metrics =
  MessagesReceived :: nat
  MessagesRejected :: "(string, nat) gomap"
  KafkaPublishCount :: nat

definition count_of :: "(string, nat) gomap \<Rightarrow> string \<Rightarrow> nat" where
  "count_of m reason = (case mget m reason of None \<Rightarrow> 0 | Some n \<Rightarrow> n)"

definition inc_rejected :: "string \<Rightarrow> ws_metrics \<Rightarrow> ws_metrics" where
  "inc_rejected reason m = m\<lparr>MessagesRejected := mput reason (Suc (count_of (MessagesRejected m) reason)) (MessagesRejected m)\<rparr>"

record ws_error_response =
  Code :: string
  err_Message :: string

text \<open>The state the read loop works on: limiter, bus, metrics, the error frames given to the write loop, and every
  message handed to the bus with whether the bus took it.\<close>

record 's session =
  ses_limiter :: limiter
  ses_bus :: 's
  ses_metrics :: ws_metrics
  ses_errors :: "ws_error_response list"
  ses_sent :: "(danmaku \<times> bool) list"

definition reject :: "string \<Rightarrow> ws_error_response option \<Rightarrow> 's session \<Rightarrow> 's session" where
  "reject reason response s =
     s\<lparr>ses_metrics := inc_rejected reason (ses_metrics s),
       ses_errors := ses_errors s @ (case response of None \<Rightarrow> [] | Some r \<Rightarrow> [r])\<rparr>"

section \<open>The read loop\<close>

definition maxContentRunes :: nat where "maxContentRunes = 500"
definition messageIDBytes :: nat where "messageIDBytes = 16"

definition newMessageID :: "(nat \<Rightarrow> nat list option) \<Rightarrow> string option" where
  "newMessageID reader = map_option hex_encode (reader messageIDBytes)"

definition bus_unavailable :: ws_error_response where
  "bus_unavailable = \<lparr>Code = ''message_bus_unavailable'', err_Message = ''message queue is temporarily unavailable''\<rparr>"

text \<open>What one turn meets: the frame, the limiter's clock, the answer of \<^verbatim>\<open>canPublish\<close>, the random source, the clock
  for \<^verbatim>\<open>CreatedAt\<close>, and whether an error frame gets written (the result of \<^verbatim>\<open>queueProtocolError\<close>).\<close>

record turn =
  t_payload :: string
  t_clock :: instant
  t_canPublish :: bool
  t_reader :: "nat \<Rightarrow> nat list option"
  t_created :: instant
  t_written :: bool

text \<open>The body of the loop after a frame was read; \<^term>\<open>True\<close> to go on reading, \<^term>\<open>False\<close> to return.\<close>

definition handle_frame ::
  "(string \<Rightarrow> string option) \<Rightarrow> (nat \<Rightarrow> nat) \<Rightarrow> word_filter \<Rightarrow> (rat \<Rightarrow> rat) \<Rightarrow> ('s \<Rightarrow> danmaku \<Rightarrow> 'e option \<times> 's)
    \<Rightarrow> string \<Rightarrow> string \<Rightarrow> turn \<Rightarrow> 's session \<Rightarrow> bool \<times> 's session" where
  "handle_frame unmarshal ulower flt rnd publish roomID userID t s0 =
     (let s = s0\<lparr>ses_metrics := (ses_metrics s0)\<lparr>MessagesReceived := Suc (MessagesReceived (ses_metrics s0))\<rparr>\<rparr> in
      case unmarshal (t_payload t) of
        None \<Rightarrow> (False, reject ''invalid_json'' (Some \<lparr>Code = ''invalid_json'', err_Message = ''message must be valid JSON''\<rparr>) s)
      | Some content \<Rightarrow>
        (if blank content
         then (t_written t, reject ''empty_content'' (Some \<lparr>Code = ''empty_content'', err_Message = ''content cannot be empty''\<rparr>) s)
         else if maxContentRunes < rune_count content
         then (t_written t, reject ''content_too_long'' (Some \<lparr>Code = ''content_too_long'', err_Message = ''content is too long''\<rparr>) s)
         else if snd (Match ulower flt content)
         then (t_written t, reject ''sensitive_content''
                 (Some \<lparr>Code = ''sensitive_content'', err_Message = ''message contains sensitive content''\<rparr>) s)
         else case Allow rnd (ses_limiter s) userID (t_clock t) of (allowed, limiter') \<Rightarrow>
           (let s1 = s\<lparr>ses_limiter := limiter'\<rparr> in
            if \<not> allowed then (True, reject ''rate_limit'' None s1)
            else if \<not> t_canPublish t then (t_written t, reject ''message_bus_unavailable'' (Some bus_unavailable) s1)
            else case newMessageID (t_reader t) of
              None \<Rightarrow> (t_written t, reject ''message_id_generation_failed'' (Some bus_unavailable) s1)
            | Some messageID \<Rightarrow>
              (let d = \<lparr>MessageID = messageID, RoomID = roomID, UserID = userID, Content = content, Sequence = 0,
                        CreatedAt = t_created t\<rparr> in
               case publish (ses_bus s1) d of (err, bus') \<Rightarrow>
                 (let s2 = s1\<lparr>ses_bus := bus', ses_sent := ses_sent s1 @ [(d, err = None)],
                              ses_metrics := (ses_metrics s1)\<lparr>KafkaPublishCount := Suc (KafkaPublishCount (ses_metrics s1))\<rparr>\<rparr>
                  in if err \<noteq> None
                     then (t_written t, reject ''message_bus_unavailable'' (Some bus_unavailable) s2)
                     else (True, s2))))))"

datatype read_error = ErrReadLimit | NormalClose | OtherReadError

datatype read_event = ReadFails read_error | ReadFrame turn

text \<open>The loop; the first component is \<^term>\<open>True\<close> once the handler has returned from it. After \<^verbatim>\<open>ErrReadLimit\<close> the rest of the
  connection is read and thrown away.\<close>

fun read_loop ::
  "(string \<Rightarrow> string option) \<Rightarrow> (nat \<Rightarrow> nat) \<Rightarrow> word_filter \<Rightarrow> (rat \<Rightarrow> rat) \<Rightarrow> ('s \<Rightarrow> danmaku \<Rightarrow> 'e option \<times> 's)
    \<Rightarrow> string \<Rightarrow> string \<Rightarrow> read_event list \<Rightarrow> 's session \<Rightarrow> bool \<times> 's session" where
  "read_loop unmarshal ulower flt rnd publish roomID userID [] s = (False, s)"
| "read_loop unmarshal ulower flt rnd publish roomID userID (ReadFails e # es) s =
     (True, if e = ErrReadLimit then reject ''frame_too_large'' None s else s)"
| "read_loop unmarshal ulower flt rnd publish roomID userID (ReadFrame t # es) s =
     (case handle_frame unmarshal ulower flt rnd publish roomID userID t s of
        (True, s') \<Rightarrow> read_loop unmarshal ulower flt rnd publish roomID userID es s'
      | (False, s') \<Rightarrow> (True, s'))"

section \<open>The write loop\<close>

datatype ws_frame = MessageFrame uint64 string | ErrorFrame ws_error_response

text \<open>What the \<^verbatim>\<open>select\<close> of the writer finds: a message or the closed channel of the client, or an error to report; with
  the success of the write. The result: it has returned, the frames written, and the acknowledgements sent to
  the read loop.\<close>

datatype write_event = FromRoom message bool | RoomClosed | FromReader ws_error_response bool

fun write_loop :: "write_event list \<Rightarrow> bool \<times> ws_frame list \<times> bool list" where
  "write_loop [] = (False, [], [])"
| "write_loop (RoomClosed # es) = (True, [], [])"
| "write_loop (FromRoom m written # es) =
     (if written
      then (case write_loop es of (stopped, frames, acks) \<Rightarrow> (stopped, MessageFrame (msg_Sequence m) (msg_Content m) # frames, acks))
      else (True, [], []))"
| "write_loop (FromReader r written # es) =
     (if written
      then (case write_loop es of (stopped, frames, acks) \<Rightarrow> (stopped, ErrorFrame r # frames, True # acks))
      else (True, [], [False]))"

section \<open>The handshake\<close>

text \<open>What the handler reads on its way: readiness, the query values, revision and ownership before the upgrade,
  whether the upgrade succeeded, revision and ownership after the registration.\<close>

record request =
  req_ready :: bool
  req_user :: string
  req_room :: string
  req_revision :: uint64
  req_owns :: bool
  req_upgraded :: bool
  req_revision2 :: uint64
  req_owns2 :: bool

datatype handshake_result =
  HttpError nat | UpgradeFailed | LookupFailed registry_error | JoinFailed room_error
  | CloseRestarting | CloseOwnershipChanged | Connected string string client

definition put_room :: "string \<Rightarrow> room \<Rightarrow> registry \<Rightarrow> registry" where
  "put_room rid r reg = mput rid r reg"

text \<open>\<^verbatim>\<open>_ = chatRoom.Leave(userID)\<close>.\<close>

definition leave_room :: "string \<Rightarrow> string \<Rightarrow> registry \<Rightarrow> registry" where
  "leave_room rid userID reg =
     (case mget reg rid of None \<Rightarrow> reg
      | Some r \<Rightarrow> (case Leave r userID of Inl e \<Rightarrow> reg | Inr r' \<Rightarrow> put_room rid r' reg))"

definition handshake :: "request \<Rightarrow> nat \<Rightarrow> registry \<Rightarrow> ws_connections \<Rightarrow> handshake_result \<times> registry \<times> ws_connections" where
  "handshake req conn reg cs =
     (let userID = trim_space (req_user req); roomID = trim_space (req_room req) in
      if \<not> req_ready req then (HttpError 503, reg, cs)
      else if userID = [] then (HttpError 400, reg, cs)
      else if roomID = [] then (HttpError 400, reg, cs)
      else if \<not> req_owns req then (HttpError 421, reg, cs)
      else if \<not> req_upgraded req then (UpgradeFailed, reg, cs)
      else case GetOrCreate reg roomID of
        Inl e \<Rightarrow> (LookupFailed e, reg, cs)
      | Inr (rid, reg1) \<Rightarrow>
        (case Join (the (mget reg1 rid)) userID of
           Inl e \<Rightarrow> (JoinFailed e, reg1, cs)
         | Inr (c, r1) \<Rightarrow>
           (let reg2 = put_room rid r1 reg1 in
            case add cs conn of
              (False, cs1) \<Rightarrow> (CloseRestarting, leave_room rid userID reg2, cs1)
            | (True, cs1) \<Rightarrow>
              (if req_revision2 req \<noteq> req_revision req \<or> \<not> req_owns2 req
               then (CloseOwnershipChanged, leave_room rid userID reg2, remove cs1 conn)
               else (Connected rid userID c, reg2, cs1)))))"

text \<open>The deferred functions of an established connection.\<close>

definition disconnect :: "string \<Rightarrow> string \<Rightarrow> nat \<Rightarrow> registry \<Rightarrow> ws_connections \<Rightarrow> registry \<times> ws_connections" where
  "disconnect rid userID conn reg cs = (leave_room rid userID reg, remove cs conn)"

section \<open>Lemmas on the read loop\<close>

lemma newMessageID_ok:
  assumes "newMessageID reader = Some mid" and "\<And>bs. reader 16 = Some bs \<Longrightarrow> length bs = 16 \<and> (\<forall>b\<in>set bs. b < 256)"
  shows "length mid = 32 \<and> \<not> blank mid"
proof -
  obtain bs where bs: "reader 16 = Some bs" "mid = hex_encode bs" using assms(1) by (auto simp: newMessageID_def messageIDBytes_def)
  then have "length bs = 16" "\<forall>b\<in>set bs. b < 256" using assms(2) by blast+
  moreover from this have "length mid = 32" using bs by simp
  moreover from calculation have "mid \<noteq> []" by force
  ultimately show ?thesis using trim_space_graphic [OF graphic_hex_encode] bs(2) by metis
qed

definition total_rejected :: "ws_metrics \<Rightarrow> nat" where
  "total_rejected m = sum_list (map snd (MessagesRejected m))"

lemma sum_mput: "mwf m \<Longrightarrow> sum_list (map snd (mput k (Suc (count_of m k)) m)) = Suc (sum_list (map snd m))"
  by (induction m) (auto simp: count_of_def dim_def split: option.splits)

lemma count_mput: "count_of (mput k v m) k' = (if k' = k then v else count_of m k')"
  by (simp add: count_of_def)

text \<open>Every frame read is accounted for: handed to the bus with success, or rejected under one reason; frames too
  large are rejected without being counted as received.\<close>

definition balanced :: "'s session \<Rightarrow> bool" where
  "balanced s \<longleftrightarrow>
     mwf (MessagesRejected (ses_metrics s)) \<and>
     MessagesReceived (ses_metrics s) + count_of (MessagesRejected (ses_metrics s)) ''frame_too_large'' =
       length (filter snd (ses_sent s)) + total_rejected (ses_metrics s) \<and>
     KafkaPublishCount (ses_metrics s) = length (ses_sent s)"

text \<open>A message may be handed to the bus.\<close>

definition publishable :: "(nat \<Rightarrow> nat) \<Rightarrow> word_filter \<Rightarrow> string \<Rightarrow> string \<Rightarrow> danmaku \<Rightarrow> bool" where
  "publishable ulower flt roomID userID d \<longleftrightarrow>
     Validate d = None \<and> RoomID d = roomID \<and> UserID d = userID \<and> rune_count (Content d) \<le> 500 \<and>
     \<not> snd (Match ulower flt (Content d)) \<and> length (MessageID d) = 32"

lemma reject_balanced:
  assumes "mwf (MessagesRejected (ses_metrics s))"
    and "MessagesReceived (ses_metrics s) + count_of (MessagesRejected (ses_metrics s)) ''frame_too_large'' =
       Suc (length (filter snd (ses_sent s)) + total_rejected (ses_metrics s))"
    and "KafkaPublishCount (ses_metrics s) = length (ses_sent s)" and "reason \<noteq> ''frame_too_large''"
  shows "balanced (reject reason resp s)"
  using assms by (simp add: balanced_def reject_def inc_rejected_def total_rejected_def sum_mput count_mput)

lemma reject_too_large: "balanced s \<Longrightarrow> balanced (reject ''frame_too_large'' resp s)"
  by (simp add: balanced_def reject_def inc_rejected_def total_rejected_def sum_mput count_mput)

text \<open>The metrics equations a turn uses.\<close>

lemma session_simps [simp]:
  "ses_sent (reject reason resp s) = ses_sent s"
  by (simp add: reject_def)

lemma handle_frame_balanced:
  assumes "balanced s" and "handle_frame unmarshal ulower flt rnd publish roomID userID t s = (go, s')"
  shows "balanced s'"
  using assms by (auto simp: handle_frame_def balanced_def [of s] Let_def total_rejected_def split: option.splits if_splits prod.splits
    intro!: reject_balanced) (auto simp: balanced_def total_rejected_def)

text \<open>The clock does not show Go's zero time, and the random source answers with bytes, as many as asked for.\<close>

definition turn_ok :: "turn \<Rightarrow> bool" where
  "turn_ok t \<longleftrightarrow> t_created t \<noteq> 0 \<and>
     (case t_reader t 16 of None \<Rightarrow> True | Some bs \<Rightarrow> length bs = 16 \<and> list_all (\<lambda>b. b < 256) bs)"

fun turns :: "read_event list \<Rightarrow> turn list" where
  "turns [] = []"
| "turns (ReadFails e # es) = turns es"
| "turns (ReadFrame t # es) = t # turns es"

lemma handle_frame_sent:
  assumes "handle_frame unmarshal ulower flt rnd publish roomID userID t s = (go, s')"
    and "turn_ok t" and "\<not> blank roomID" and "\<not> blank userID"
  shows "ses_sent s' = ses_sent s \<or> (\<exists>d ok. ses_sent s' = ses_sent s @ [(d, ok)] \<and> publishable ulower flt roomID userID d)"
proof (cases "ses_sent s' = ses_sent s")
  case False
  then obtain content mid ok where c: "\<not> blank content" "\<not> maxContentRunes < rune_count content" "\<not> snd (Match ulower flt content)"
    "newMessageID (t_reader t) = Some mid"
    "ses_sent s' = ses_sent s @ [(\<lparr>MessageID = mid, RoomID = roomID, UserID = userID, Content = content, Sequence = 0,
       CreatedAt = t_created t\<rparr>, ok)]"
    using assms(1) by (auto simp: handle_frame_def Let_def split: option.splits if_splits prod.splits)
  have "length mid = 32 \<and> \<not> blank mid"
    using assms(2) by (intro newMessageID_ok [OF c(4)]) (auto simp: turn_ok_def list_all_iff)
  then show ?thesis using c assms(2-4)
    by (auto simp: publishable_def Validate_def turn_ok_def maxContentRunes_def)
qed simp

lemma read_loop_sent:
  assumes "read_loop unmarshal ulower flt rnd publish roomID userID es s = (stopped, s')"
    and "list_all turn_ok (turns es)" and "\<not> blank roomID" and "\<not> blank userID"
    and "list_all (\<lambda>x. publishable ulower flt roomID userID (fst x)) (ses_sent s)"
  shows "list_all (\<lambda>x. publishable ulower flt roomID userID (fst x)) (ses_sent s')"
  using assms
proof (induction es arbitrary: s)
  case (Cons e es)
  show ?case
  proof (cases e)
    case (ReadFrame t)
    obtain go s1 where h: "handle_frame unmarshal ulower flt rnd publish roomID userID t s = (go, s1)" by fastforce
    have t: "turn_ok t" "list_all turn_ok (turns es)" using Cons.prems(2) ReadFrame by simp_all
    have s1: "list_all (\<lambda>x. publishable ulower flt roomID userID (fst x)) (ses_sent s1)"
      using handle_frame_sent [OF h t(1) Cons.prems(3,4)] Cons.prems(5) by auto
    show ?thesis
    proof (cases go)
      case True
      then have "read_loop unmarshal ulower flt rnd publish roomID userID es s1 = (stopped, s')"
        using Cons.prems(1) ReadFrame h by simp
      from Cons.IH [OF this t(2) Cons.prems(3,4) s1] show ?thesis .
    qed (use Cons.prems(1) ReadFrame h s1 in simp)
  qed (use Cons.prems in \<open>auto split: if_splits\<close>)
qed simp

lemma read_loop_balanced:
  assumes "read_loop unmarshal ulower flt rnd publish roomID userID es s = (stopped, s')" and "balanced s"
  shows "balanced s'"
  using assms
proof (induction es arbitrary: s)
  case (Cons e es)
  show ?case
  proof (cases e)
    case (ReadFrame t)
    obtain go s1 where h: "handle_frame unmarshal ulower flt rnd publish roomID userID t s = (go, s1)" by fastforce
    note s1 = handle_frame_balanced [OF Cons.prems(2) h]
    show ?thesis using Cons.IH [OF _ s1] Cons.prems(1) ReadFrame h s1 by (cases go) auto
  qed (use Cons.prems reject_too_large in \<open>auto split: if_splits\<close>)
qed simp

section \<open>Lemmas on the handshake\<close>

definition registry_ok :: "registry \<Rightarrow> bool" where
  "registry_ok reg \<longleftrightarrow> mwf reg \<and> (\<forall>rid r. mget reg rid = Some r \<longrightarrow> room_ok r)"

text \<open>The members of a room; none for a room that does not exist.\<close>

definition joined :: "room \<Rightarrow> string set" where
  "joined r = {u. mget (clients r) u \<noteq> None}"

definition members :: "registry \<Rightarrow> string \<Rightarrow> string set" where
  "members reg rid = (case mget reg rid of None \<Rightarrow> {} | Some r \<Rightarrow> joined r)"

lemma Join_members: "Join r u = Inr (c, r') \<Longrightarrow> joined r' = insert u (joined r) \<and> u \<notin> joined r"
  by (auto simp: Join_def Let_def joined_def simp del: map_of_eq_None_iff split: if_splits)

lemma Leave_members:
  assumes "room_ok r" and "u \<in> joined r"
  shows "\<exists>r'. Leave r u = Inr r' \<and> room_ok r' \<and> joined r' = joined r - {u}"
proof -
  obtain c where c: "mget (clients r) u = Some c" using assms(2) by (auto simp: joined_def simp del: map_of_eq_None_iff)
  then have "\<not> Channels.closed (chans r (Messages c))" using assms(1) by (auto simp: room_ok_def)
  then obtain ch where "Leave r u = Inr (r\<lparr>clients := mdel u (clients r), chans := ch\<rparr>)"
    using c by (simp add: Leave_def close_chan_def)
  moreover have "joined (r\<lparr>clients := mdel u (clients r), chans := ch\<rparr>) = joined r - {u}"
    unfolding joined_def by (auto simp del: map_of_eq_None_iff split: if_splits)
  ultimately show ?thesis using room_ok_Leave [OF assms(1)] by blast
qed

lemma GetOrCreate_members:
  assumes "GetOrCreate reg rid0 = Inr (rid, reg1)" and "registry_ok reg"
  shows "rid = trim_space rid0" "registry_ok reg1" "\<exists>r. mget reg1 rid = Some r \<and> room_ok r" "members reg1 = members reg"
proof -
  show "rid = trim_space rid0" using assms(1) by (auto simp: GetOrCreate_def Let_def split: if_splits option.splits)
  show r: "registry_ok reg1"
    using assms by (auto simp: GetOrCreate_def Let_def registry_ok_def simp del: map_of_eq_Some_iff split: if_splits option.splits)
  have "mget reg1 rid \<noteq> None" using assms(1) by (auto simp: GetOrCreate_def Let_def split: if_splits option.splits)
  then show "\<exists>r. mget reg1 rid = Some r \<and> room_ok r" using r unfolding registry_ok_def by blast
  show "members reg1 = members reg"
    using assms(1) by (auto simp: GetOrCreate_def Let_def members_def joined_def new_room_def fun_eq_iff split: if_splits option.splits)
qed

lemma members_put: "members (put_room rid r reg) = (members reg)(rid := joined r)"
  by (rule ext) (simp add: members_def put_room_def)

lemma registry_ok_put: "registry_ok reg \<Longrightarrow> room_ok r \<Longrightarrow> registry_ok (put_room rid r reg)"
  by (auto simp: registry_ok_def put_room_def simp del: map_of_eq_Some_iff split: if_splits)

lemma leave_room_members:
  assumes "registry_ok reg" and "u \<in> members reg rid"
  shows "registry_ok (leave_room rid u reg)" "members (leave_room rid u reg) = (members reg)(rid := members reg rid - {u})"
proof -
  obtain r where r: "mget reg rid = Some r" "u \<in> joined r" using assms(2) by (auto simp: members_def split: option.splits)
  then have "room_ok r" using assms(1) unfolding registry_ok_def by blast
  then obtain r' where "Leave r u = Inr r'" "room_ok r'" "joined r' = joined r - {u}" using Leave_members [of r u] r(2) by blast
  then show "registry_ok (leave_room rid u reg)" "members (leave_room rid u reg) = (members reg)(rid := members reg rid - {u})"
    using r(1) registry_ok_put [OF assms(1)] by (auto simp: leave_room_def members_put members_def)
qed

lemma members_undo: "u \<notin> members reg rid \<Longrightarrow> f = (members reg)(rid := insert u (members reg rid)) \<Longrightarrow> f(rid := f rid - {u}) = members reg"
  by auto

text \<open>The handshake beyond the HTTP checks.\<close>

lemma handshake_upgraded:
  assumes "registry_ok reg" and "conn \<notin> set (items cs)"
    and "req_ready req" "\<not> blank (req_user req)" "\<not> blank (req_room req)" "req_owns req" "req_upgraded req"
    and "handshake req conn reg cs = (res, reg', cs')"
  shows "registry_ok reg' \<and>
    (case res of
       Connected rid u c \<Rightarrow> rid = trim_space (req_room req) \<and> u = trim_space (req_user req) \<and>
         u \<notin> members reg rid \<and> members reg' = (members reg)(rid := insert u (members reg rid)) \<and>
         set (items cs') = insert conn (set (items cs)) \<and> \<not> closing cs \<and> req_revision2 req = req_revision req \<and> req_owns2 req
     | _ \<Rightarrow> members reg' = members reg \<and> set (items cs') = set (items cs))"
proof -
  define rid u where "rid = trim_space (req_room req)" and "u = trim_space (req_user req)"
  have ne: "rid \<noteq> []" "u \<noteq> []" using assms(4,5) by (simp_all add: rid_def u_def)
  obtain reg1 where g: "GetOrCreate reg rid = Inr (rid, reg1)"
    using ne(1) by (cases "mget reg rid") (auto simp: GetOrCreate_def rid_def Let_def)
  note g1 = GetOrCreate_members [OF g assms(1)]
  obtain r where r: "mget reg1 rid = Some r" "room_ok r" using g1(3) by blast
  show ?thesis
  proof (cases "Join r u")
    case (Inl e)
    then show ?thesis using assms(3-8) g g1 r by (auto simp: handshake_def Let_def rid_def u_def)
  next
    case (Inr x)
    obtain c r1 where j: "Join r u = Inr (c, r1)" using Inr by (cases x) auto
    define reg2 where "reg2 = put_room rid r1 reg1"
    have mem: "members reg rid = joined r" using r(1) g1(4) by (simp add: members_def flip: g1(4))
    have j1: "joined r1 = insert u (joined r)" "u \<notin> joined r" "room_ok r1"
      using Join_members [OF j] room_ok_Join [OF r(2) j] by simp_all
    have ok2: "registry_ok reg2" using registry_ok_put [OF g1(2) j1(3)] by (simp add: reg2_def)
    have m2: "members reg2 = (members reg)(rid := insert u (members reg rid))"
      using j1(1) mem g1(4) by (simp add: reg2_def members_put)
    have l: "registry_ok (leave_room rid u reg2)" "members (leave_room rid u reg2) = members reg"
      using leave_room_members [OF ok2, of u rid] m2 members_undo [of u reg rid "members reg2"] j1(2) mem by simp_all
    have h: "(case add cs conn of
           (False, cs1) \<Rightarrow> (CloseRestarting, leave_room rid u reg2, cs1)
         | (True, cs1) \<Rightarrow>
             if req_revision2 req \<noteq> req_revision req \<or> \<not> req_owns2 req
             then (CloseOwnershipChanged, leave_room rid u reg2, remove cs1 conn)
             else (Connected rid u c, reg2, cs1)) = (res, reg', cs')"
      using assms(3-8) g r(1) j ne unfolding reg2_def by (simp add: handshake_def Let_def flip: rid_def u_def)
    then show ?thesis using l m2 ok2 j1(2) mem assms(2)
      by (auto simp: add_def remove_def key_insert_def rid_def u_def split: if_splits)
  qed
qed

section \<open>Properties\<close>

text \<open>(C6) Whatever frames a connection sends, every message handed to the bus passes the validation the consumer
  applies, is for the connection's own room and user, has at most 500 characters, contains no sensitive word
  and has an identifier of 32 characters.\<close>

theorem gateway_publishes_valid:
  assumes "read_loop unmarshal ulower flt rnd publish roomID userID es s = (stopped, s')" and "ses_sent s = []"
    and "\<not> blank roomID" and "\<not> blank userID" and "list_all turn_ok (turns es)"
  shows "\<forall>(d, taken)\<in>set (ses_sent s'). Validate d = None \<and> RoomID d = roomID \<and> UserID d = userID \<and>
    rune_count (Content d) \<le> 500 \<and> \<not> snd (Match ulower flt (Content d)) \<and> length (MessageID d) = 32"
  using read_loop_sent [OF assms(1,5,3,4)] assms(2) by (auto simp: list_all_iff publishable_def)

text \<open>A session of the witnesses: the limiter the server installs, and turns that all can publish.\<close>

definition ex_session :: "unit session" where
  "ex_session = \<lparr>ses_limiter = \<lparr>buckets = [], tokensPerSecond = 5, burst = 10\<rparr>, ses_bus = (),
     ses_metrics = \<lparr>MessagesReceived = 0, MessagesRejected = [], KafkaPublishCount = 0\<rparr>, ses_errors = [], ses_sent = []\<rparr>"

definition ex_turn :: "string \<Rightarrow> turn" where
  "ex_turn body = \<lparr>t_payload = body, t_clock = 1, t_canPublish = True, t_reader = (\<lambda>n. Some (replicate n 9)), t_created = 2,
     t_written = True\<rparr>"

abbreviation ex_read :: "string list \<Rightarrow> bool \<times> unit session" where
  "ex_read bodies \<equiv> read_loop Some id \<lparr>words = [''bad'']\<rparr> id (\<lambda>b d. (None :: unit option, b)) ''room'' ''user''
     (map (ReadFrame \<circ> ex_turn) bodies) ex_session"

lemma ex_strings: "\<not> blank ''hi''" "\<not> blank ''a bad word''" "blank '' ''" "\<not> blank ''room''" "\<not> blank ''user''"
  by (simp_all add: trim_space_def trim_right_def decode_eqs is_space_def)

lemma ex_match: "snd (Match id \<lparr>words = [''bad'']\<rparr> ''a bad word'')" "\<not> snd (Match id \<lparr>words = [''bad'']\<rparr> ''hi'')"
  "rune_count ''hi'' = 2" "rune_count ''a bad word'' = 10"
  by (simp_all add: rune_count_def decode_eqs Match_def normalize_def to_lower_def rune_lower_def ascii_lower_def
    trim_space_def trim_right_def is_space_def char_of_def bit_Suc_0_iff)

text \<open>Witness of C6: three frames, of which the last is taken.\<close>

theorem gateway_publishes_valid_witness:
  "length (ses_sent (snd (ex_read ['' '', ''a bad word'', ''hi'']))) = 1 \<and>
   list_all (\<lambda>(d, taken). Validate d = None \<and> length (MessageID d) = 32) (ses_sent (snd (ex_read ['' '', ''a bad word'', ''hi''])))"
proof -
  obtain st s where r: "ex_read ['' '', ''a bad word'', ''hi''] = (st, s)" by fastforce
  have ok: "list_all turn_ok (turns (map (ReadFrame \<circ> ex_turn) ['' '', ''a bad word'', ''hi'']))"
    by (simp add: turn_ok_def ex_turn_def list_all_iff)
  have "length (ses_sent s) = 1"
    using r by (auto simp: handle_frame_def ex_turn_def ex_strings ex_match Let_def maxContentRunes_def
      Allow_def ex_session_def newMessageID_def reject_def inc_rejected_def)
  then show ?thesis using gateway_publishes_valid [OF r _ _ _ ok] r ex_strings by (auto simp: ex_session_def list_all_iff)
qed

text \<open>(C29) Accounting: over any run of the read loop from a balanced session, frames received plus frames too large
  equal the messages the bus took plus all rejections, and the number of publish attempts is the number of
  messages handed to the bus.\<close>

theorem read_loop_accounting:
  assumes "read_loop unmarshal ulower flt rnd publish roomID userID es s = (stopped, s')" and "balanced s"
  shows "MessagesReceived (ses_metrics s') + count_of (MessagesRejected (ses_metrics s')) ''frame_too_large'' =
      length (filter snd (ses_sent s')) + sum_list (map snd (MessagesRejected (ses_metrics s'))) \<and>
    KafkaPublishCount (ses_metrics s') = length (ses_sent s')"
  using read_loop_balanced [OF assms] by (simp add: balanced_def total_rejected_def)

text \<open>Witness of C29: the same three frames on a fresh session.\<close>

theorem read_loop_accounting_witness:
  "balanced ex_session \<and>
   KafkaPublishCount (ses_metrics (snd (ex_read ['' '', ''hi'']))) = length (ses_sent (snd (ex_read ['' '', ''hi''])))"
proof -
  obtain st s where r: "ex_read ['' '', ''hi''] = (st, s)" by fastforce
  have "balanced ex_session" by (simp add: balanced_def ex_session_def total_rejected_def count_of_def)
  with read_loop_accounting [OF r this] r show ?thesis by simp
qed

text \<open>(C8) The handshake is all or nothing. The HTTP errors are given exactly for a server that is not ready (503),
  a missing user or room (400) and a room of another instance (421), and change nothing; a connection is
  established only for a user who is not yet in the room, with the ownership re-checked, and is then in the
  room and in the table; every other outcome leaves the members of all rooms and the table as they were.\<close>

theorem handshake_all_or_nothing:
  assumes "registry_ok reg" and "conn \<notin> set (items cs)" and "handshake req conn reg cs = (res, reg', cs')"
  shows "registry_ok reg' \<and>
    (res = HttpError 503 \<longleftrightarrow> \<not> req_ready req) \<and>
    (res = HttpError 400 \<longleftrightarrow> req_ready req \<and> (blank (req_user req) \<or> blank (req_room req))) \<and>
    (res = HttpError 421 \<longleftrightarrow> req_ready req \<and> \<not> blank (req_user req) \<and> \<not> blank (req_room req) \<and> \<not> req_owns req) \<and>
    (case res of
       Connected rid u c \<Rightarrow> rid = trim_space (req_room req) \<and> u = trim_space (req_user req) \<and>
         u \<notin> members reg rid \<and> members reg' = (members reg)(rid := insert u (members reg rid)) \<and>
         set (items cs') = insert conn (set (items cs)) \<and> \<not> closing cs \<and> req_revision2 req = req_revision req \<and> req_owns2 req
     | _ \<Rightarrow> members reg' = members reg \<and> set (items cs') = set (items cs))"
proof (cases "req_ready req \<and> \<not> blank (req_user req) \<and> \<not> blank (req_room req) \<and> req_owns req \<and> req_upgraded req")
  case True
  have "\<nexists>n. res = HttpError n"
    using assms(3) True by (auto simp: handshake_def Let_def split: sum.splits prod.splits bool.splits if_splits)
  then show ?thesis using handshake_upgraded [OF assms(1,2) _ _ _ _ _ assms(3)] True by auto
next
  case False
  then have "reg' = reg \<and> cs' = cs \<and> res =
      (if \<not> req_ready req then HttpError 503 else if blank (req_user req) \<or> blank (req_room req) then HttpError 400
       else if \<not> req_owns req then HttpError 421 else UpgradeFailed)"
    using assms(3) by (simp add: handshake_def Let_def split: if_splits)
  then show ?thesis using assms(1) False by (auto split: if_splits)
qed

text \<open>Witness of C8: a second user joins a room.\<close>

theorem handshake_all_or_nothing_witness:
  "\<exists>reg reg' cs' c. handshake \<lparr>req_ready = True, req_user = '' user'', req_room = ''room'', req_revision = 3, req_owns = True,
       req_upgraded = True, req_revision2 = 3, req_owns2 = True\<rparr> 1 reg newWebSocketConnections = (Connected ''room'' ''user'' c, reg', cs') \<and>
     registry_ok reg \<and> members reg' ''room'' = {''user''}"
proof -
  let ?q = "\<lparr>req_ready = True, req_user = '' user'', req_room = ''room'', req_revision = 3, req_owns = True,
       req_upgraded = True, req_revision2 = 3, req_owns2 = True\<rparr>"
  have ok: "registry_ok []" by (simp add: registry_ok_def)
  have t: "trim_space '' user'' = ''user''" "trim_space ''room'' = ''room''" "trim_space ''user'' = ''user''"
    by (simp_all add: trim_space_def trim_right_def decode_eqs is_space_def)
  obtain reg' cs' c where h: "handshake ?q 1 [] newWebSocketConnections = (Connected ''room'' ''user'' c, reg', cs')"
    by (simp add: handshake_def t GetOrCreate_def Join_def new_room_def add_def newWebSocketConnections_def Let_def)
  have "members reg' ''room'' = insert ''user'' (members [] ''room'')"
    using handshake_all_or_nothing [OF ok _ h] by (simp add: newWebSocketConnections_def t)
  then have "members reg' ''room'' = {''user''}" by (simp add: members_def)
  then show ?thesis using h ok by blast
qed

end
