(* ===== verification/Routing.thy ===== *)
theory Routing
  imports Kafka
begin

text \<open>
  \<^verbatim>\<open>src/internal/routing\<close>: the directory of partition leases in Redis and the publisher that keeps the leases of
  this gateway. The Redis server and its client library are not part of the repository: the server's
  commands are the fields of \<open>redis_server\<close>, what the program relies on is the predicate \<open>redis_laws\<close>, and a
  call may lose its request or its reply (\<open>link\<close>). \<open>marshal\<close>, \<open>unmarshal\<close> are \<^verbatim>\<open>encoding/json\<close> on leases and
  \<open>parse\<close> is \<^verbatim>\<open>url.Parse\<close>. Logging is kept only as the list of partitions whose call failed.
\<close>

section \<open>Leases\<close>

datatype redis_error = RedisError string

datatype routing_error =
  ErrRouteNotFound | ErrInvalidConfig | EncodeRoute | DecodeRoute
  | RegisterRoute redis_error | ResolveRoute redis_error | ReleaseRoute redis_error
  | TokenRandom

record lease =
  GatewayID :: string
  WebSocketURL :: string
  Token :: string

text \<open>The parts of a parsed URL that the program looks at; \<open>HasUser\<close> says that \<^verbatim>\<open>User\<close> is not nil.\<close>

record url =
  Scheme :: string
  Host :: string
  HasUser :: bool
  RawQuery :: string
  Fragment :: string

definition validLease :: "(string \<Rightarrow> url option) \<Rightarrow> lease \<Rightarrow> bool" where
  "validLease parse l =
     (if blank (GatewayID l) \<or> blank (Token l) then False
      else case parse (WebSocketURL l) of
        None \<Rightarrow> False
      | Some parsed \<Rightarrow> (Scheme parsed = ''ws'' \<or> Scheme parsed = ''wss'') \<and> Host parsed \<noteq> [] \<and>
          \<not> HasUser parsed \<and> RawQuery parsed = [] \<and> Fragment parsed = [])"

section \<open>The Redis registry\<close>

text \<open>The server: \<^verbatim>\<open>SET key value PX ttl\<close>, \<^verbatim>\<open>GET key\<close>, \<^verbatim>\<open>DEL key\<close> at an instant, and \<^verbatim>\<open>cjson.decode(value).token\<close> of its
  Lua interpreter, which may raise, or find no string there.\<close>

record 'db redis_server =
  srv_set :: "instant \<Rightarrow> 'db \<Rightarrow> string \<Rightarrow> string \<Rightarrow> duration \<Rightarrow> 'db"
  srv_get :: "instant \<Rightarrow> 'db \<Rightarrow> string \<Rightarrow> string option"
  srv_del :: "instant \<Rightarrow> 'db \<Rightarrow> string \<Rightarrow> 'db"
  srv_token :: "string \<Rightarrow> redis_error + string option"

text \<open>One call over the network: it goes through, or the request is lost, or the server executes it and the
  reply is lost.\<close>

datatype link = Up | RequestLost redis_error | ReplyLost redis_error

definition redis_call :: "link \<Rightarrow> 'db \<Rightarrow> (redis_error + 'r) \<times> 'db \<Rightarrow> (redis_error + 'r) \<times> 'db" where
  "redis_call lnk db res =
     (case lnk of Up \<Rightarrow> res | RequestLost e \<Rightarrow> (Inl e, db) | ReplyLost e \<Rightarrow> (Inl e, snd res))"

definition releaseLeaseScript ::
  "'db redis_server \<Rightarrow> instant \<Rightarrow> 'db \<Rightarrow> string \<Rightarrow> string \<Rightarrow> (redis_error + int) \<times> 'db" where
  "releaseLeaseScript srv now db k arg =
     (case srv_get srv now db k of
        None \<Rightarrow> (Inr 0, db)
      | Some val \<Rightarrow>
        (case srv_token srv val of
           Inl e \<Rightarrow> (Inl e, db)
         | Inr tok \<Rightarrow> if tok = Some arg then (Inr 1, srv_del srv now db k) else (Inr 0, db)))"

record redis_config =
  Address :: string
  Password :: string
  DB :: int
  KeyPrefix :: string

text \<open>\<open>client_set\<close> says that the registry and its client are not nil.\<close>

record redis_registry =
  client_set :: bool
  keyPrefix :: string

definition NewRedisRegistry :: "redis_config \<Rightarrow> routing_error + redis_registry" where
  "NewRedisRegistry cfg =
     (if blank (Address cfg) \<or> DB cfg < 0 then Inl ErrInvalidConfig
      else let prefix = trim_space (KeyPrefix cfg);
               prefix' = (if prefix = [] then ''danmuflow:routing'' else prefix)
           in Inr \<lparr>client_set = True, keyPrefix = trim_suffix prefix' CHR '':''\<rparr>)"

definition key :: "redis_registry \<Rightarrow> int \<Rightarrow> string" where
  "key reg p = keyPrefix reg @ '':partition:'' @ show_int p"

definition Register ::
  "(string \<Rightarrow> url option) \<Rightarrow> (lease \<Rightarrow> string option) \<Rightarrow> 'db redis_server \<Rightarrow> redis_registry \<Rightarrow> link \<Rightarrow> instant \<Rightarrow> 'db
    \<Rightarrow> int \<Rightarrow> lease \<Rightarrow> duration \<Rightarrow> routing_error option \<times> 'db" where
  "Register parse marshal srv reg lnk now db p l ttl =
     (if \<not> client_set reg \<or> p < 0 \<or> ttl \<le> 0 \<or> \<not> validLease parse l then (Some ErrInvalidConfig, db)
      else case marshal l of
        None \<Rightarrow> (Some EncodeRoute, db)
      | Some bytes \<Rightarrow>
          (case redis_call lnk db (Inr (), srv_set srv now db (key reg p) bytes ttl) of
             (Inl e, db') \<Rightarrow> (Some (RegisterRoute e), db')
           | (Inr _, db') \<Rightarrow> (None, db')))"

definition Resolve ::
  "(string \<Rightarrow> url option) \<Rightarrow> (string \<Rightarrow> lease option) \<Rightarrow> 'db redis_server \<Rightarrow> redis_registry \<Rightarrow> link \<Rightarrow> instant \<Rightarrow> 'db
    \<Rightarrow> int \<Rightarrow> routing_error + lease" where
  "Resolve parse unmarshal srv reg lnk now db p =
     (if \<not> client_set reg \<or> p < 0 then Inl ErrInvalidConfig
      else case redis_call lnk db (Inr (srv_get srv now db (key reg p)), db) of
        (Inl e, _) \<Rightarrow> Inl (ResolveRoute e)
      | (Inr None, _) \<Rightarrow> Inl ErrRouteNotFound
      | (Inr (Some bytes), _) \<Rightarrow>
          (case unmarshal bytes of
             None \<Rightarrow> Inl DecodeRoute
           | Some l \<Rightarrow> if validLease parse l then Inr l else Inl DecodeRoute))"

definition Release ::
  "'db redis_server \<Rightarrow> redis_registry \<Rightarrow> link \<Rightarrow> instant \<Rightarrow> 'db \<Rightarrow> int \<Rightarrow> string \<Rightarrow> routing_error option \<times> 'db" where
  "Release srv reg lnk now db p tok =
     (if \<not> client_set reg \<or> p < 0 \<or> blank tok then (Some ErrInvalidConfig, db)
      else case redis_call lnk db (releaseLeaseScript srv now db (key reg p) tok) of
        (Inl e, db') \<Rightarrow> (Some (ReleaseRoute e), db')
      | (Inr _, db') \<Rightarrow> (None, db'))"

section \<open>The publisher\<close>

record publisher_config =
  pub_GatewayID :: string
  pub_WebSocketURL :: string
  LeaseTTL :: duration
  PollInterval :: duration

text \<open>The fields of \<^verbatim>\<open>Publisher\<close> that change: \<open>cancelled\<close> is the state of its context, \<open>done\<close> of its channel \<^verbatim>\<open>done\<close>.\<close>

record publisher =
  pub_lease :: lease
  pub_config :: publisher_config
  cancelled :: bool
  run_done :: bool

text \<open>\<^verbatim>\<open>newPublisherToken\<close>: \<open>rand\<close> is the answer of \<^verbatim>\<open>rand.Read\<close>, \<^term>\<open>None\<close> for an error.\<close>

definition publisherTokenBytes :: nat where
  "publisherTokenBytes = 16"

definition newPublisherToken :: "(nat \<Rightarrow> nat list option) \<Rightarrow> string option" where
  "newPublisherToken rand = map_option hex_encode (rand publisherTokenBytes)"

definition StartPublisher ::
  "bool \<Rightarrow> bool \<Rightarrow> publisher_config \<Rightarrow> (nat \<Rightarrow> nat list option) \<Rightarrow> routing_error + publisher" where
  "StartPublisher registry_nil ownership_nil cfg rand =
     (if registry_nil \<or> ownership_nil \<or> pub_GatewayID cfg = [] \<or> pub_WebSocketURL cfg = [] \<or>
         LeaseTTL cfg \<le> 0 \<or> PollInterval cfg \<le> 0 \<or> LeaseTTL cfg \<le> PollInterval cfg
      then Inl ErrInvalidConfig
      else case newPublisherToken rand of
        None \<Rightarrow> Inl TokenRandom
      | Some tok \<Rightarrow>
          Inr \<lparr>pub_lease = \<lparr>GatewayID = pub_GatewayID cfg, WebSocketURL = pub_WebSocketURL cfg, Token = tok\<rparr>,
               pub_config = cfg, cancelled = False, run_done = False\<rparr>)"

text \<open>The publisher calls the registry through its interface: \<open>register\<close> and \<open>release\<close> on a world \<open>'w\<close>. The loops
  also return the partitions whose call failed, which the source logs.\<close>

type_synonym 'w register_op = "'w \<Rightarrow> int \<Rightarrow> lease \<Rightarrow> duration \<Rightarrow> routing_error option \<times> 'w"
type_synonym 'w release_op = "'w \<Rightarrow> int \<Rightarrow> string \<Rightarrow> routing_error option \<times> 'w"

fun reconcile_register ::
  "'w register_op \<Rightarrow> publisher \<Rightarrow> int list \<Rightarrow> int list \<Rightarrow> int list \<Rightarrow> 'w \<Rightarrow> int list \<times> int list \<times> 'w" where
  "reconcile_register register pub nxt failed [] w = (nxt, failed, w)"
| "reconcile_register register pub nxt failed (p # ps) w =
     (case register w p (pub_lease pub) (LeaseTTL (pub_config pub)) of
        (Some e, w') \<Rightarrow> reconcile_register register pub (key_insert p nxt) (failed @ [p]) ps w'
      | (None, w') \<Rightarrow> reconcile_register register pub (key_insert p nxt) failed ps w')"

fun release_each ::
  "'w release_op \<Rightarrow> string \<Rightarrow> int list \<Rightarrow> int list \<Rightarrow> int list \<Rightarrow> 'w \<Rightarrow> int list \<times> 'w" where
  "release_each release tok retained failed [] w = (failed, w)"
| "release_each release tok retained failed (p # ps) w =
     (if p \<in> set retained then release_each release tok retained failed ps w
      else case release w p tok of
        (Some e, w') \<Rightarrow> release_each release tok retained (failed @ [p]) ps w'
      | (None, w') \<Rightarrow> release_each release tok retained failed ps w')"

text \<open>\<open>order\<close> is the order in which Go visits the keys of the map \<^verbatim>\<open>published\<close>. The result: the new published set, the
  failed registrations, the failed releases, the world.\<close>

definition reconcile ::
  "'w register_op \<Rightarrow> 'w release_op \<Rightarrow> publisher \<Rightarrow> int list \<Rightarrow> int list \<Rightarrow> 'w \<Rightarrow> int list \<times> int list \<times> int list \<times> 'w" where
  "reconcile register release pub assigned order w =
     (case reconcile_register register pub [] [] assigned w of
        (nxt, regFailed, w1) \<Rightarrow>
          (case release_each release (Token (pub_lease pub)) nxt [] order w1 of
             (relFailed, w2) \<Rightarrow> (nxt, regFailed, relFailed, w2)))"

definition releaseAll :: "'w release_op \<Rightarrow> publisher \<Rightarrow> int list \<Rightarrow> 'w \<Rightarrow> int list \<times> 'w" where
  "releaseAll release pub order w = release_each release (Token (pub_lease pub)) [] [] order w"

text \<open>The variables of \<^verbatim>\<open>run\<close> and one turn of its loop up to the \<^verbatim>\<open>select\<close>: the decision, taken on the clock and the
  revision, and the turn of a decision to reconcile.\<close>

record run_vars =
  lastRevision :: uint64
  lastRefresh :: instant
  published :: "int list"

definition run_init :: run_vars where
  "run_init = \<lparr>lastRevision = - 1, lastRefresh = 0, published = []\<rparr>"

definition reconcile_due :: "publisher \<Rightarrow> run_vars \<Rightarrow> instant \<Rightarrow> uint64 \<Rightarrow> bool" where
  "reconcile_due pub v now revision \<longleftrightarrow>
     revision \<noteq> lastRevision v \<or> LeaseTTL (pub_config pub) div 3 \<le> time_sub now (lastRefresh v)"

definition run_turn ::
  "'w register_op \<Rightarrow> 'w release_op \<Rightarrow> publisher \<Rightarrow> instant \<Rightarrow> uint64 \<Rightarrow> int list \<Rightarrow> int list \<Rightarrow> run_vars \<times> 'w \<Rightarrow> run_vars \<times> 'w" where
  "run_turn register release pub now revision assigned order s =
     (case s of (v, w) \<Rightarrow>
        (if reconcile_due pub v now revision
         then (case reconcile register release pub assigned order w of
                 (nxt, _, _, w') \<Rightarrow> (\<lparr>lastRevision = revision, lastRefresh = now, published = nxt\<rparr>, w'))
         else (v, w)))"

text \<open>The end of \<^verbatim>\<open>run\<close>, when its context is cancelled, and \<^verbatim>\<open>Stop\<close>: \<^term>\<open>None\<close> while it waits; \<open>pick\<close> is the choice of
  \<^verbatim>\<open>select\<close> when both channels are ready, \<^term>\<open>True\<close> for \<^verbatim>\<open>done\<close>.\<close>

definition run_stop :: "'w release_op \<Rightarrow> publisher \<Rightarrow> int list \<Rightarrow> 'w \<Rightarrow> publisher \<times> 'w" where
  "run_stop release pub order w =
     (case releaseAll release pub order w of (_, w') \<Rightarrow> (pub\<lparr>run_done := True\<rparr>, w'))"

definition Stop_cancel :: "publisher \<Rightarrow> publisher" where
  "Stop_cancel pub = pub\<lparr>cancelled := True\<rparr>"

definition Stop_wait :: "bool \<Rightarrow> publisher \<Rightarrow> ctx \<Rightarrow> ctx_error option option" where
  "Stop_wait pick pub ctx =
     (case ctx of
        None \<Rightarrow> if run_done pub then Some None else None
      | Some e \<Rightarrow> if run_done pub \<and> pick then Some None else Some (Some e))"

section \<open>What the program relies on\<close>

text \<open>A server with these laws keeps a value under its key until its time to live (a whole number of
  milliseconds) has passed; entries only disappear as time passes, and commands on one key leave the others
  alone.\<close>

definition whole_ms :: "duration \<Rightarrow> bool" where
  "whole_ms ttl \<longleftrightarrow> 0 < ttl \<and> 1000000 dvd ttl"

definition redis_laws :: "'db redis_server \<Rightarrow> bool" where
  "redis_laws srv \<longleftrightarrow>
     (\<forall>s t db k val. srv_get srv t db k = Some val \<longrightarrow> s \<le> t \<longrightarrow> srv_get srv s db k = Some val) \<and>
     (\<forall>s t db k k' val ttl. whole_ms ttl \<longrightarrow> s \<le> t \<longrightarrow>
        srv_get srv t (srv_set srv s db k val ttl) k' =
          (if k' = k then (if t < s + ttl then Some val else None) else srv_get srv t db k')) \<and>
     (\<forall>s t db k k'. s \<le> t \<longrightarrow>
        srv_get srv t (srv_del srv s db k) k' = (if k' = k then None else srv_get srv t db k'))"

text \<open>JSON keeps a lease whose strings are valid UTF-8, and Lua's decoder finds the token Go wrote.\<close>

definition valid_utf8 :: "string \<Rightarrow> bool" where
  "valid_utf8 s \<longleftrightarrow> encode_runes (runes s) = s"

definition utf8_lease :: "lease \<Rightarrow> bool" where
  "utf8_lease l \<longleftrightarrow> valid_utf8 (GatewayID l) \<and> valid_utf8 (WebSocketURL l) \<and> valid_utf8 (Token l)"

definition json_laws ::
  "(lease \<Rightarrow> string option) \<Rightarrow> (string \<Rightarrow> lease option) \<Rightarrow> 'db redis_server \<Rightarrow> bool" where
  "json_laws marshal unmarshal srv \<longleftrightarrow>
     (\<forall>l. utf8_lease l \<longrightarrow>
        (\<exists>bytes. marshal l = Some bytes \<and> unmarshal bytes = Some l \<and> srv_token srv bytes = Inr (Some (Token l))))"

section \<open>The keys of the registry\<close>

lemma show_int_no_colon: "CHR '':'' \<notin> set (show_int i)"
proof -
  have "CHR '':'' \<notin> set (show_nat n)" for n
    using show_nat_digits [of "CHR '':''" n] by auto
  then show ?thesis by (simp add: show_int_def)
qed

lemma append_sep_inj:
  assumes "xs @ c # ys = xs' @ c # ys'" and "c \<notin> set ys" and "c \<notin> set ys'"
  shows "xs = xs' \<and> ys = ys'"
  using assms by (auto simp: append_eq_append_conv2 Cons_eq_append_conv append_eq_Cons_conv)

lemma key_inj:
  assumes "key r p = key r' p'"
  shows "keyPrefix r = keyPrefix r' \<and> p = p'"
proof -
  have "(keyPrefix r @ '':partition'') @ CHR '':'' # show_int p = (keyPrefix r' @ '':partition'') @ CHR '':'' # show_int p'"
    using assms by (simp add: key_def)
  from append_sep_inj [OF this show_int_no_colon show_int_no_colon] show ?thesis
    by (auto dest: show_int_inj)
qed

lemma key_eq_iff [simp]: "key r p = key r p' \<longleftrightarrow> p = p'"
  using key_inj by blast

section \<open>The registry interface\<close>

text \<open>\<^verbatim>\<open>routing.Registry\<close> as the publisher relies on it. \<open>view w t p\<close> is the lease that resolving partition \<open>p\<close> at instant \<open>t\<close>
  gives, \<open>now w\<close> the instant of the next call. A call that fails may or may not have taken effect, on its own
  partition only.\<close>

locale lease_registry =
  fixes ok :: "'w \<Rightarrow> bool" and lease_ok :: "lease \<Rightarrow> bool" and now :: "'w \<Rightarrow> instant"
    and view :: "'w \<Rightarrow> instant \<Rightarrow> int \<Rightarrow> lease option"
    and register :: "'w register_op" and release :: "'w release_op"
  assumes register_ok: "ok w \<Longrightarrow> lease_ok l \<Longrightarrow> whole_ms ttl \<Longrightarrow> ok (snd (register w p l ttl))"
    and release_ok: "ok w \<Longrightarrow> ok (snd (release w p tok))"
    and register_now: "ok w \<Longrightarrow> now w \<le> now (snd (register w p l ttl))"
    and release_now: "ok w \<Longrightarrow> now w \<le> now (snd (release w p tok))"
    and register_view: "ok w \<Longrightarrow> lease_ok l \<Longrightarrow> whole_ms ttl \<Longrightarrow> now w \<le> t \<Longrightarrow> fst (register w p l ttl) = None \<Longrightarrow>
      view (snd (register w p l ttl)) t p = (if t < now w + ttl then Some l else None)"
    and register_other: "ok w \<Longrightarrow> lease_ok l \<Longrightarrow> whole_ms ttl \<Longrightarrow> now w \<le> t \<Longrightarrow> q \<noteq> p \<Longrightarrow>
      view (snd (register w p l ttl)) t q = view w t q"
    and release_own: "ok w \<Longrightarrow> now w \<le> t \<Longrightarrow> fst (release w p tok) = None \<Longrightarrow>
      view (snd (release w p tok)) t p = Some l \<Longrightarrow> Token l \<noteq> tok"
    and release_foreign: "ok w \<Longrightarrow> now w \<le> t \<Longrightarrow> view w t q = Some l \<Longrightarrow> q \<noteq> p \<or> Token l \<noteq> tok \<Longrightarrow>
      view (snd (release w p tok)) t q = Some l"
    and release_sub: "ok w \<Longrightarrow> now w \<le> t \<Longrightarrow> view (snd (release w p tok)) t q = Some l \<Longrightarrow> view w t q = Some l"
begin

lemma reconcile_register_spec:
  assumes "lease_ok (pub_lease pub)" and "whole_ms (LeaseTTL (pub_config pub))"
    and "ok w" and "distinct ps" and "reconcile_register register pub nxt failed ps w = (nxt', failed', w')"
  shows "ok w' \<and> now w \<le> now w' \<and> set nxt' = set nxt \<union> set ps \<and> set failed \<subseteq> set failed' \<and> set failed' \<subseteq> set failed \<union> set ps \<and>
    (\<forall>p\<in>set ps - set failed'. \<forall>t. now w' \<le> t \<longrightarrow> t < now w + LeaseTTL (pub_config pub) \<longrightarrow> view w' t p = Some (pub_lease pub)) \<and>
    (\<forall>p t. p \<notin> set ps \<longrightarrow> now w' \<le> t \<longrightarrow> view w' t p = view w t p)"
  using assms(3-5)
proof (induction ps arbitrary: nxt failed w)
  case (Cons p ps)
  let ?l = "pub_lease pub" and ?ttl = "LeaseTTL (pub_config pub)"
  obtain e v where r: "register w p ?l ?ttl = (e, v)" by fastforce
  note rules = register_ok [OF Cons.prems(1) assms(1,2), of p] register_now [OF Cons.prems(1), of p ?l ?ttl]
    register_other [OF Cons.prems(1) assms(1,2), of _ _ p] register_view [OF Cons.prems(1) assms(1,2), of _ p]
  have v: "ok v" "now w \<le> now v" using rules(1,2) r by simp_all
  have rest: "reconcile_register register pub (key_insert p nxt) (failed @ (if e = None then [] else [p])) ps v = (nxt', failed', w')"
    using Cons.prems(3) r by (auto split: option.splits)
  note IH = Cons.IH [OF v(1) _ rest]
  have p: "p \<notin> set ps" "distinct ps" using Cons.prems(2) by simp_all
  have "view w' t p = Some ?l" if "p \<notin> set failed'" "now w' \<le> t" "t < now w + ?ttl" for t
  proof -
    have "e = None" using IH p that(1) by (auto split: if_splits)
    then show ?thesis using rules(4) [of t] IH p that v(2) r by simp
  qed
  moreover have "view w' t q = view w t q" if "q \<notin> set (p # ps)" "now w' \<le> t" for q t
    using rules(3) [of t q] IH p that v(2) r by simp
  ultimately show ?case using IH p v(2) by (auto simp: key_insert_def split: if_splits)
qed auto

lemma release_step:
  assumes "ok w" and "release w p tok = (e, v)"
  shows "ok v" "now w \<le> now v"
  using release_ok [OF assms(1), of p tok] release_now [OF assms(1), of p tok] assms(2) by simp_all

lemma release_each_ok:
  assumes "ok w" and "release_each release tok retained failed ps w = (failed', w')"
  shows "ok w' \<and> now w \<le> now w' \<and> set failed \<subseteq> set failed' \<and> set failed' \<subseteq> set failed \<union> set ps"
  using assms
proof (induction ps arbitrary: failed w)
  case (Cons p ps)
  obtain e v where r: "release w p tok = (e, v)" by fastforce
  note v = release_step [OF Cons.prems(1) r]
  show ?case
  proof (cases "p \<in> set retained")
    case False
    then have "release_each release tok retained (failed @ (if e = None then [] else [p])) ps v = (failed', w')"
      using Cons.prems(2) r by (auto split: option.splits)
    from Cons.IH [OF v(1) this] show ?thesis using v(2) by (auto split: if_splits)
  qed (use Cons in auto)
qed simp

lemmas release_each_okD = release_each_ok [THEN conjunct1] release_each_ok [THEN conjunct2, THEN conjunct1]
  release_each_ok [THEN conjunct2, THEN conjunct2, THEN conjunct1]
  release_each_ok [THEN conjunct2, THEN conjunct2, THEN conjunct2]

lemma release_each_sub:
  assumes "ok w" and "release_each release tok retained failed ps w = (failed', w')" and "now w' \<le> t"
    and "view w' t q = Some l"
  shows "view w t q = Some l"
  using assms
proof (induction ps arbitrary: failed w)
  case (Cons p ps)
  obtain e v where r: "release w p tok = (e, v)" by fastforce
  note v = release_step [OF Cons.prems(1) r]
  show ?case
  proof (cases "p \<in> set retained")
    case False
    then have rest: "release_each release tok retained (failed @ (if e = None then [] else [p])) ps v = (failed', w')"
      using Cons.prems(2) r by (auto split: option.splits)
    have "now w \<le> t" using release_each_okD(2) [OF v(1) rest] v(2) Cons.prems(3) by linarith
    then show ?thesis
      using release_sub [OF Cons.prems(1), of t p tok q l] Cons.IH [OF v(1) rest Cons.prems(3,4)] r by simp
  qed (use Cons in simp)
qed simp

lemma release_each_foreign:
  assumes "ok w" and "release_each release tok retained failed ps w = (failed', w')" and "now w' \<le> t"
    and "view w t q = Some l" and "q \<in> set retained \<or> q \<notin> set ps \<or> Token l \<noteq> tok"
  shows "view w' t q = Some l"
  using assms
proof (induction ps arbitrary: failed w)
  case (Cons p ps)
  obtain e v where r: "release w p tok = (e, v)" by fastforce
  note v = release_step [OF Cons.prems(1) r]
  show ?case
  proof (cases "p \<in> set retained")
    case False
    then have rest: "release_each release tok retained (failed @ (if e = None then [] else [p])) ps v = (failed', w')"
      using Cons.prems(2) r by (auto split: option.splits)
    have "now w \<le> t" using release_each_okD(2) [OF v(1) rest] v(2) Cons.prems(3) by linarith
    moreover have "q \<noteq> p \<or> Token l \<noteq> tok" using Cons.prems(5) False by auto
    ultimately have "view v t q = Some l"
      using release_foreign [OF Cons.prems(1), of t q l p tok] Cons.prems(4) r by simp
    then show ?thesis using Cons.IH [OF v(1) rest Cons.prems(3)] Cons.prems(5) by auto
  qed (use Cons in auto)
qed simp

lemma release_each_own:
  assumes "ok w" and "release_each release tok retained failed ps w = (failed', w')" and "now w' \<le> t"
    and "q \<in> set ps" and "q \<notin> set retained" and "q \<notin> set failed'" and "view w' t q = Some l"
  shows "Token l \<noteq> tok"
  using assms
proof (induction ps arbitrary: failed w)
  case (Cons p ps)
  obtain e v where r: "release w p tok = (e, v)" by fastforce
  note v = release_step [OF Cons.prems(1) r]
  show ?case
  proof (cases "p \<in> set retained")
    case False
    then have rest: "release_each release tok retained (failed @ (if e = None then [] else [p])) ps v = (failed', w')"
      using Cons.prems(2) r by (auto split: option.splits)
    show ?thesis
    proof (cases "q \<in> set ps")
      case True
      then show ?thesis using Cons.IH [OF v(1) rest Cons.prems(3)] Cons.prems by blast
    next
      case notin: False
      then have "q = p" using Cons.prems(4) by simp
      moreover from this have "e = None" using release_each_okD(3) [OF v(1) rest] Cons.prems(6) by (auto split: if_splits)
      moreover have "view v t q = Some l" using release_each_sub [OF v(1) rest Cons.prems(3,7)] .
      moreover have "now w \<le> t" using release_each_okD(2) [OF v(1) rest] v(2) Cons.prems(3) by linarith
      ultimately show ?thesis using release_own [OF Cons.prems(1), of t p tok l] r by simp
    qed
  qed (use Cons in auto)
qed simp

lemmas release_each_spec = release_each_okD release_each_sub release_each_foreign release_each_own

lemma reconcile_parts:
  assumes "lease_ok (pub_lease pub)" and "whole_ms (LeaseTTL (pub_config pub))"
    and "ok w" and "distinct assigned" and "reconcile register release pub assigned order w = (nxt, rf, lf, w')"
  obtains w1 where "reconcile_register register pub [] [] assigned w = (nxt, rf, w1)"
    "release_each release (Token (pub_lease pub)) nxt [] order w1 = (lf, w')"
    "ok w1" "now w \<le> now w1" "set nxt = set assigned"
proof -
  obtain w1 where 1: "reconcile_register register pub [] [] assigned w = (nxt, rf, w1)"
    and 2: "release_each release (Token (pub_lease pub)) nxt [] order w1 = (lf, w')"
    using assms(5) by (auto simp: reconcile_def split: prod.splits)
  from reconcile_register_spec [OF assms(1-4) 1] show thesis by (intro that [OF 1 2]) auto
qed

lemma reconcile_owned:
  assumes "lease_ok (pub_lease pub)" and "whole_ms (LeaseTTL (pub_config pub))"
    and "ok w" and "distinct assigned" and "reconcile register release pub assigned order w = (nxt, rf, lf, w')"
    and "p \<in> set assigned" and "p \<notin> set rf" and "now w' \<le> t" and "t < now w + LeaseTTL (pub_config pub)"
  shows "view w' t p = Some (pub_lease pub)"
proof -
  obtain w1 where w1: "reconcile_register register pub [] [] assigned w = (nxt, rf, w1)"
    "release_each release (Token (pub_lease pub)) nxt [] order w1 = (lf, w')" "ok w1" "set nxt = set assigned"
    using reconcile_parts [OF assms(1-5)] by metis
  have t: "now w1 \<le> t" using release_each_okD(2) [OF w1(3,2)] assms(8) by simp
  have "view w1 t p = Some (pub_lease pub)"
    using reconcile_register_spec [OF assms(1-4) w1(1)] assms(6,7,9) t by blast
  then show ?thesis using release_each_foreign [OF w1(3,2) assms(8)] w1(4) assms(6) by simp
qed

lemma reconcile_stale:
  assumes "lease_ok (pub_lease pub)" and "whole_ms (LeaseTTL (pub_config pub))"
    and "ok w" and "distinct assigned" and "reconcile register release pub assigned order w = (nxt, rf, lf, w')"
    and "p \<in> set order" and "p \<notin> set assigned" and "p \<notin> set lf" and "now w' \<le> t" and "view w' t p = Some l"
  shows "Token l \<noteq> Token (pub_lease pub)"
proof -
  obtain w1 where w1: "release_each release (Token (pub_lease pub)) nxt [] order w1 = (lf, w')" "ok w1" "set nxt = set assigned"
    using reconcile_parts [OF assms(1-5)] by metis
  show ?thesis using release_each_own [OF w1(2,1) assms(9,6) _ assms(8,10)] w1(3) assms(7) by simp
qed

lemma reconcile_foreign:
  assumes "lease_ok (pub_lease pub)" and "whole_ms (LeaseTTL (pub_config pub))"
    and "ok w" and "distinct assigned" and "reconcile register release pub assigned order w = (nxt, rf, lf, w')"
    and "p \<notin> set assigned" and "now w' \<le> t" and "view w t p = Some l" and "Token l \<noteq> Token (pub_lease pub)"
  shows "view w' t p = Some l"
proof -
  obtain w1 where w1: "reconcile_register register pub [] [] assigned w = (nxt, rf, w1)"
    "release_each release (Token (pub_lease pub)) nxt [] order w1 = (lf, w')" "ok w1"
    using reconcile_parts [OF assms(1-5)] by metis
  have "now w1 \<le> t" using release_each_okD(2) [OF w1(3,2)] assms(7) by simp
  then have "view w1 t p = Some l"
    using reconcile_register_spec [OF assms(1-4) w1(1)] assms(6,8) by metis
  then show ?thesis using release_each_foreign [OF w1(3,2) assms(7)] assms(9) by blast
qed

lemma reconcile_ok:
  assumes "lease_ok (pub_lease pub)" and "whole_ms (LeaseTTL (pub_config pub))"
    and "ok w" and "distinct assigned" and "reconcile register release pub assigned order w = (nxt, rf, lf, w')"
  shows "ok w'" "now w \<le> now w'" "set nxt = set assigned"
proof -
  obtain w1 where w1: "reconcile_register register pub [] [] assigned w = (nxt, rf, w1)"
    "release_each release (Token (pub_lease pub)) nxt [] order w1 = (lf, w')" "ok w1" "now w \<le> now w1" "set nxt = set assigned"
    using reconcile_parts [OF assms(1-5)] by metis
  then show "ok w'" "now w \<le> now w'" "set nxt = set assigned"
    using release_each_okD(1,2) [OF w1(3,2)] by simp_all
qed

end

text \<open>The world of one gateway's registry: the data base, the number of the next call, and for every call the
  state of the link and the server's clock.\<close>

record 'db redis_world =
  w_db :: 'db
  w_calls :: nat
  w_link :: "nat \<Rightarrow> link"
  w_clock :: "nat \<Rightarrow> instant"

definition w_register ::
  "(string \<Rightarrow> url option) \<Rightarrow> (lease \<Rightarrow> string option) \<Rightarrow> 'db redis_server \<Rightarrow> redis_registry \<Rightarrow> 'db redis_world register_op" where
  "w_register parse marshal srv reg w p l ttl =
     (case Register parse marshal srv reg (w_link w (w_calls w)) (w_clock w (w_calls w)) (w_db w) p l ttl of
        (e, db) \<Rightarrow> (e, w\<lparr>w_db := db, w_calls := Suc (w_calls w)\<rparr>))"

definition w_release :: "'db redis_server \<Rightarrow> redis_registry \<Rightarrow> 'db redis_world release_op" where
  "w_release srv reg w p tok =
     (case Release srv reg (w_link w (w_calls w)) (w_clock w (w_calls w)) (w_db w) p tok of
        (e, db) \<Rightarrow> (e, w\<lparr>w_db := db, w_calls := Suc (w_calls w)\<rparr>))"

definition w_now :: "'db redis_world \<Rightarrow> instant" where
  "w_now w = w_clock w (w_calls w)"

text \<open>The answer of \<^verbatim>\<open>Resolve\<close> over a healthy link.\<close>

definition w_view ::
  "(string \<Rightarrow> url option) \<Rightarrow> (string \<Rightarrow> lease option) \<Rightarrow> 'db redis_server \<Rightarrow> redis_registry \<Rightarrow> 'db redis_world
    \<Rightarrow> instant \<Rightarrow> int \<Rightarrow> lease option" where
  "w_view parse unmarshal srv reg w t p =
     (case Resolve parse unmarshal srv reg Up t (w_db w) p of Inl _ \<Rightarrow> None | Inr l \<Rightarrow> Some l)"

definition lease_ok :: "(string \<Rightarrow> url option) \<Rightarrow> lease \<Rightarrow> bool" where
  "lease_ok parse l \<longleftrightarrow> validLease parse l \<and> utf8_lease l"

text \<open>Every value under a key of the registry was written by \<^verbatim>\<open>Register\<close>.\<close>

definition stored_ok ::
  "(string \<Rightarrow> url option) \<Rightarrow> (lease \<Rightarrow> string option) \<Rightarrow> 'db redis_server \<Rightarrow> redis_registry \<Rightarrow> 'db \<Rightarrow> instant \<Rightarrow> bool" where
  "stored_ok parse marshal srv reg db t0 \<longleftrightarrow>
     (\<forall>t p bytes. t0 \<le> t \<longrightarrow> srv_get srv t db (key reg p) = Some bytes \<longrightarrow> (\<exists>l. lease_ok parse l \<and> marshal l = Some bytes))"

definition world_ok ::
  "(string \<Rightarrow> url option) \<Rightarrow> (lease \<Rightarrow> string option) \<Rightarrow> (string \<Rightarrow> lease option) \<Rightarrow> 'db redis_server \<Rightarrow> redis_registry
    \<Rightarrow> 'db redis_world \<Rightarrow> bool" where
  "world_ok parse marshal unmarshal srv reg w \<longleftrightarrow>
     redis_laws srv \<and> json_laws marshal unmarshal srv \<and> client_set reg \<and> mono (w_clock w) \<and>
     stored_ok parse marshal srv reg (w_db w) (w_now w)"

section \<open>The Redis registry implements the interface\<close>

lemma redis_lawsD:
  assumes "redis_laws srv"
  shows "srv_get srv t db k = Some val \<Longrightarrow> s \<le> t \<Longrightarrow> srv_get srv s db k = Some val"
    and "whole_ms ttl \<Longrightarrow> s \<le> t \<Longrightarrow> srv_get srv t (srv_set srv s db k val ttl) k' =
          (if k' = k then (if t < s + ttl then Some val else None) else srv_get srv t db k')"
    and "s \<le> t \<Longrightarrow> srv_get srv t (srv_del srv s db k) k' = (if k' = k then None else srv_get srv t db k')"
  using assms unfolding redis_laws_def by blast+

lemma json_lawsD:
  assumes "json_laws marshal unmarshal srv" and "lease_ok parse l"
  obtains bytes where "marshal l = Some bytes" "unmarshal bytes = Some l" "srv_token srv bytes = Inr (Some (Token l))"
  using assms unfolding json_laws_def lease_ok_def by blast

lemma w_view_Some_iff:
  assumes "json_laws marshal unmarshal srv" and "client_set reg" and "stored_ok parse marshal srv reg (w_db w) t0" and "t0 \<le> t"
  shows "w_view parse unmarshal srv reg w t p = Some l \<longleftrightarrow>
    0 \<le> p \<and> lease_ok parse l \<and> (\<exists>bytes. srv_get srv t (w_db w) (key reg p) = Some bytes \<and> marshal l = Some bytes)"
proof (cases "srv_get srv t (w_db w) (key reg p)")
  case None
  then show ?thesis by (simp add: w_view_def Resolve_def redis_call_def)
next
  case (Some bytes)
  then obtain l0 where l0: "lease_ok parse l0" "marshal l0 = Some bytes" using assms(3,4) unfolding stored_ok_def by blast
  have u: "unmarshal bytes = Some l0" by (rule json_lawsD [OF assms(1) l0(1)]) (use l0 in simp)
  have "l = l0" if "lease_ok parse l" "marshal l = Some bytes"
    by (rule json_lawsD [OF assms(1) that(1)]) (use that u in simp)
  then have l: "lease_ok parse l \<and> marshal l = Some bytes \<longleftrightarrow> l0 = l" using l0 by blast
  have "w_view parse unmarshal srv reg w t p = Some l \<longleftrightarrow> 0 \<le> p \<and> l0 = l"
    using Some u l0(1) assms(2) by (simp add: w_view_def Resolve_def redis_call_def lease_ok_def)
  then show ?thesis using Some l by auto
qed

lemma Register_cases:
  assumes "Register parse marshal srv reg lnk now db p l ttl = (e, db')"
  shows "db' = db \<and> e \<noteq> None \<or>
    (\<exists>bytes. marshal l = Some bytes \<and> 0 \<le> p \<and> db' = srv_set srv now db (key reg p) bytes ttl)"
  using assms by (auto simp: Register_def redis_call_def split: if_splits option.splits link.splits)

lemma Release_cases:
  assumes "Release srv reg lnk now db p tok = (e, db')"
  obtains (lost) "db' = db" "e \<noteq> None"
  | (absent) "db' = db" "srv_get srv now db (key reg p) = None"
  | (other) val tok' where "db' = db" "srv_get srv now db (key reg p) = Some val" "srv_token srv val = Inr tok'" "tok' \<noteq> Some tok"
  | (deleted) val where "db' = srv_del srv now db (key reg p)" "srv_get srv now db (key reg p) = Some val"
      "srv_token srv val = Inr (Some tok)"
  using assms
  by (auto simp: Release_def redis_call_def releaseLeaseScript_def split: if_splits option.splits link.splits sum.splits)

lemma stored_ok_later: "stored_ok parse marshal srv reg db t0 \<Longrightarrow> t0 \<le> t1 \<Longrightarrow> stored_ok parse marshal srv reg db t1"
  unfolding stored_ok_def by (meson order_trans)

lemma stored_ok_set:
  assumes "redis_laws srv" and "stored_ok parse marshal srv reg db t0" and "lease_ok parse l" and "marshal l = Some bytes"
    and "whole_ms ttl"
  shows "stored_ok parse marshal srv reg (srv_set srv t0 db k bytes ttl) t0"
  using assms(2-4) unfolding stored_ok_def by (simp add: redis_lawsD(2) [OF assms(1,5)]) (metis option.distinct(1) option.inject)

lemma stored_ok_del:
  assumes "redis_laws srv" and "stored_ok parse marshal srv reg db t0"
  shows "stored_ok parse marshal srv reg (srv_del srv t0 db k) t0"
  using assms(2) unfolding stored_ok_def by (simp add: redis_lawsD(3) [OF assms(1)])

lemma clock_next: "mono (w_clock w) \<Longrightarrow> w_clock w (w_calls w) \<le> w_clock w (Suc (w_calls w))"
  by (simp add: monoD)

text \<open>What the publisher's registry does to the data base.\<close>

lemma world_register:
  assumes "world_ok parse marshal unmarshal srv reg w" and "lease_ok parse l" and "whole_ms ttl"
    and "w_register parse marshal srv reg w p l ttl = (e, w')"
  shows "world_ok parse marshal unmarshal srv reg w'" "w_now w \<le> w_now w'"
    "w_db w' = w_db w \<and> e \<noteq> None \<or>
     (\<exists>bytes. marshal l = Some bytes \<and> 0 \<le> p \<and> w_db w' = srv_set srv (w_now w) (w_db w) (key reg p) bytes ttl)"
proof -
  obtain db where r: "Register parse marshal srv reg (w_link w (w_calls w)) (w_now w) (w_db w) p l ttl = (e, db)"
    and w': "w' = w\<lparr>w_db := db, w_calls := Suc (w_calls w)\<rparr>"
    using assms(4) by (auto simp: w_register_def w_now_def split: prod.splits)
  have ok: "redis_laws srv" "mono (w_clock w)" "stored_ok parse marshal srv reg (w_db w) (w_now w)"
    using assms(1) by (auto simp: world_ok_def)
  show n: "w_now w \<le> w_now w'" using clock_next [OF ok(2)] by (simp add: w' w_now_def)
  show c: "w_db w' = w_db w \<and> e \<noteq> None \<or>
     (\<exists>bytes. marshal l = Some bytes \<and> 0 \<le> p \<and> w_db w' = srv_set srv (w_now w) (w_db w) (key reg p) bytes ttl)"
    using Register_cases [OF r] by (simp add: w')
  have "stored_ok parse marshal srv reg (w_db w') (w_now w)"
    using c ok stored_ok_set [OF ok(1,3) assms(2) _ assms(3)] by auto
  then show "world_ok parse marshal unmarshal srv reg w'"
    using stored_ok_later [OF _ n] assms(1) by (simp add: world_ok_def w')
qed

lemma world_release:
  assumes "world_ok parse marshal unmarshal srv reg w" and "w_release srv reg w p tok = (e, w')"
  shows "world_ok parse marshal unmarshal srv reg w'" "w_now w \<le> w_now w'"
    "Release srv reg (w_link w (w_calls w)) (w_now w) (w_db w) p tok = (e, w_db w')"
proof -
  show r: "Release srv reg (w_link w (w_calls w)) (w_now w) (w_db w) p tok = (e, w_db w')"
    using assms(2) by (auto simp: w_release_def w_now_def split: prod.splits)
  have w': "w_calls w' = Suc (w_calls w)" "w_clock w' = w_clock w"
    using assms(2) by (auto simp: w_release_def split: prod.splits)
  have ok: "redis_laws srv" "mono (w_clock w)" "stored_ok parse marshal srv reg (w_db w) (w_now w)"
    using assms(1) by (auto simp: world_ok_def)
  show n: "w_now w \<le> w_now w'" using clock_next [OF ok(2)] by (simp add: w' w_now_def)
  have "stored_ok parse marshal srv reg (w_db w') (w_now w)"
    using r by (cases rule: Release_cases) (use ok stored_ok_del [OF ok(1,3)] in auto)
  then show "world_ok parse marshal unmarshal srv reg w'"
    using stored_ok_later [OF _ n] assms(1) by (simp add: world_ok_def w')
qed

lemma world_view_iff:
  assumes "world_ok parse marshal unmarshal srv reg w" and "w_now w \<le> t"
  shows "w_view parse unmarshal srv reg w t p = Some l \<longleftrightarrow>
    0 \<le> p \<and> lease_ok parse l \<and> (\<exists>bytes. srv_get srv t (w_db w) (key reg p) = Some bytes \<and> marshal l = Some bytes)"
  using assms by (intro w_view_Some_iff) (auto simp: world_ok_def)

lemma world_view_cong:
  assumes "world_ok parse marshal unmarshal srv reg w" and "srv_get srv t (w_db w') (key reg p) = srv_get srv t (w_db w) (key reg p)"
  shows "w_view parse unmarshal srv reg w' t p = w_view parse unmarshal srv reg w t p"
  using assms(2) by (simp add: w_view_def Resolve_def redis_call_def)

lemma world_register_view:
  assumes ok: "world_ok parse marshal unmarshal srv reg w" and l: "lease_ok parse l" and ttl: "whole_ms ttl"
    and r: "w_register parse marshal srv reg w p l ttl = (None, w')" and t: "w_now w \<le> t"
  shows "w_view parse unmarshal srv reg w' t p = (if t < w_now w + ttl then Some l else None)"
proof -
  have laws: "redis_laws srv" "json_laws marshal unmarshal srv" "client_set reg" using ok by (auto simp: world_ok_def)
  obtain bytes where b: "marshal l = Some bytes" "0 \<le> p" "w_db w' = srv_set srv (w_now w) (w_db w) (key reg p) bytes ttl"
    using world_register(3) [OF ok l ttl r] by blast
  have u: "unmarshal bytes = Some l" by (rule json_lawsD [OF laws(2) l]) (use b in simp)
  have "srv_get srv t (w_db w') (key reg p) = (if t < w_now w + ttl then Some bytes else None)"
    using redis_lawsD(2) [OF laws(1) ttl t] b(3) by simp
  then show ?thesis using b(2) u l laws(3) by (simp add: w_view_def Resolve_def redis_call_def lease_ok_def)
qed

lemma world_register_other:
  assumes ok: "world_ok parse marshal unmarshal srv reg w" and l: "lease_ok parse l" and ttl: "whole_ms ttl"
    and r: "w_register parse marshal srv reg w p l ttl = (e, w')" and t: "w_now w \<le> t" and q: "q \<noteq> p"
  shows "w_view parse unmarshal srv reg w' t q = w_view parse unmarshal srv reg w t q"
proof (rule world_view_cong [OF ok])
  have "redis_laws srv" using ok by (simp add: world_ok_def)
  then show "srv_get srv t (w_db w') (key reg q) = srv_get srv t (w_db w) (key reg q)"
    using world_register(3) [OF ok l ttl r] q by (auto simp: redis_lawsD(2) [OF _ ttl t])
qed

lemma world_release_view:
  assumes ok: "world_ok parse marshal unmarshal srv reg w" and r: "w_release srv reg w p tok = (e, w')" and t: "w_now w \<le> t"
  shows "e = None \<Longrightarrow> w_view parse unmarshal srv reg w' t p = Some l \<Longrightarrow> Token l \<noteq> tok"
    and "w_view parse unmarshal srv reg w t q = Some l \<Longrightarrow> q \<noteq> p \<or> Token l \<noteq> tok \<Longrightarrow> w_view parse unmarshal srv reg w' t q = Some l"
    and "w_view parse unmarshal srv reg w' t q = Some l \<Longrightarrow> w_view parse unmarshal srv reg w t q = Some l"
proof -
  have laws: "redis_laws srv" "json_laws marshal unmarshal srv" using ok by (auto simp: world_ok_def)
  note w' = world_release [OF ok r]
  let ?get = "\<lambda>db q. srv_get srv t db (key reg q)"
  have tok: "srv_token srv bytes = Inr (Some (Token l))" if "lease_ok parse l" "marshal l = Some bytes" for l bytes
    by (rule json_lawsD [OF laws(2) that(1)]) (use that in simp)
  have view: "w_view parse unmarshal srv reg w t q = Some l \<longleftrightarrow>
      0 \<le> q \<and> lease_ok parse l \<and> (\<exists>bytes. ?get (w_db w) q = Some bytes \<and> marshal l = Some bytes)" for q l
    using world_view_iff [OF ok t] .
  have at_now: "srv_get srv (w_now w) (w_db w) (key reg q) = Some bytes" if "?get (w_db w) q = Some bytes" for q bytes
    using redis_lawsD(1) [OF laws(1) that t] .
  have del: "?get (srv_del srv (w_now w) (w_db w) (key reg p)) q = (if q = p then None else ?get (w_db w) q)" for q
    using redis_lawsD(3) [OF laws(1) t] by simp
  have same: "w_view parse unmarshal srv reg w' t q = w_view parse unmarshal srv reg w t q"
    if "?get (w_db w') q = ?get (w_db w) q" for q
    using world_view_cong [OF ok that] .
  have none: "w_view parse unmarshal srv reg w' t q = None" if "?get (w_db w') q = None" for q
    using that by (simp add: w_view_def Resolve_def redis_call_def)
  show "w_view parse unmarshal srv reg w' t q = Some l \<Longrightarrow> w_view parse unmarshal srv reg w t q = Some l"
    using w'(3) by (cases rule: Release_cases) (use same [of q] none [of q] del [of q] in \<open>auto split: if_splits\<close>)
  show "Token l \<noteq> tok" if e: "e = None" and v: "w_view parse unmarshal srv reg w' t p = Some l"
    using w'(3)
  proof (cases rule: Release_cases)
    case lost then show ?thesis using e by simp
  next
    case absent
    then show ?thesis using v same view at_now by fastforce
  next
    case (other val tok')
    then show ?thesis using v same [of p] view [of p l] at_now [of p] tok [of l] by auto
  next
    case deleted then show ?thesis using v none [of p] del [of p] by simp
  qed
  show "w_view parse unmarshal srv reg w' t q = Some l"
    if v: "w_view parse unmarshal srv reg w t q = Some l" and q: "q \<noteq> p \<or> Token l \<noteq> tok"
    using w'(3)
  proof (cases rule: Release_cases)
    case (deleted val)
    have "q \<noteq> p" using v view [of q l] at_now [of q] tok [of l] deleted q by auto
    then show ?thesis using same [of q] del [of q] deleted v by simp
  qed (use v same in auto)
qed

interpretation redis: lease_registry "world_ok parse marshal unmarshal srv reg" "lease_ok parse" w_now
  "w_view parse unmarshal srv reg" "w_register parse marshal srv reg" "w_release srv reg"
  for parse marshal unmarshal srv reg
proof unfold_locales
  fix w l ttl p tok t q
  assume ok: "world_ok parse marshal unmarshal srv reg w"
  obtain e w' where r: "w_register parse marshal srv reg w p l ttl = (e, w')" by fastforce
  obtain f w'' where s: "w_release srv reg w p tok = (f, w'')" by fastforce
  show "w_now w \<le> w_now (snd (w_register parse marshal srv reg w p l ttl))"
    using clock_next [of w] ok by (simp add: w_register_def w_now_def world_ok_def split: prod.split)
  show "world_ok parse marshal unmarshal srv reg (snd (w_release srv reg w p tok))"
    "w_now w \<le> w_now (snd (w_release srv reg w p tok))"
    using world_release [OF ok s] s by simp_all
  assume t: "w_now w \<le> t"
  show "Token l \<noteq> tok" if "fst (w_release srv reg w p tok) = None"
    "w_view parse unmarshal srv reg (snd (w_release srv reg w p tok)) t p = Some l"
    using world_release_view(1) [OF ok s t] s that by simp
  show "w_view parse unmarshal srv reg (snd (w_release srv reg w p tok)) t q = Some l"
    if "w_view parse unmarshal srv reg w t q = Some l" "q \<noteq> p \<or> Token l \<noteq> tok"
    using world_release_view(2) [OF ok s t] s that by simp
  show "w_view parse unmarshal srv reg w t q = Some l"
    if "w_view parse unmarshal srv reg (snd (w_release srv reg w p tok)) t q = Some l"
    using world_release_view(3) [OF ok s t] s that by simp
next
  fix w l ttl p t q
  assume ok: "world_ok parse marshal unmarshal srv reg w" and l: "lease_ok parse l" and ttl: "whole_ms ttl"
  obtain e w' where r: "w_register parse marshal srv reg w p l ttl = (e, w')" by fastforce
  show "world_ok parse marshal unmarshal srv reg (snd (w_register parse marshal srv reg w p l ttl))"
    using world_register(1) [OF ok l ttl r] r by simp
  assume t: "w_now w \<le> t"
  show "w_view parse unmarshal srv reg (snd (w_register parse marshal srv reg w p l ttl)) t p =
      (if t < w_now w + ttl then Some l else None)"
    if "fst (w_register parse marshal srv reg w p l ttl) = None"
    using world_register_view [OF ok l ttl _ t] r that by simp
  show "w_view parse unmarshal srv reg (snd (w_register parse marshal srv reg w p l ttl)) t q = w_view parse unmarshal srv reg w t q"
    if "q \<noteq> p"
    using world_register_other [OF ok l ttl r t that] r by simp
qed

section \<open>The publisher beside a changing ownership\<close>

text \<open>The publisher's loop next to the Kafka bus: ownership updates may fall between reading the revision and
  reading the assignments. \<open>ps_updates\<close> counts the ownership updates.\<close>

record 'w pub_sys =
  ps_bus :: kafka_bus
  ps_updates :: nat
  ps_vars :: run_vars
  ps_pending :: "(instant \<times> uint64) option"
  ps_world :: 'w

inductive pub_step :: "'w register_op \<Rightarrow> 'w release_op \<Rightarrow> publisher \<Rightarrow> 'w pub_sys \<Rightarrow> 'w pub_sys \<Rightarrow> bool"
  for register release pub where
  ps_own: "own_step (ps_bus s) k b' \<Longrightarrow>
    pub_step register release pub s (s\<lparr>ps_bus := b', ps_updates := ps_updates s + k\<rparr>)"
| ps_look: "ps_pending s = None \<Longrightarrow>
    pub_step register release pub s (s\<lparr>ps_pending := Some (now, OwnershipRevision (Some (ps_bus s)))\<rparr>)"
| ps_turn: "ps_pending s = Some (now, rvn) \<Longrightarrow> set order = set (published (ps_vars s)) \<Longrightarrow>
    run_turn register release pub now rvn (AssignedPartitions (Some (ps_bus s))) order (ps_vars s, ps_world s) = (v, w) \<Longrightarrow>
    pub_step register release pub s (s\<lparr>ps_vars := v, ps_world := w, ps_pending := None\<rparr>)"

inductive pub_reach :: "'w register_op \<Rightarrow> 'w release_op \<Rightarrow> publisher \<Rightarrow> 'w pub_sys \<Rightarrow> bool"
  for register release pub where
  ps_init: "NewKafka cfg = (Inr b :: unit kafka_bus_error + kafka_bus) \<Longrightarrow>
    pub_reach register release pub
      \<lparr>ps_bus = b, ps_updates = 0, ps_vars = run_init, ps_pending = None, ps_world = w\<rparr>"
| ps_next: "pub_reach register release pub s \<Longrightarrow> pub_step register release pub s s' \<Longrightarrow> pub_reach register release pub s'"

definition pub_inv :: "'w pub_sys \<Rightarrow> bool" where
  "pub_inv s \<longleftrightarrow>
     OwnershipRevision (Some (ps_bus s)) = of_nat (ps_updates s) \<and>
     (\<forall>now rvn. ps_pending s = Some (now, rvn) \<longrightarrow> (\<exists>m\<le>ps_updates s. rvn = of_nat m)) \<and>
     (ps_vars s = run_init \<or>
      (\<exists>m\<le>ps_updates s. lastRevision (ps_vars s) = of_nat m \<and>
         (m = ps_updates s \<longrightarrow> set (published (ps_vars s)) = set (AssignedPartitions (Some (ps_bus s))))))"

lemma reconcile_register_keys:
  "reconcile_register register pub nxt failed ps w = (nxt', failed', w') \<Longrightarrow> set nxt' = set nxt \<union> set ps"
  by (induction register pub nxt failed ps w rule: reconcile_register.induct)
    (auto simp: key_insert_def split: prod.splits option.splits if_splits)

lemma reconcile_keys: "reconcile register release pub assigned order w = (nxt, rf, lf, w') \<Longrightarrow> set nxt = set assigned"
  by (auto simp: reconcile_def dest: reconcile_register_keys split: prod.splits)

lemma own_step_assigned: "own_step b 0 b' \<Longrightarrow> AssignedPartitions (Some b') = AssignedPartitions (Some b)"
  using own_step_facts(3) [of b 0 b'] by (simp add: AssignedPartitions_def)

lemma pub_step_inv:
  assumes "pub_step register release pub s s'" and "pub_inv s"
  shows "pub_inv s'"
  using assms
proof (induction rule: pub_step.induct)
  case (ps_own s k b')
  have rvn: "OwnershipRevision (Some b') = OwnershipRevision (Some (ps_bus s)) + of_nat k"
    using own_step_facts(1) [OF ps_own(1)] by (simp add: OwnershipRevision_def)
  have vars: "\<exists>m\<le>ps_updates s + k. lastRevision (ps_vars s) = of_nat m \<and>
      (m = ps_updates s + k \<longrightarrow> set (published (ps_vars s)) = set (AssignedPartitions (Some b')))"
    if "m \<le> ps_updates s" "lastRevision (ps_vars s) = of_nat m"
      "m = ps_updates s \<longrightarrow> set (published (ps_vars s)) = set (AssignedPartitions (Some (ps_bus s)))" for m
  proof (intro exI [of _ m] conjI impI)
    assume "m = ps_updates s + k"
    then have "k = 0" "m = ps_updates s" using that(1) by simp_all
    then show "set (published (ps_vars s)) = set (AssignedPartitions (Some b'))"
      using that(3) own_step_assigned [of "ps_bus s" b'] ps_own(1) by simp
  qed (use that in auto)
  have pend: "\<exists>m\<le>ps_updates s + k. r = of_nat m" if "ps_pending s = Some (now, r)" for now r
    using ps_own(2) that unfolding pub_inv_def by (meson trans_le_add1)
  from ps_own(2) have "ps_vars s = run_init \<or> (\<exists>m\<le>ps_updates s + k. lastRevision (ps_vars s) = of_nat m \<and>
      (m = ps_updates s + k \<longrightarrow> set (published (ps_vars s)) = set (AssignedPartitions (Some b'))))"
    unfolding pub_inv_def using vars by blast
  moreover have "OwnershipRevision (Some b') = of_nat (ps_updates s + k)" using ps_own(2) rvn by (simp add: pub_inv_def)
  ultimately show ?case unfolding pub_inv_def using pend by simp
next
  case (ps_look s now)
  then show ?case by (auto simp: pub_inv_def)
next
  case (ps_turn s now rvn order v w)
  show ?case
  proof (cases "reconcile_due pub (ps_vars s) now rvn")
    case False
    then have "v = ps_vars s" using ps_turn(3) by (simp add: run_turn_def)
    then show ?thesis using ps_turn(4) by (simp add: pub_inv_def)
  next
    case True
    obtain nxt rf lf w' where r: "reconcile register release pub (AssignedPartitions (Some (ps_bus s))) order (ps_world s) = (nxt, rf, lf, w')"
      by (metis prod_cases4)
    then have "v = \<lparr>lastRevision = rvn, lastRefresh = now, published = nxt\<rparr>"
      using ps_turn(3) True by (simp add: run_turn_def)
    moreover obtain m where "m \<le> ps_updates s" "rvn = of_nat m" using ps_turn(1,4) by (auto simp: pub_inv_def)
    ultimately show ?thesis using ps_turn(4) reconcile_keys [OF r] by (auto simp: pub_inv_def)
  qed
qed

lemma pub_reach_inv: "pub_reach register release pub s \<Longrightarrow> pub_inv s"
proof (induction rule: pub_reach.induct)
  case (ps_init cfg b w)
  then show ?case by (auto simp: pub_inv_def NewKafka_def OwnershipRevision_def split: if_splits)
qed (blast intro: pub_step_inv)

text \<open>Turns of the loop that start at most \<open>d\<close> apart, from the instant \<open>s\<close> on.\<close>

fun spaced :: "duration \<Rightarrow> instant \<Rightarrow> instant list \<Rightarrow> bool" where
  "spaced d s [] = True"
| "spaced d s (t # ts) = (s \<le> t \<and> t \<le> s + d \<and> spaced d t ts)"

lemma spaced_snoc: "spaced d s (xs @ [t]) \<longleftrightarrow> spaced d s xs \<and> last (s # xs) \<le> t \<and> t \<le> last (s # xs) + d"
  by (induction xs arbitrary: s) auto

lemma spaced_le: "spaced d s xs \<Longrightarrow> x \<in> set xs \<Longrightarrow> s \<le> x"
  by (induction xs arbitrary: s) force+

lemma not_due_recent:
  assumes "\<not> reconcile_due pub v now rvn" and "lastRefresh v \<le> now" and "LeaseTTL (pub_config pub) < 2 ^ 63"
  shows "now < lastRefresh v + LeaseTTL (pub_config pub) div 3"
  using assms by (auto simp: reconcile_due_def time_sub_def max_def min_def split: if_splits)

section \<open>An example server\<close>

text \<open>A server that meets the laws, for the witnesses: entries with a deadline, and a codec that quotes every
  character.\<close>

definition enc_field :: "string \<Rightarrow> string" where
  "enc_field s = concat (map (\<lambda>c. [CHR ''x'', c]) s) @ '';''"

fun dec_field :: "string \<Rightarrow> (string \<times> string) option" where
  "dec_field [] = None"
| "dec_field [a] = (if a = CHR '';'' then Some ([], []) else None)"
| "dec_field (a # c # r) =
     (if a = CHR '';'' then Some ([], c # r) else map_option (\<lambda>(s, r'). (c # s, r')) (dec_field r))"

lemma dec_enc_field: "dec_field (enc_field s @ r) = Some (s, r)"
proof (induction s)
  case Nil
  show ?case by (cases r) (simp_all add: enc_field_def)
qed (simp add: enc_field_def)

definition ex_marshal :: "lease \<Rightarrow> string option" where
  "ex_marshal l = Some (enc_field (Token l) @ enc_field (GatewayID l) @ enc_field (WebSocketURL l))"

definition ex_unmarshal :: "string \<Rightarrow> lease option" where
  "ex_unmarshal s =
     (case dec_field s of None \<Rightarrow> None
      | Some (t, r) \<Rightarrow> (case dec_field r of None \<Rightarrow> None
        | Some (g, r') \<Rightarrow> (case dec_field r' of None \<Rightarrow> None
          | Some (u, r'') \<Rightarrow> Some \<lparr>GatewayID = g, WebSocketURL = u, Token = t\<rparr>)))"

definition ex_server :: "(string \<Rightarrow> (string \<times> instant) option) redis_server" where
  "ex_server =
     \<lparr>srv_set = (\<lambda>now db k val ttl. db(k := Some (val, now + ttl))),
      srv_get = (\<lambda>now db k. case db k of None \<Rightarrow> None | Some (val, deadline) \<Rightarrow> if now < deadline then Some val else None),
      srv_del = (\<lambda>now db k. db(k := None)),
      srv_token = (\<lambda>val. case dec_field val of None \<Rightarrow> Inl (RedisError ''decode'') | Some (t, _) \<Rightarrow> Inr (Some t))\<rparr>"

definition ex_parse :: "string \<Rightarrow> url option" where
  "ex_parse u = (if u = ''ws://gw/ws'' then Some \<lparr>Scheme = ''ws'', Host = ''gw'', HasUser = False, RawQuery = [], Fragment = []\<rparr> else None)"

definition ex_registry :: redis_registry where
  "ex_registry = \<lparr>client_set = True, keyPrefix = ''danmuflow:routing''\<rparr>"

definition ex_lease :: "string \<Rightarrow> lease" where
  "ex_lease tok = \<lparr>GatewayID = ''gw'', WebSocketURL = ''ws://gw/ws'', Token = tok\<rparr>"

definition ex_world :: "(string \<Rightarrow> (string \<times> instant) option) redis_world" where
  "ex_world = \<lparr>w_db = (\<lambda>k. None), w_calls = 0, w_link = (\<lambda>n. Up), w_clock = int\<rparr>"

definition ex_publisher :: publisher where
  "ex_publisher = \<lparr>pub_lease = ex_lease ''ab'',
     pub_config = \<lparr>pub_GatewayID = ''gw'', pub_WebSocketURL = ''ws://gw/ws'', LeaseTTL = 6000000000, PollInterval = 100000000\<rparr>,
     cancelled = False, run_done = False\<rparr>"

lemma ex_laws: "redis_laws ex_server" "json_laws ex_marshal ex_unmarshal ex_server"
proof -
  show "redis_laws ex_server" unfolding redis_laws_def ex_server_def by (auto split: option.splits if_splits)
  show "json_laws ex_marshal ex_unmarshal ex_server"
    by (simp add: json_laws_def ex_marshal_def ex_unmarshal_def ex_server_def dec_enc_field
      dec_enc_field [where r = "[]", simplified])
qed

lemma ex_world_ok: "world_ok ex_parse ex_marshal ex_unmarshal ex_server ex_registry ex_world"
  using ex_laws by (simp add: world_ok_def stored_ok_def ex_world_def ex_server_def ex_registry_def mono_def)

lemmas eval_strings = trim_space_def trim_right_def decode_eqs is_space_def

lemma ex_lease_ok: "lease_ok ex_parse (ex_lease ''ab'')" "lease_ok ex_parse (ex_lease ''cd'')"
  by (simp_all add: lease_ok_def validLease_def ex_lease_def ex_parse_def utf8_lease_def valid_utf8_def encode_runes_def
    encode_rune_def eval_strings char_of_def bit_Suc_0_iff)

lemma ex_ttl: "whole_ms 6000000000"
  by (simp add: whole_ms_def)

section \<open>Properties\<close>

text \<open>(C5) A release never removes the lease of another gateway, whatever happens on the network: a lease that
  resolves before \<^verbatim>\<open>Release\<close>, for another partition or with another token, resolves the same at every later
  instant; a release that succeeds leaves no lease with its own token on its partition; and a release
  creates no lease.\<close>

theorem Release_only_own:
  assumes "world_ok parse marshal unmarshal srv reg w" and "w_release srv reg w p tok = (e, w')" and "w_now w \<le> t"
  shows "(w_view parse unmarshal srv reg w t q = Some l \<and> (q \<noteq> p \<or> Token l \<noteq> tok) \<longrightarrow>
      w_view parse unmarshal srv reg w' t q = Some l) \<and>
    (e = None \<and> w_view parse unmarshal srv reg w' t p = Some l \<longrightarrow> Token l \<noteq> tok) \<and>
    (w_view parse unmarshal srv reg w' t q = Some l \<longrightarrow> w_view parse unmarshal srv reg w t q = Some l)"
  using world_release_view(1) [OF assms, of l] world_release_view(2,3) [OF assms, of q l] by auto

text \<open>Witness of C5: the lease of another gateway survives a release whose reply is lost.\<close>

theorem Release_only_own_witness:
  "\<exists>w. w_view ex_parse ex_unmarshal ex_server ex_registry w 5 3 = Some (ex_lease ''cd'') \<and>
     w_view ex_parse ex_unmarshal ex_server ex_registry (snd (w_release ex_server ex_registry w 3 ''ab'')) 5 3 = Some (ex_lease ''cd'')"
proof -
  let ?w0 = "ex_world\<lparr>w_link := (\<lambda>n. if n = 0 then Up else ReplyLost (RedisError ''eof''))\<rparr>"
  have ok0: "world_ok ex_parse ex_marshal ex_unmarshal ex_server ex_registry ?w0"
    using ex_world_ok by (simp add: world_ok_def w_now_def)
  obtain e w where r: "w_register ex_parse ex_marshal ex_server ex_registry ?w0 3 (ex_lease ''cd'') 6000000000 = (e, w)" by fastforce
  have e: "e = None" "w_now w = 1"
    using r ex_lease_ok by (auto simp: w_register_def Register_def redis_call_def ex_world_def ex_registry_def ex_marshal_def
      lease_ok_def w_now_def)
  have now0: "w_now ?w0 = 0" by (simp add: w_now_def ex_world_def)
  note ok = world_register(1) [OF ok0 ex_lease_ok(2) ex_ttl r]
  have v: "w_view ex_parse ex_unmarshal ex_server ex_registry w 5 3 = Some (ex_lease ''cd'')"
    using world_register_view [OF ok0 ex_lease_ok(2) ex_ttl, of 3 w 5] r e now0 by simp
  obtain f w' where s: "w_release ex_server ex_registry w 3 ''ab'' = (f, w')" by fastforce
  have "Token (ex_lease ''cd'') \<noteq> ''ab''" by (simp add: ex_lease_def)
  with Release_only_own [OF ok s, of 5 3 "ex_lease ''cd''"] v e(2) s show ?thesis by (intro exI [of _ w]) simp
qed

text \<open>(C25) A registered lease resolves, exactly as it was registered, from its registration until its time to
  live has passed and not after; the other partitions of the registry resolve as before.\<close>

theorem Register_Resolve:
  assumes "world_ok parse marshal unmarshal srv reg w" and "lease_ok parse l" and "whole_ms ttl"
    and "w_register parse marshal srv reg w p l ttl = (None, w')" and "w_now w \<le> t"
  shows "Resolve parse unmarshal srv reg Up t (w_db w') p = (if t < w_now w + ttl then Inr l else Inl ErrRouteNotFound) \<and>
    (q \<noteq> p \<longrightarrow> w_view parse unmarshal srv reg w' t q = w_view parse unmarshal srv reg w t q)"
proof -
  have laws: "redis_laws srv" "json_laws marshal unmarshal srv" "client_set reg" using assms(1) by (auto simp: world_ok_def)
  obtain bytes where b: "marshal l = Some bytes" "0 \<le> p" "w_db w' = srv_set srv (w_now w) (w_db w) (key reg p) bytes ttl"
    using world_register(3) [OF assms(1-4)] by blast
  have u: "unmarshal bytes = Some l" by (rule json_lawsD [OF laws(2) assms(2)]) (use b in simp)
  have "Resolve parse unmarshal srv reg Up t (w_db w') p = (if t < w_now w + ttl then Inr l else Inl ErrRouteNotFound)"
    using redis_lawsD(2) [OF laws(1) assms(3,5), of "w_db w" "key reg p" bytes "key reg p"] b u laws(3) assms(2)
    by (simp add: Resolve_def redis_call_def lease_ok_def)
  then show ?thesis using world_register_other [OF assms(1-5)] by blast
qed

text \<open>Witness of C25: a lease of six seconds, five seconds later.\<close>

theorem Register_Resolve_witness:
  "Resolve ex_parse ex_unmarshal ex_server ex_registry Up 5000000000
     (w_db (snd (w_register ex_parse ex_marshal ex_server ex_registry ex_world 3 (ex_lease ''ab'') 6000000000))) 3
   = Inr (ex_lease ''ab'')"
proof -
  obtain e w where r: "w_register ex_parse ex_marshal ex_server ex_registry ex_world 3 (ex_lease ''ab'') 6000000000 = (e, w)" by fastforce
  have e: "e = None" "w_now ex_world = 0"
    using r ex_lease_ok by (auto simp: w_register_def Register_def redis_call_def ex_world_def ex_registry_def ex_marshal_def
      lease_ok_def w_now_def)
  show ?thesis using Register_Resolve [OF ex_world_ok ex_lease_ok(1) ex_ttl, of 3 w 5000000000] r e by simp
qed

text \<open>(C12) Reconciliation: afterwards the published set is the set of assigned partitions; every assigned partition
  whose registration was not reported as failed resolves to this gateway's lease until the time to live
  counted from the start; every partition published before and no longer assigned, unless its release was
  reported as failed, no longer resolves to this gateway; and the leases of other gateways on the
  partitions not assigned are untouched.\<close>

theorem reconcile_leases:
  assumes "world_ok parse marshal unmarshal srv reg w" and "lease_ok parse (pub_lease pub)"
    and "whole_ms (LeaseTTL (pub_config pub))" and "distinct assigned" and "set order = set old"
    and "reconcile (w_register parse marshal srv reg) (w_release srv reg) pub assigned order w = (nxt, rf, lf, w')"
    and "w_now w' \<le> t" and "t < w_now w + LeaseTTL (pub_config pub)"
  shows "set nxt = set assigned \<and>
    (\<forall>p\<in>set assigned - set rf. w_view parse unmarshal srv reg w' t p = Some (pub_lease pub)) \<and>
    (\<forall>p\<in>set old - set assigned - set lf. \<forall>l. w_view parse unmarshal srv reg w' t p = Some l \<longrightarrow> Token l \<noteq> Token (pub_lease pub)) \<and>
    (\<forall>p l. p \<notin> set assigned \<and> w_view parse unmarshal srv reg w t p = Some l \<and> Token l \<noteq> Token (pub_lease pub) \<longrightarrow>
       w_view parse unmarshal srv reg w' t p = Some l)"
proof (intro conjI ballI allI impI)
  note r = assms(2,3,1,4,6)
  show "set nxt = set assigned" using redis.reconcile_ok(3) [OF r] .
  show "w_view parse unmarshal srv reg w' t p = Some (pub_lease pub)" if "p \<in> set assigned - set rf" for p
    using redis.reconcile_owned [OF r _ _ assms(7,8)] that by blast
  show "Token l \<noteq> Token (pub_lease pub)"
    if "p \<in> set old - set assigned - set lf" "w_view parse unmarshal srv reg w' t p = Some l" for p l
    using redis.reconcile_stale [OF r _ _ _ assms(7)] that assms(5) by blast
  show "w_view parse unmarshal srv reg w' t p = Some l"
    if "p \<notin> set assigned \<and> w_view parse unmarshal srv reg w t p = Some l \<and> Token l \<noteq> Token (pub_lease pub)" for p l
    using redis.reconcile_foreign [OF r _ assms(7)] that by blast
qed

text \<open>Witness of C12: partitions 1 and 2 are assigned and 3 was published before.\<close>

theorem reconcile_leases_witness:
  "\<exists>nxt rf lf w. reconcile (w_register ex_parse ex_marshal ex_server ex_registry) (w_release ex_server ex_registry)
       ex_publisher [1, 2] [3] ex_world = (nxt, rf, lf, w) \<and> rf = [] \<and>
     w_view ex_parse ex_unmarshal ex_server ex_registry w 5000000000 2 = Some (ex_lease ''ab'')"
proof -
  obtain nxt rf lf w where r: "reconcile (w_register ex_parse ex_marshal ex_server ex_registry) (w_release ex_server ex_registry)
       ex_publisher [1, 2] [3] ex_world = (nxt, rf, lf, w)" by (metis prod_cases4)
  have v: "validLease ex_parse (ex_lease ''ab'')" using ex_lease_ok(1) by (simp add: lease_ok_def)
  have rf: "rf = []" "w_now w = 3" "w_now ex_world = 0"
    using r v by (auto simp: reconcile_def ex_publisher_def w_register_def Register_def redis_call_def ex_world_def
      ex_registry_def ex_marshal_def w_release_def Release_def w_now_def releaseLeaseScript_def key_def ex_server_def
      show_int_def show_nat.simps key_insert_def eval_strings split: prod.splits option.splits if_splits)
  have "w_view ex_parse ex_unmarshal ex_server ex_registry w 5000000000 2 = Some (pub_lease ex_publisher)"
    using reconcile_leases [OF ex_world_ok, of ex_publisher "[1, 2]" "[3]" "[3]" nxt rf lf w 5000000000] r rf ex_lease_ok(1) ex_ttl
    by (simp add: ex_publisher_def)
  then show ?thesis using r rf by (auto simp: ex_publisher_def)
qed





text \<open>(C27) Stopping withdraws the leases: after the release of everything published, no partition whose release was
  not reported as failed resolves to this gateway, and every lease of another gateway is still there.\<close>

theorem releaseAll_withdraws:
  assumes "world_ok parse marshal unmarshal srv reg w" and "set order = set (published v)"
    and "releaseAll (w_release srv reg) pub order w = (failed, w')" and "w_now w' \<le> t"
  shows "(\<forall>p\<in>set (published v) - set failed. \<forall>l. w_view parse unmarshal srv reg w' t p = Some l \<longrightarrow> Token l \<noteq> Token (pub_lease pub)) \<and>
    (\<forall>p l. w_view parse unmarshal srv reg w t p = Some l \<and> Token l \<noteq> Token (pub_lease pub) \<longrightarrow>
       w_view parse unmarshal srv reg w' t p = Some l)"
proof (intro conjI ballI allI impI)
  have r: "release_each (w_release srv reg) (Token (pub_lease pub)) [] [] order w = (failed, w')"
    using assms(3) by (simp add: releaseAll_def)
  show "Token l \<noteq> Token (pub_lease pub)"
    if "p \<in> set (published v) - set failed" "w_view parse unmarshal srv reg w' t p = Some l" for p l
    using redis.release_each_own [OF assms(1) r assms(4)] that assms(2) by auto
  show "w_view parse unmarshal srv reg w' t p = Some l"
    if "w_view parse unmarshal srv reg w t p = Some l \<and> Token l \<noteq> Token (pub_lease pub)" for p l
    using redis.release_each_foreign [OF assms(1) r assms(4)] that by blast
qed

text \<open>Witness of C27: a registered partition is withdrawn.\<close>

theorem releaseAll_withdraws_witness:
  "\<exists>w w'. w_view ex_parse ex_unmarshal ex_server ex_registry w 9 3 = Some (pub_lease ex_publisher) \<and>
     releaseAll (w_release ex_server ex_registry) ex_publisher [3] w = ([], w') \<and>
     (\<forall>l. w_view ex_parse ex_unmarshal ex_server ex_registry w' 9 3 = Some l \<longrightarrow> Token l \<noteq> ''ab'')"
proof -
  let ?l = "ex_lease ''ab''"
  obtain e w where r: "w_register ex_parse ex_marshal ex_server ex_registry ex_world 3 ?l 6000000000 = (e, w)" by fastforce
  have e: "e = None" "w_now w = 1" "w_link w = (\<lambda>n. Up)" "w_clock w = int" "w_calls w = 1" "w_now ex_world = 0"
    using r ex_lease_ok by (auto simp: w_register_def Register_def redis_call_def ex_world_def ex_registry_def ex_marshal_def
      lease_ok_def w_now_def)
  note ok = world_register(1) [OF ex_world_ok ex_lease_ok(1) ex_ttl r]
  have v: "w_view ex_parse ex_unmarshal ex_server ex_registry w 9 3 = Some ?l"
    using world_register_view [OF ex_world_ok ex_lease_ok(1) ex_ttl, of 3 w 9] r e by simp
  have db: "w_db w (key ex_registry 3) = Some (the (ex_marshal ?l), 6000000000)"
    using r ex_lease_ok by (auto simp: w_register_def Register_def redis_call_def ex_world_def ex_marshal_def ex_server_def
      ex_registry_def lease_ok_def split: if_splits)
  obtain failed w' where rel: "releaseAll (w_release ex_server ex_registry) ex_publisher [3] w = (failed, w')" by fastforce
  have "srv_get ex_server 1 (w_db w) (key ex_registry 3) = Some (the (ex_marshal ?l))" using db by (simp add: ex_server_def)
  moreover have "srv_token ex_server (the (ex_marshal ?l)) = Inr (Some ''ab'')"
    by (simp add: ex_server_def ex_marshal_def dec_enc_field ex_lease_def)
  moreover have "client_set ex_registry" "\<not> blank ''ab''" by (simp_all add: ex_registry_def eval_strings)
  ultimately have "fst (w_release ex_server ex_registry w 3 ''ab'') = None"
    using e by (simp add: w_release_def Release_def redis_call_def releaseLeaseScript_def)
  moreover have "w_now (snd (w_release ex_server ex_registry w 3 ''ab'')) = 2"
    using e by (simp add: w_release_def w_now_def split: prod.split)
  ultimately have "failed = []" "w_now w' = 2"
    using rel by (auto simp: releaseAll_def ex_publisher_def ex_lease_def split: prod.splits option.splits)
  have pub: "set [3] = set (published \<lparr>lastRevision = 1, lastRefresh = 0, published = [3]\<rparr>)"
    and in3: "3 \<in> set (published \<lparr>lastRevision = 1, lastRefresh = 0, published = [3]\<rparr>) - set failed"
    using \<open>failed = []\<close> by simp_all
  have "w_now w' \<le> 9" using \<open>w_now w' = 2\<close> by simp
  from bspec [OF releaseAll_withdraws [OF ok pub rel this, THEN conjunct1] in3]
  have "\<forall>l. w_view ex_parse ex_unmarshal ex_server ex_registry w' 9 3 = Some l \<longrightarrow> Token l \<noteq> Token (pub_lease ex_publisher)" .
  moreover have "pub_lease ex_publisher = ?l" "Token ?l = ''ab''" by (simp_all add: ex_publisher_def ex_lease_def)
  ultimately show ?thesis using v rel \<open>failed = []\<close> by metis
qed

end
