(* ===== verification/Config.thy ===== *)
theory Config
  imports Routing
begin

text \<open>
  The configuration read at start: \<^verbatim>\<open>src/internal/httpserver/kafka_config.go\<close> and \<^verbatim>\<open>routing_config.go\<close>. The
  environment is the argument \<open>env\<close>, giving the empty string for an unset variable as \<^verbatim>\<open>os.Getenv\<close> does; \<open>hostname\<close> is the
  answer of \<^verbatim>\<open>os.Hostname\<close>.
\<close>

section \<open>Kafka\<close>

definition envOrDefault :: "(string \<Rightarrow> string) \<Rightarrow> string \<Rightarrow> string \<Rightarrow> string" where
  "envOrDefault env name fallback =
     (let val = trim_space (env name) in if val \<noteq> [] then val else fallback)"

fun keep_brokers :: "string list \<Rightarrow> string list" where
  "keep_brokers [] = []"
| "keep_brokers (part # parts) =
     (let broker = trim_space part in if broker \<noteq> [] then broker # keep_brokers parts else keep_brokers parts)"

definition splitCSVEnv :: "(string \<Rightarrow> string) \<Rightarrow> string \<Rightarrow> string \<Rightarrow> string list" where
  "splitCSVEnv env name fallback = keep_brokers (split_on CHR '','' (envOrDefault env name fallback))"

definition defaultKafkaBroker :: string where "defaultKafkaBroker = ''localhost:9092''"
definition defaultKafkaTopic :: string where "defaultKafkaTopic = ''danmaku''"
definition defaultKafkaGroup :: string where "defaultKafkaGroup = ''danmuflow-broadcast''"

definition KafkaConfigFromEnv :: "(string \<Rightarrow> string) \<Rightarrow> kafka_config" where
  "KafkaConfigFromEnv env =
     \<lparr>Brokers = splitCSVEnv env ''DANMUFLOW_KAFKA_BROKERS'' defaultKafkaBroker,
      Topic = envOrDefault env ''DANMUFLOW_KAFKA_TOPIC'' defaultKafkaTopic,
      GroupID = envOrDefault env ''DANMUFLOW_KAFKA_GROUP_ID'' defaultKafkaGroup\<rparr>"

section \<open>Routing\<close>

record routing_config =
  RedisAddress :: string
  RedisPassword :: string
  RedisDB :: int
  RedisKeyPrefix :: string
  rc_GatewayID :: string
  PublicWebSocketURL :: string
  rc_LeaseTTL :: duration
  rc_PollInterval :: duration

definition RoutingConfigFromEnv :: "(string \<Rightarrow> string) \<Rightarrow> string option \<Rightarrow> routing_config" where
  "RoutingConfigFromEnv env hostname =
     (let host = (case hostname of None \<Rightarrow> ''unknown-gateway'' | Some h \<Rightarrow> if blank h then ''unknown-gateway'' else h) in
      \<lparr>RedisAddress = envOrDefault env ''DANMUFLOW_REDIS_ADDR'' ''localhost:6379'',
       RedisPassword = env ''DANMUFLOW_REDIS_PASSWORD'',
       RedisDB = 0,
       RedisKeyPrefix = envOrDefault env ''DANMUFLOW_REDIS_ROUTE_PREFIX'' ''danmuflow:routing'',
       rc_GatewayID = envOrDefault env ''DANMUFLOW_GATEWAY_ID'' host,
       PublicWebSocketURL = trim_space (env ''DANMUFLOW_PUBLIC_WS_URL''),
       rc_LeaseTTL = 6000000000,
       rc_PollInterval = 100000000\<rparr>)"

definition enabled :: "routing_config \<Rightarrow> bool" where
  "enabled c \<longleftrightarrow> \<not> blank (PublicWebSocketURL c)"

definition validate_routing :: "(string \<Rightarrow> url option) \<Rightarrow> routing_config \<Rightarrow> routing_error option" where
  "validate_routing parse c =
     (if \<not> enabled c then None
      else if (case parse (PublicWebSocketURL c) of
                 None \<Rightarrow> True
               | Some parsed \<Rightarrow> (Scheme parsed \<noteq> ''ws'' \<and> Scheme parsed \<noteq> ''wss'') \<or> Host parsed = [] \<or>
                   HasUser parsed \<or> RawQuery parsed \<noteq> [] \<or> Fragment parsed \<noteq> [])
      then Some ErrInvalidConfig
      else if blank (RedisAddress c) \<or> blank (rc_GatewayID c) \<or> RedisDB c < 0 \<or> rc_LeaseTTL c \<le> 0 \<or>
              rc_PollInterval c \<le> 0 \<or> rc_LeaseTTL c \<le> rc_PollInterval c
      then Some ErrInvalidConfig
      else None)"

text \<open>From \<^verbatim>\<open>NewWithKafkaAndRouting\<close>: what it passes to the Redis registry and to the publisher.\<close>

definition registry_config :: "kafka_config \<Rightarrow> routing_config \<Rightarrow> redis_config" where
  "registry_config k c =
     (let prefix = trim_suffix (trim_space (RedisKeyPrefix c)) CHR '':'';
          basePrefix = (if prefix = [] then ''danmuflow:routing'' else prefix)
      in \<lparr>Address = RedisAddress c, Password = RedisPassword c, DB = RedisDB c,
          KeyPrefix = basePrefix @ '':'' @ Topic k @ '':'' @ GroupID k\<rparr>)"

definition publisher_config_of :: "routing_config \<Rightarrow> publisher_config" where
  "publisher_config_of c =
     \<lparr>pub_GatewayID = rc_GatewayID c, pub_WebSocketURL = PublicWebSocketURL c,
      LeaseTTL = rc_LeaseTTL c, PollInterval = rc_PollInterval c\<rparr>"

section \<open>Lemmas\<close>

lemma keep_brokers_eq: "keep_brokers parts = filter (\<lambda>s. s \<noteq> []) (map trim_space parts)"
  by (induction parts) (simp_all add: Let_def)

lemma envOrDefault_cases: "envOrDefault env name fallback = (if blank (env name) then fallback else trim_space (env name))"
  by (simp add: envOrDefault_def Let_def)

lemma newPublisherToken_ok:
  assumes "rand 16 = Some bs" and "length bs = 16" and "\<forall>b\<in>set bs. b < 256"
  shows "\<exists>tok. newPublisherToken rand = Some tok \<and> length tok = 32 \<and> \<not> blank tok"
proof -
  have "trim_space (hex_encode bs) = hex_encode bs" using graphic_hex_encode [OF assms(3)] by (rule trim_space_graphic)
  moreover have "length (hex_encode bs) = 32" using assms(2) by simp
  moreover from this have "hex_encode bs \<noteq> []" by force
  ultimately show ?thesis using assms(1) by (auto simp: newPublisherToken_def publisherTokenBytes_def)
qed

lemma not_blank_nonempty: "\<not> blank s \<Longrightarrow> s \<noteq> []"
  by (auto simp: trim_space_def trim_right_def)

lemma routing_starts:
  assumes "validate_routing parse c = None" and "enabled c"
    and "rand 16 = Some bs" and "length bs = 16" and "\<forall>b\<in>set bs. b < 256"
  shows "\<exists>reg pub. NewRedisRegistry (registry_config k c) = Inr reg \<and> client_set reg \<and>
    StartPublisher False False (publisher_config_of c) rand = Inr pub \<and>
    validLease parse (pub_lease pub) \<and> length (Token (pub_lease pub)) = 32"
proof -
  obtain tok where tok: "newPublisherToken rand = Some tok" "length tok = 32" "\<not> blank tok"
    using newPublisherToken_ok [of rand bs] assms(3-5) by blast
  have url: "\<not> blank (PublicWebSocketURL c)" using assms(2) by (simp add: enabled_def)
  have c: "\<not> blank (RedisAddress c)" "\<not> blank (rc_GatewayID c)" "\<not> RedisDB c < 0" "0 < rc_LeaseTTL c"
    "0 < rc_PollInterval c" "rc_PollInterval c < rc_LeaseTTL c"
    using assms(1,2) by (auto simp: validate_routing_def split: if_splits)
  obtain u where u: "parse (PublicWebSocketURL c) = Some u" "Scheme u = ''ws'' \<or> Scheme u = ''wss''" "Host u \<noteq> []"
    "\<not> HasUser u" "RawQuery u = []" "Fragment u = []"
    using assms(1,2) by (auto simp: validate_routing_def split: if_splits option.splits)
  let ?l = "\<lparr>GatewayID = rc_GatewayID c, WebSocketURL = PublicWebSocketURL c, Token = tok\<rparr>"
  have "validLease parse ?l" using tok(3) c(2) u by (simp add: validLease_def)
  moreover have "StartPublisher False False (publisher_config_of c) rand =
      Inr \<lparr>pub_lease = ?l, pub_config = publisher_config_of c, cancelled = False, run_done = False\<rparr>"
    using tok(1) c not_blank_nonempty [OF url] not_blank_nonempty [OF c(2)]
    by (simp add: StartPublisher_def publisher_config_of_def)
  moreover obtain reg where "NewRedisRegistry (registry_config k c) = Inr reg" "client_set reg"
    using c(1,3) by (simp add: NewRedisRegistry_def registry_config_def Let_def)
  ultimately show ?thesis using tok(2) by auto
qed

section \<open>Properties\<close>

text \<open>(C37) A routing configuration that passes \<^verbatim>\<open>validate\<close> starts: with a working random source the registry and the
  publisher are created without error, the lease the publisher will register is one that \<^verbatim>\<open>Register\<close> and
  \<^verbatim>\<open>Resolve\<close> accept, and its token has 32 characters.\<close>

theorem validated_routing_starts:
  assumes "validate_routing parse c = None" and "enabled c"
    and "rand 16 = Some bs" and "length bs = 16" and "\<forall>b\<in>set bs. b < 256"
  shows "\<exists>reg pub. NewRedisRegistry (registry_config k c) = Inr reg \<and> client_set reg \<and>
    StartPublisher False False (publisher_config_of c) rand = Inr pub \<and>
    validLease parse (pub_lease pub) \<and> length (Token (pub_lease pub)) = 32"
  using routing_starts [where rand = rand and bs = bs, OF assms] .

text \<open>Witness of C37: the configuration from an environment that sets only the public address.\<close>

theorem validated_routing_starts_witness:
  "\<exists>c reg pub. c = RoutingConfigFromEnv (\<lambda>v. if v = ''DANMUFLOW_PUBLIC_WS_URL'' then '' ws://gw/ws'' else []) None \<and>
     NewRedisRegistry (registry_config (KafkaConfigFromEnv (\<lambda>v. [])) c) = Inr reg \<and>
     StartPublisher False False (publisher_config_of c) (\<lambda>n. Some (replicate n 7)) = Inr pub \<and>
     validLease ex_parse (pub_lease pub)"
proof -
  let ?c = "RoutingConfigFromEnv (\<lambda>v. if v = ''DANMUFLOW_PUBLIC_WS_URL'' then '' ws://gw/ws'' else []) None"
  have t: "trim_space '' ws://gw/ws'' = ''ws://gw/ws''" "trim_space ''ws://gw/ws'' = ''ws://gw/ws''"
    "\<not> blank ''localhost:6379''" "\<not> blank ''unknown-gateway''" "trim_space [] = []"
    by (simp_all add: eval_strings)
  have c: "enabled ?c" "validate_routing ex_parse ?c = None"
    by (simp_all add: enabled_def validate_routing_def RoutingConfigFromEnv_def envOrDefault_def t ex_parse_def Let_def)
  show ?thesis
    using validated_routing_starts [OF c(2,1), of "\<lambda>n. Some (replicate n 7)" "replicate 16 7" "KafkaConfigFromEnv (\<lambda>v. [])"]
    by auto
qed

text \<open>(C38) The Kafka configuration from the environment: the brokers are the non-blank entries of the list, trimmed
  and in order; \<^verbatim>\<open>NewKafka\<close> accepts the configuration unless the list is set and has no non-blank entry, and
  without any variable it is the default.\<close>

theorem KafkaConfigFromEnv_valid:
  "Brokers (KafkaConfigFromEnv env) =
     filter (\<lambda>s. s \<noteq> []) (map trim_space (split_on CHR '','' (envOrDefault env ''DANMUFLOW_KAFKA_BROKERS'' defaultKafkaBroker))) \<and>
   (NewKafka (KafkaConfigFromEnv env) = (Inl ErrInvalidKafkaConfig :: 'e kafka_bus_error + kafka_bus) \<longleftrightarrow>
      \<not> blank (env ''DANMUFLOW_KAFKA_BROKERS'') \<and>
      list_all blank (split_on CHR '','' (trim_space (env ''DANMUFLOW_KAFKA_BROKERS''))))"
proof -
  let ?parts = "split_on CHR '','' (envOrDefault env ''DANMUFLOW_KAFKA_BROKERS'' defaultKafkaBroker)"
  have b: "Brokers (KafkaConfigFromEnv env) = filter (\<lambda>s. s \<noteq> []) (map trim_space ?parts)"
    by (simp add: KafkaConfigFromEnv_def splitCSVEnv_def keep_brokers_eq)
  have names: "Topic (KafkaConfigFromEnv env) \<noteq> []" "GroupID (KafkaConfigFromEnv env) \<noteq> []"
    by (simp_all add: KafkaConfigFromEnv_def envOrDefault_cases defaultKafkaTopic_def defaultKafkaGroup_def)
  have "\<not> list_ex blank (Brokers (KafkaConfigFromEnv env))" unfolding b by (auto simp: list_ex_iff)
  then have "NewKafka (KafkaConfigFromEnv env) = (Inl ErrInvalidKafkaConfig :: 'e kafka_bus_error + kafka_bus) \<longleftrightarrow>
      Brokers (KafkaConfigFromEnv env) = []"
    using names by (simp add: NewKafka_def)
  also have "\<dots> \<longleftrightarrow> list_all blank ?parts" unfolding b by (simp add: filter_empty_conv list_all_iff)
  also have "\<dots> \<longleftrightarrow> \<not> blank (env ''DANMUFLOW_KAFKA_BROKERS'') \<and>
      list_all blank (split_on CHR '','' (trim_space (env ''DANMUFLOW_KAFKA_BROKERS'')))"
  proof -
    have "\<not> list_all blank (split_on CHR '','' defaultKafkaBroker)" by (simp add: defaultKafkaBroker_def eval_strings)
    then show ?thesis by (simp add: envOrDefault_cases)
  qed
  finally show ?thesis using b by blast
qed

end
