(* ===== verification/Server.thy ===== *)
theory Server
  imports Gateway Config
begin

text \<open>
  \<^verbatim>\<open>src/internal/httpserver/messagebus.go\<close> and \<^verbatim>\<open>server.go\<close>: the consumer that broadcasts messages to rooms, its
  supervisor, readiness, the route query, the ownership monitor, construction and shutdown of the server. The
  theorems here are about components working together.
\<close>

section \<open>The broadcasting consumer\<close>

datatype consume_error = RoomLookup registry_error | RoomPublish room_error

record consumer_state =
  con_rooms :: registry
  con_dropped :: nat

text \<open>The handler given to \<^verbatim>\<open>Consume\<close>; \<open>order\<close> is the order in which Go visits the clients of a room.\<close>

definition consume_handler :: "(room \<Rightarrow> string list) \<Rightarrow> (consume_error, consumer_state) handler" where
  "consume_handler order s msg =
     (case GetOrCreate (con_rooms s) (RoomID msg) of
        Inl e \<Rightarrow> (Some (RoomLookup e), s)
      | Inr (rid, reg) \<Rightarrow>
        (let chatRoom = the (mget reg rid) in
         case Publish chatRoom (Content msg) (order chatRoom) of
           Inl e \<Rightarrow> (if e = ErrNoClient then (None, s\<lparr>con_rooms := reg\<rparr>) else (Some (RoomPublish e), s\<lparr>con_rooms := reg\<rparr>))
         | Inr (result, chatRoom') \<Rightarrow>
             (None, s\<lparr>con_rooms := put_room rid chatRoom' reg, con_dropped := con_dropped s + DroppedClients result\<rparr>)))"

section \<open>The supervisor\<close>

definition consumerRetryInitialDelay :: duration where "consumerRetryInitialDelay = 100000000"
definition consumerRetryMaxDelay :: duration where "consumerRetryMaxDelay = 5000000000"

text \<open>One round: whether the context is done at the head of the loop, whether \<^verbatim>\<open>Consume\<close> returned \<^verbatim>\<open>context.Canceled\<close>,
  whether the context is done then, and whether it is done before the timer fires.\<close>

record round =
  head_done :: bool
  err_canceled :: bool
  after_done :: bool
  wait_done :: bool

text \<open>The delays started, one per restart counted, and whether the supervisor has returned.\<close>

fun supervise :: "duration \<Rightarrow> round list \<Rightarrow> duration list \<times> bool" where
  "supervise retryDelay [] = ([], False)"
| "supervise retryDelay (x # xs) =
     (if head_done x then ([], True)
      else if after_done x \<or> err_canceled x then ([], True)
      else if wait_done x then ([retryDelay], True)
      else case supervise (min (retryDelay * 2) consumerRetryMaxDelay) xs of
        (delays, returned) \<Rightarrow> (retryDelay # delays, returned))"

section \<open>Readiness and routes\<close>

datatype message_bus = InMemory inmemory_bus | KafkaBus kafka_bus

fun bus_ready :: "message_bus \<Rightarrow> bool" where
  "bus_ready (InMemory b) = ConsumerReady_inmemory (Some b)"
| "bus_ready (KafkaBus b) = ConsumerReady_kafka (Some b)"

definition canPublish :: "bool \<Rightarrow> message_bus \<Rightarrow> bool" where
  "canPublish draining b = (if draining then False else bus_ready b)"

text \<open>\<open>check\<close> is the answer of \<^verbatim>\<open>Check\<close> with its timeout.\<close>

definition isReady :: "(message_bus \<Rightarrow> bool) \<Rightarrow> bool \<Rightarrow> message_bus \<Rightarrow> bool" where
  "isReady check draining b = (if \<not> canPublish draining b then False else check b)"

definition ownsRoom :: "(string \<Rightarrow> int list \<Rightarrow> int) \<Rightarrow> message_bus \<Rightarrow> string \<Rightarrow> bool" where
  "ownsRoom balance b roomID = (case b of InMemory _ \<Rightarrow> True | KafkaBus k \<Rightarrow> OwnsRoom balance (Some k) roomID)"

definition ownershipRevision_of :: "message_bus \<Rightarrow> uint64" where
  "ownershipRevision_of b = (case b of InMemory _ \<Rightarrow> 0 | KafkaBus k \<Rightarrow> OwnershipRevision (Some k))"

definition readyz :: "(message_bus \<Rightarrow> bool) \<Rightarrow> bool \<Rightarrow> message_bus \<Rightarrow> nat \<times> string" where
  "readyz check draining b = (if \<not> isReady check draining b then (503, ''not ready\<newline>'') else (200, ''ready\<newline>''))"

datatype route_response =
  RouteText nat string bool
  | RouteFound string int string string

text \<open>\<^verbatim>\<open>/route\<close>: \<open>resolve\<close> is \<^verbatim>\<open>routeRegistry.Resolve\<close>, \<^term>\<open>None\<close> without a registry. The last field of a text answer says
  whether \<^verbatim>\<open>Retry-After\<close> is set.\<close>

definition route ::
  "(string \<Rightarrow> int list \<Rightarrow> int) \<Rightarrow> (int \<Rightarrow> routing_error + lease) option \<Rightarrow> message_bus \<Rightarrow> string \<Rightarrow> route_response" where
  "route balance resolve b query =
     (let roomID = trim_space query; unavailable = ''room route is temporarily unavailable\<newline>'' in
      if roomID = [] then RouteText 400 ''room_id is required\<newline>'' False
      else case (resolve, b) of
        (Some lookup, KafkaBus k) \<Rightarrow>
          (case PartitionForRoom balance (Some k) roomID of
             None \<Rightarrow> RouteText 503 unavailable False
           | Some p \<Rightarrow>
             (case lookup p of
                Inl e \<Rightarrow> RouteText 503 unavailable True
              | Inr l \<Rightarrow> RouteFound roomID p (GatewayID l) (WebSocketURL l)))
      | _ \<Rightarrow> RouteText 503 unavailable False)"

section \<open>The ownership monitor\<close>

text \<open>One tick: the recorded revision, the connections told to close and the table.\<close>

definition monitor_tick :: "uint64 \<Rightarrow> uint64 \<Rightarrow> ws_connections \<Rightarrow> nat list \<Rightarrow> uint64 \<times> nat list \<times> ws_connections" where
  "monitor_tick current last_revision cs order =
     (if current = last_revision then (last_revision, [], cs)
      else case closeForOwnershipChange cs order of (told, cs') \<Rightarrow> (current, told, cs'))"

section \<open>Construction\<close>

datatype resource = ConsumerLoop | RedisClient | PublisherLoop | MonitorLoop

datatype server_error = BusError "consume_error kafka_bus_error" | RoutingErr routing_error

text \<open>\<^verbatim>\<open>NewWithKafkaAndRouting\<close>: the result and the resources started and stopped on the way, in order.\<close>

definition NewWithKafkaAndRouting ::
  "(string \<Rightarrow> url option) \<Rightarrow> kafka_config \<Rightarrow> routing_config \<Rightarrow> (nat \<Rightarrow> nat list option)
    \<Rightarrow> (server_error + kafka_bus \<times> (redis_registry \<times> publisher) option) \<times> resource list \<times> resource list" where
  "NewWithKafkaAndRouting parse kafkaConfig routeConfig rand =
     (case validate_routing parse routeConfig of
        Some e \<Rightarrow> (Inl (RoutingErr e), [], [])
      | None \<Rightarrow>
        (case NewKafka kafkaConfig of
           Inl e \<Rightarrow> (Inl (BusError e), [], [])
         | Inr b \<Rightarrow>
           (if enabled routeConfig then
              (case NewRedisRegistry (registry_config kafkaConfig routeConfig) of
                 Inl e \<Rightarrow> (Inl (RoutingErr e), [ConsumerLoop], [ConsumerLoop])
               | Inr reg \<Rightarrow>
                 (case StartPublisher False False (publisher_config_of routeConfig) rand of
                    Inl e \<Rightarrow> (Inl (RoutingErr e), [ConsumerLoop, RedisClient], [RedisClient, ConsumerLoop])
                  | Inr pub \<Rightarrow>
                      (Inr (b, Some (reg, pub)), [ConsumerLoop, RedisClient, PublisherLoop, MonitorLoop], [])))
            else (Inr (b, None), [ConsumerLoop, MonitorLoop], []))))"

section \<open>Shutdown\<close>

datatype shutdown_error = StopErr ctx_error | RegistryCloseErr redis_error | HttpErr string | ErrServerClosed

text \<open>The server as \<^verbatim>\<open>Shutdown\<close> finds it: \<open>sv_publisher\<close> and \<open>sv_registry\<close> are \<^term>\<open>None\<close> without routing; \<open>sv_consumer\<close> and \<open>sv_http\<close> say that
  the consumer's context is live and that the listener accepts.\<close>

record server =
  sv_draining :: bool
  sv_conns :: ws_connections
  sv_monitor :: bool
  sv_publisher :: "publisher option"
  sv_registry :: "bool option"
  sv_bus :: kafka_bus
  sv_consumer :: bool
  sv_http :: bool

text \<open>\<^verbatim>\<open>stopConsumer\<close>: cancel the consumer's context and close the bus; an error of \<^verbatim>\<open>Close\<close> is only logged.\<close>

definition stop_consumer :: "(nat \<Rightarrow> kafka_error option) \<Rightarrow> kafka_error option \<Rightarrow> server \<Rightarrow> server" where
  "stop_consumer group_close writer_close s =
     s\<lparr>sv_consumer := False, sv_bus := snd (Close_kafka group_close writer_close (sv_bus s))\<rparr>"

text \<open>\<^verbatim>\<open>Shutdown\<close> of a server that is not nil; \<open>order\<close> is the order of the connections, \<open>stopErr\<close>, \<open>closeErr\<close> and \<open>httpErr\<close> the answers of \<^verbatim>\<open>Publisher.Stop\<close>,
  \<^verbatim>\<open>Registry.Close\<close> and the HTTP server. The result: the connections told to close, the joined error in order, and the
  server.\<close>

definition Shutdown ::
  "nat list \<Rightarrow> ctx_error option \<Rightarrow> redis_error option \<Rightarrow> (nat \<Rightarrow> kafka_error option) \<Rightarrow> kafka_error option \<Rightarrow> shutdown_error option
    \<Rightarrow> server \<Rightarrow> nat list \<times> shutdown_error list \<times> server" where
  "Shutdown order stopErr closeError group_close writer_close httpErr s0 =
     (let s1 = s0\<lparr>sv_draining := True\<rparr>;
          (told, cs) = closeForServiceRestart (sv_conns s1) order;
          s2 = s1\<lparr>sv_conns := cs\<rparr>;
          s3 = s2\<lparr>sv_monitor := False\<rparr>;
          (s4, errs4) = (case sv_publisher s3 of
             None \<Rightarrow> (s3, [])
           | Some pub \<Rightarrow> (s3\<lparr>sv_publisher := Some (Stop_cancel pub)\<rparr>, case stopErr of None \<Rightarrow> [] | Some e \<Rightarrow> [StopErr e]));
          (s5, errs5) = (case sv_registry s4 of
             None \<Rightarrow> (s4, [])
           | Some _ \<Rightarrow> (s4\<lparr>sv_registry := Some False\<rparr>, case closeError of None \<Rightarrow> [] | Some e \<Rightarrow> [RegistryCloseErr e]));
          s6 = stop_consumer group_close writer_close s5;
          s7 = s6\<lparr>sv_http := False\<rparr>;
          errs7 = (case httpErr of None \<Rightarrow> [] | Some e \<Rightarrow> if e \<noteq> ErrServerClosed then [e] else [])
      in (told, errs4 @ errs5 @ errs7, s7))"

section \<open>Lemmas\<close>

lemma Publish_room_cases:
  assumes "room_ok r" and "map_order r order" and "\<not> blank content"
  shows "Publish r content order = Inl ErrNoClient \<or> (\<exists>res r'. Publish r content order = Inr (res, r') \<and> room_ok r')"
  using Publish_spec [OF assms(1,2), of content] room_ok_Publish [OF assms(1,2), of content] assms(3) by auto

lemma consume_handler_valid:
  assumes "registry_ok (con_rooms s)" and "Validate d = None" and "\<And>r. map_order r (order r)"
  shows "fst (consume_handler order s d) = None \<and> registry_ok (con_rooms (snd (consume_handler order s d)))"
proof -
  have d: "\<not> blank (RoomID d)" "\<not> blank (Content d)" using assms(2) by (simp_all add: Validate_None_iff)
  obtain rid reg where g: "GetOrCreate (con_rooms s) (RoomID d) = Inr (rid, reg)"
    using d(1) by (cases "mget (con_rooms s) (trim_space (RoomID d))") (auto simp: GetOrCreate_def Let_def)
  note g1 = GetOrCreate_members [OF g assms(1)]
  obtain r where r: "mget reg rid = Some r" "room_ok r" using g1(3) by blast
  from Publish_room_cases [OF r(2) assms(3) d(2)] show ?thesis
    using g r(1) g1(2) registry_ok_put [OF g1(2)] by (auto simp: consume_handler_def)
qed

text \<open>What one message does to the room it is for.\<close>

definition publish_room :: "(room \<Rightarrow> string list) \<Rightarrow> room \<Rightarrow> danmaku \<Rightarrow> room" where
  "publish_room order r d = (case Publish r (Content d) (order r) of Inl e \<Rightarrow> r | Inr (res, r') \<Rightarrow> r')"

lemma publish_room_new: "publish_room order new_room d = new_room"
  by (simp add: publish_room_def Publish_def new_room_def)

lemma consume_handler_room:
  assumes "rid \<noteq> []"
  shows "mget (con_rooms (snd (consume_handler order s d))) rid =
    (if trim_space (RoomID d) = rid
     then Some (publish_room order (case mget (con_rooms s) rid of None \<Rightarrow> new_room | Some r \<Rightarrow> r) d)
     else mget (con_rooms s) rid)"
proof (cases "blank (RoomID d)")
  case True
  then show ?thesis using assms by (auto simp: consume_handler_def GetOrCreate_def)
next
  case False
  then show ?thesis
    by (cases "mget (con_rooms s) (trim_space (RoomID d))")
      (auto simp: consume_handler_def GetOrCreate_def Let_def publish_room_def put_room_def split: sum.split prod.split)
qed

lemma run_handler_Cons: "run_handler h (d # ds) s = run_handler h ds (snd (h s d))"
  by (simp add: run_handler_def)

lemma supervise_shape:
  assumes "supervise d rounds = (delays, returned)" and "0 \<le> d" and "d \<le> consumerRetryMaxDelay"
  shows "(\<forall>k<length delays. delays ! k = min (d * 2 ^ k) consumerRetryMaxDelay) \<and>
    (returned \<longleftrightarrow> (\<exists>x\<in>set rounds. head_done x \<or> after_done x \<or> err_canceled x \<or> wait_done x))"
  using assms
proof (induction rounds arbitrary: d delays)
  case (Cons x xs)
  let ?stop = "head_done x \<or> after_done x \<or> err_canceled x \<or> wait_done x"
  show ?case
  proof (cases ?stop)
    case True
    then show ?thesis using Cons.prems by (auto split: if_splits prod.splits)
  next
    case False
    define d' where "d' = min (d * 2) consumerRetryMaxDelay"
    obtain ds where ds: "supervise d' xs = (ds, returned)" "delays = d # ds"
      using Cons.prems(1) False by (auto simp: d'_def split: prod.splits)
    have d': "0 \<le> d'" "d' \<le> consumerRetryMaxDelay" using Cons.prems(2) by (auto simp: d'_def consumerRetryMaxDelay_def)
    note IH = Cons.IH [OF ds(1) d']
    have "delays ! k = min (d * 2 ^ k) consumerRetryMaxDelay" if "k < length delays" for k
    proof (cases k)
      case 0
      then show ?thesis using ds(2) Cons.prems(3) by simp
    next
      case (Suc j)
      then have "delays ! k = min (d' * 2 ^ j) consumerRetryMaxDelay" using IH that ds(2) by simp
      also have "\<dots> = min (d * 2 ^ k) consumerRetryMaxDelay"
      proof (cases "d * 2 \<le> consumerRetryMaxDelay")
        case False
        let ?M = consumerRetryMaxDelay
        have "?M * 1 \<le> ?M * 2 ^ j" by (intro mult_left_mono) (simp_all add: consumerRetryMaxDelay_def)
        moreover have "?M * 2 ^ j \<le> d * 2 * 2 ^ j" using False by (intro mult_right_mono) simp_all
        ultimately have "min (?M * 2 ^ j) ?M = ?M" "min (d * 2 * 2 ^ j) ?M = ?M" by (simp_all only: min_absorb2 mult_1_right order_trans)
        moreover have "d' = ?M" "d * 2 ^ k = d * 2 * 2 ^ j" using False by (simp_all add: d'_def Suc)
        ultimately show ?thesis by (simp only:)
      qed (simp add: d'_def Suc mult.assoc)
      finally show ?thesis .
    qed
    then show ?thesis using IH False by auto
  qed
qed simp

section \<open>Properties\<close>


definition ex_danmaku :: danmaku where
  "ex_danmaku = \<lparr>MessageID = ''1'', RoomID = ''room'', UserID = ''u'', Content = ''hi'', Sequence = 0, CreatedAt = 1\<rparr>"

definition ex_order :: "room \<Rightarrow> string list" where
  "ex_order r = remdups (mkeys (clients r))"

lemma ex_order_ok: "map_order r (ex_order r)"
  by (simp add: map_order_def ex_order_def)

definition ex_events :: "fetch_event list" where
  "ex_events = map (\<lambda>(v, off). Fetched \<lparr>km_Topic = ''t'', km_Partition = 0, km_Offset = off, km_Value = v\<rparr> None)
     [(''bad'', 4), (''good'', 5)]"


text \<open>(C9) The consumer refines one queue per room: after any sequence of messages, the state of a room is what
  publishing exactly the messages for that room, in their order, makes of it; the messages of other rooms do
  not matter, and a room first met this way is empty.\<close>

theorem consumer_refines_rooms:
  assumes "rid \<noteq> []"
  shows "mget (con_rooms (run_handler (consume_handler order) ms s)) rid =
    (case mget (con_rooms s) rid of
       Some r \<Rightarrow> Some (foldl (publish_room order) r (filter (\<lambda>d. trim_space (RoomID d) = rid) ms))
     | None \<Rightarrow> (if filter (\<lambda>d. trim_space (RoomID d) = rid) ms = [] then None else Some new_room))"
proof (induction ms arbitrary: s)
  case Nil
  show ?case by (simp add: run_handler_def split: option.split)
next
  case (Cons d ms)
  have new: "foldl (publish_room order) new_room ds = new_room" for ds
    by (induction ds) (simp_all add: publish_room_new)
  show ?case
    using consume_handler_room [OF assms, of order s d]
    by (cases "mget (con_rooms s) rid") (simp_all add: run_handler_Cons Cons.IH publish_room_new new)
qed

text \<open>Witness of C9: a message for another room leaves a room as it is.\<close>

theorem consumer_refines_rooms_witness:
  "mget (con_rooms (run_handler (consume_handler ex_order) [ex_danmaku] \<lparr>con_rooms = [(''other'', new_room)], con_dropped = 0\<rparr>)) ''other''
     = Some new_room"
  using consumer_refines_rooms [of "''other''" ex_order "[ex_danmaku]" "\<lparr>con_rooms = [(''other'', new_room)], con_dropped = 0\<rparr>"]
  by (simp add: ex_danmaku_def eval_strings)

text \<open>(C32) Restarts of the consumer: the delay before the restart number \<open>k\<close> (from 0) is 100 ms times \<open>2^k\<close>, at most 5 s,
  and the supervisor returns exactly if its context is done or \<^verbatim>\<open>Consume\<close> was cancelled.\<close>

theorem supervisor_backoff:
  assumes "supervise consumerRetryInitialDelay rounds = (delays, returned)"
  shows "(\<forall>k<length delays. delays ! k = min (100000000 * 2 ^ k) 5000000000) \<and>
    (returned \<longleftrightarrow> (\<exists>x\<in>set rounds. head_done x \<or> after_done x \<or> err_canceled x \<or> wait_done x))"
  using supervise_shape [OF assms] by (simp add: consumerRetryInitialDelay_def consumerRetryMaxDelay_def)

text \<open>Witness of C32: seven failures.\<close>

theorem supervisor_backoff_witness:
  "\<exists>delays. supervise consumerRetryInitialDelay (replicate 7 \<lparr>head_done = False, err_canceled = False, after_done = False, wait_done = False\<rparr>)
     = (delays, False) \<and> delays ! 6 = 5000000000"
proof -
  let ?x = "\<lparr>head_done = False, err_canceled = False, after_done = False, wait_done = False\<rparr>"
  have s: "supervise consumerRetryInitialDelay (replicate 7 ?x) =
      ([100000000, 200000000, 400000000, 800000000, 1600000000, 3200000000, 5000000000], False)"
    by (simp add: numeral_eq_Suc consumerRetryInitialDelay_def consumerRetryMaxDelay_def)
  have "[100000000, 200000000, 400000000, 800000000, 1600000000, 3200000000, 5000000000 :: int] ! 6 = min (100000000 * 2 ^ 6) 5000000000"
    using supervisor_backoff [OF s] by (simp del: nth_Cons_numeral)
  then show ?thesis using s by auto
qed

text \<open>(C7) Routes lead to the owner: when a gateway has reconciled the partitions assigned to it, then until the leases
  expire every gateway that knows the same partitions answers \<^verbatim>\<open>/route\<close> for a room the first gateway owns with that
  gateway's identifier and address, unless the registration of the room's partition was reported as failed.\<close>

theorem route_leads_to_owner:
  assumes "world_ok parse marshal unmarshal srv reg w" and "lease_ok parse (pub_lease pub)"
    and "whole_ms (LeaseTTL (pub_config pub))" and "kafka_ok owner"
    and "reconcile (w_register parse marshal srv reg) (w_release srv reg) pub (AssignedPartitions (Some owner)) order w = (nxt, rf, lf, w')"
    and "w_now w' \<le> t" and "t < w_now w + LeaseTTL (pub_config pub)"
    and "OwnsRoom balance (Some owner) (trim_space query)" and "PartitionForRoom balance (Some owner) (trim_space query) = Some p"
    and "p \<notin> set rf" and "topicPartitions asked = topicPartitions owner" and "partitioner_set asked"
  shows "route balance (Some (Resolve parse unmarshal srv reg Up t (w_db w'))) (KafkaBus asked) query =
    RouteFound (trim_space query) p (GatewayID (pub_lease pub)) (WebSocketURL (pub_lease pub))"
proof -
  have q: "trim_space query \<noteq> []" using assms(8) by (auto simp: OwnsRoom_def split: option.splits if_splits)
  have "p \<in> set (AssignedPartitions (Some owner))" using assms(8,9) by (auto simp: kafka.owns_iff)
  moreover have "distinct (AssignedPartitions (Some owner))"
    using kafka.assigned_sorted [OF assms(4)] by (simp add: strict_sorted_iff)
  ultimately have "w_view parse unmarshal srv reg w' t p = Some (pub_lease pub)"
    using redis.reconcile_owned [OF assms(2,3,1) _ assms(5) _ assms(10,6,7)] by blast
  then have r: "Resolve parse unmarshal srv reg Up t (w_db w') p = Inr (pub_lease pub)"
    by (simp add: w_view_def split: sum.splits)
  have "PartitionForRoom balance (Some asked) (trim_space query) = Some p"
    using assms(9,11,12) by (auto simp: PartitionForRoom_def partitionForRoomLocked_def split: if_splits)
  then show ?thesis using q r by (simp add: route_def Let_def)
qed

text \<open>Witness of C7: the gateway with partition 1 and an empty registry.\<close>

theorem route_leads_to_owner_witness:
  "\<exists>nxt rf lf w'. reconcile (w_register ex_parse ex_marshal ex_server ex_registry) (w_release ex_server ex_registry)
       ex_publisher (AssignedPartitions (Some ex_owner)) [] ex_world = (nxt, rf, lf, w') \<and>
     route (\<lambda>r ps. 1) (Some (Resolve ex_parse ex_unmarshal ex_server ex_registry Up 5000000000 (w_db w'))) (KafkaBus ex_owner) '' room''
       = RouteFound ''room'' 1 ''gw'' ''ws://gw/ws''"
proof -
  have a: "AssignedPartitions (Some ex_owner) = [1]" "kafka_ok ex_owner" "partitioner_set ex_owner"
    by (simp_all add: ex_owner_def ex_bus_def AssignedPartitions_def kafka_ok_def)
  have t: "trim_space '' room'' = ''room''" by (simp add: eval_strings)
  have p: "PartitionForRoom (\<lambda>r ps. 1) (Some ex_owner) ''room'' = Some 1"
    by (simp add: PartitionForRoom_def partitionForRoomLocked_def ex_owner_def ex_bus_def eval_strings)
  obtain nxt rf lf w' where r: "reconcile (w_register ex_parse ex_marshal ex_server ex_registry) (w_release ex_server ex_registry)
       ex_publisher (AssignedPartitions (Some ex_owner)) [] ex_world = (nxt, rf, lf, w')" by (metis prod_cases4)
  have v: "validLease ex_parse (ex_lease ''ab'')" using ex_lease_ok(1) by (simp add: lease_ok_def)
  have rf: "rf = []" "w_now w' = 1" "w_now ex_world = 0"
    using r v by (auto simp: a reconcile_def ex_publisher_def w_register_def Register_def redis_call_def ex_world_def
      ex_registry_def ex_marshal_def w_now_def split: prod.splits option.splits if_splits)
  have pub: "lease_ok ex_parse (pub_lease ex_publisher)" "whole_ms (LeaseTTL (pub_config ex_publisher))"
    using ex_lease_ok(1) ex_ttl by (simp_all add: ex_publisher_def)
  have "route (\<lambda>r ps. 1) (Some (Resolve ex_parse ex_unmarshal ex_server ex_registry Up 5000000000 (w_db w'))) (KafkaBus ex_owner) '' room''
       = RouteFound (trim_space '' room'') 1 (GatewayID (pub_lease ex_publisher)) (WebSocketURL (pub_lease ex_publisher))"
    by (rule route_leads_to_owner [OF ex_world_ok pub a(2) r]) (use rf a(3) p ex_owner_facts(2) t in \<open>simp_all add: ex_publisher_def\<close>)
  then show ?thesis using r t by (auto simp: ex_publisher_def ex_lease_def)
qed



text \<open>(C28) Construction does not leak: if it fails, everything it had started is stopped again, exactly once, and if it
  succeeds nothing is stopped; with a working random source it fails exactly if the routing configuration is
  invalid or the Kafka configuration is.\<close>

theorem New_releases_on_error:
  assumes "NewWithKafkaAndRouting parse kafkaConfig routeConfig rand = (res, started, stopped)"
  shows "mset stopped = (case res of Inl e \<Rightarrow> mset started | Inr x \<Rightarrow> {#}) \<and>
    (\<forall>bs. rand 16 = Some bs \<and> length bs = 16 \<and> (\<forall>b\<in>set bs. b < 256) \<longrightarrow>
       ((\<exists>e. res = Inl e) \<longleftrightarrow> validate_routing parse routeConfig \<noteq> None \<or>
          NewKafka kafkaConfig = (Inl ErrInvalidKafkaConfig :: consume_error kafka_bus_error + kafka_bus)))"
proof (intro conjI allI impI)
  show "mset stopped = (case res of Inl e \<Rightarrow> mset started | Inr x \<Rightarrow> {#})"
    using assms by (auto simp: NewWithKafkaAndRouting_def split: option.splits sum.splits if_splits)
next
  fix bs
  assume bs: "rand 16 = Some bs \<and> length bs = 16 \<and> (\<forall>b\<in>set bs. b < 256)"
  have k: "NewKafka kafkaConfig = (Inl ErrInvalidKafkaConfig :: consume_error kafka_bus_error + kafka_bus) \<longleftrightarrow>
      (\<exists>e. NewKafka kafkaConfig = (Inl e :: consume_error kafka_bus_error + kafka_bus))"
    by (auto simp: NewKafka_def)
  have "\<exists>reg pub. NewRedisRegistry (registry_config kafkaConfig routeConfig) = Inr reg \<and>
      StartPublisher False False (publisher_config_of routeConfig) rand = Inr pub"
    if "validate_routing parse routeConfig = None" "enabled routeConfig"
    using routing_starts [where rand = rand and bs = bs, OF that] bs by blast
  then show "(\<exists>e. res = Inl e) \<longleftrightarrow> validate_routing parse routeConfig \<noteq> None \<or>
      NewKafka kafkaConfig = (Inl ErrInvalidKafkaConfig :: consume_error kafka_bus_error + kafka_bus)"
    unfolding k using assms by (force simp: NewWithKafkaAndRouting_def split: option.splits sum.splits if_splits)
qed

text \<open>Witness of C28: routing is enabled and the random source fails.\<close>

theorem New_releases_on_error_witness:
  "\<exists>c e started stopped. NewWithKafkaAndRouting ex_parse (KafkaConfigFromEnv (\<lambda>v. [])) c (\<lambda>n. None) = (Inl e, started, stopped) \<and>
     started = [ConsumerLoop, RedisClient] \<and> mset stopped = {#ConsumerLoop, RedisClient#}"
proof -
  define c where "c = RoutingConfigFromEnv (\<lambda>v. if v = ''DANMUFLOW_PUBLIC_WS_URL'' then ''ws://gw/ws'' else []) None"
  have t: "trim_space ''ws://gw/ws'' = ''ws://gw/ws''" "\<not> blank ''localhost:6379''" "\<not> blank ''unknown-gateway''" "trim_space [] = []"
    "trim_space ''localhost:9092'' = ''localhost:9092''"
    by (simp_all add: eval_strings)
  have c: "enabled c" "validate_routing ex_parse c = None"
    by (simp_all add: c_def enabled_def validate_routing_def RoutingConfigFromEnv_def envOrDefault_def t ex_parse_def Let_def)
  have k: "\<exists>b. NewKafka (KafkaConfigFromEnv (\<lambda>v. [])) = (Inr b :: consume_error kafka_bus_error + kafka_bus)"
    by (simp add: NewKafka_def KafkaConfigFromEnv_def splitCSVEnv_def envOrDefault_def t defaultKafkaBroker_def
      defaultKafkaTopic_def defaultKafkaGroup_def)
  have r: "\<exists>reg. NewRedisRegistry (registry_config (KafkaConfigFromEnv (\<lambda>v. [])) c) = Inr reg"
    by (simp add: NewRedisRegistry_def registry_config_def c_def RoutingConfigFromEnv_def envOrDefault_def t Let_def)
  have p: "\<exists>e. StartPublisher False False (publisher_config_of c) (\<lambda>n. None) = Inl e"
    by (simp add: StartPublisher_def newPublisherToken_def)
  obtain res started stopped where n: "NewWithKafkaAndRouting ex_parse (KafkaConfigFromEnv (\<lambda>v. [])) c (\<lambda>n. None) = (res, started, stopped)"
    by (metis prod_cases3)
  then obtain e where "res = Inl e" "started = [ConsumerLoop, RedisClient]"
    using c k r p by (auto simp: NewWithKafkaAndRouting_def)
  moreover from this have "mset stopped = mset started" using New_releases_on_error [OF n] by simp
  ultimately show ?thesis using n by (intro exI [of _ c]) auto
qed

end
