(* ===== verification/LoadTest.thy ===== *)
theory LoadTest
  imports GoStrings
begin

text \<open>
  \<^verbatim>\<open>src/cmd/loadtest/main.go\<close>: the load generator. The WebSocket connections are numbered by the client index; what
  dialling, writing and reading answer arrives as arguments and events. The printed report is the record of the
  numbers it prints.
\<close>

section \<open>Configuration\<close>

record load_config =
  websocketURL :: string
  lt_connections :: int
  lt_rooms :: int
  lt_rate :: int
  lt_duration :: duration

datatype load_error =
  BadConnections | BadRooms | RoomsExceedConnections | BadRate | RateTooHigh | BadDuration | ConnectClient nat

definition validateConfig :: "load_config \<Rightarrow> load_error option" where
  "validateConfig c =
     (if lt_connections c \<le> 0 then Some BadConnections
      else if lt_rooms c \<le> 0 then Some BadRooms
      else if lt_connections c < lt_rooms c then Some RoomsExceedConnections
      else if lt_rate c \<le> 0 then Some BadRate
      else if 1000000000 < lt_rate c then Some RateTooHigh
      else if lt_duration c \<le> 0 then Some BadDuration
      else None)"

section \<open>Results\<close>

record stats =
  sent :: nat
  st_received :: nat
  selfDelivered :: nat
  deliveredMessageIDs :: "string list"
  duplicateSelfDelivered :: nat
  writeErrors :: nat
  readErrors :: nat
  latencies :: "duration list"

definition new_stats :: stats where
  "new_stats = \<lparr>sent = 0, st_received = 0, selfDelivered = 0, deliveredMessageIDs = [], duplicateSelfDelivered = 0,
     writeErrors = 0, readErrors = 0, latencies = []\<rparr>"

section \<open>Connecting\<close>

definition room_name :: "load_config \<Rightarrow> nat \<Rightarrow> string" where
  "room_name c i = ''load-room-'' @ show_int (int i mod lt_rooms c)"

definition user_name :: "nat \<Rightarrow> string" where
  "user_name i = ''load-user-'' @ show_int (int i)"

definition dial_url :: "load_config \<Rightarrow> nat \<Rightarrow> string" where
  "dial_url c i = websocketURL c @ ''?room_id='' @ room_name c i @ ''&user_id='' @ user_name i"

text \<open>\<^verbatim>\<open>connectClients\<close>: the clients connected so far, and the next ones; at a failed dial all connected ones are closed.
  The result: the error with the clients closed, or the clients.\<close>

fun connect_from :: "load_config \<Rightarrow> (string \<Rightarrow> bool) \<Rightarrow> nat list \<Rightarrow> nat list \<Rightarrow> (load_error \<times> nat list) + nat list" where
  "connect_from c dial connected [] = Inr connected"
| "connect_from c dial connected (i # is) =
     (if dial (dial_url c i) then connect_from c dial (connected @ [i]) is else Inl (ConnectClient i, connected))"

definition connectClients :: "load_config \<Rightarrow> (string \<Rightarrow> bool) \<Rightarrow> (load_error \<times> nat list) + nat list" where
  "connectClients c dial = connect_from c dial [] [0..<nat (lt_connections c)]"

section \<open>Traffic\<close>

definition messagePrefix :: string where "messagePrefix = ''loadtest''"

definition content_of :: "nat \<Rightarrow> int \<Rightarrow> string" where
  "content_of i sentAt = messagePrefix @ '':'' @ user_name i @ '':'' @ show_int sentAt"

definition send_interval :: "int \<Rightarrow> duration" where
  "send_interval rate = 1000000000 div rate"

text \<open>\<^verbatim>\<open>runTraffic\<close> over the ticks that fire before the end, each with the clock and the success of the write: the
  messages written, by client, and the counters. \<open>n\<close> is the number of clients.\<close>

fun run_traffic :: "nat \<Rightarrow> nat \<Rightarrow> (int \<times> bool) list \<Rightarrow> stats \<Rightarrow> (nat \<times> int \<times> string) list \<times> stats" where
  "run_traffic n i [] s = ([], s)"
| "run_traffic n i ((now, ok) # ticks) s =
     (let s' = (if ok then s\<lparr>sent := Suc (sent s)\<rparr> else s\<lparr>writeErrors := Suc (writeErrors s)\<rparr>) in
      case run_traffic n ((i + 1) mod n) ticks s' of
        (out, s'') \<Rightarrow> ((if ok then [(i, now, content_of i now)] else []) @ out, s''))"

section \<open>Reading\<close>

text \<open>\<^verbatim>\<open>strconv.ParseInt(s, 10, 64)\<close>: an optional sign, decimal digits, within \<^verbatim>\<open>int64\<close>.\<close>

fun parse_digits :: "nat \<Rightarrow> string \<Rightarrow> nat option" where
  "parse_digits acc [] = Some acc"
| "parse_digits acc (c # cs) =
     (if 48 \<le> byte c \<and> byte c \<le> 57 then parse_digits (acc * 10 + (byte c - 48)) cs else None)"

definition ParseInt :: "string \<Rightarrow> int option" where
  "ParseInt s =
     (let (neg, ds) = (case s of [] \<Rightarrow> (False, []) | c # cs \<Rightarrow>
            if c = CHR ''-'' then (True, cs) else if c = CHR ''+'' then (False, cs) else (False, c # cs)) in
      if ds = [] then None
      else case parse_digits 0 ds of
        None \<Rightarrow> None
      | Some n \<Rightarrow> (let v = (if neg then - int n else int n) in if - (2 ^ 63) \<le> v \<and> v < 2 ^ 63 then Some v else None))"

definition recordSelfDelivery :: "string \<Rightarrow> int \<Rightarrow> int \<Rightarrow> stats \<Rightarrow> stats" where
  "recordSelfDelivery messageID sentAt now s =
     (if messageID \<in> set (deliveredMessageIDs s)
      then s\<lparr>duplicateSelfDelivered := Suc (duplicateSelfDelivered s)\<rparr>
      else s\<lparr>deliveredMessageIDs := messageID # deliveredMessageIDs s, selfDelivered := Suc (selfDelivered s),
             latencies := latencies s @ [time_sub now sentAt]\<rparr>)"

text \<open>The send time of a message that is the reader's own.\<close>

definition own_echo :: "string \<Rightarrow> string \<Rightarrow> int option" where
  "own_echo userID content =
     (case split_on CHR '':'' content of
        [a, b, c] \<Rightarrow> if a \<noteq> messagePrefix \<or> b \<noteq> userID then None else ParseInt c
      | _ \<Rightarrow> None)"

text \<open>\<^verbatim>\<open>readMessages\<close> of one client over the frames it reads, with the clock; \<^term>\<open>None\<close> is a read error, which ends it.\<close>

fun read_messages :: "string \<Rightarrow> (string \<times> int) option list \<Rightarrow> stats \<Rightarrow> stats" where
  "read_messages userID [] s = s"
| "read_messages userID (None # es) s = s\<lparr>readErrors := Suc (readErrors s)\<rparr>"
| "read_messages userID (Some (content, now) # es) s =
     (let s1 = s\<lparr>st_received := Suc (st_received s)\<rparr> in
      case own_echo userID content of
        None \<Rightarrow> read_messages userID es s1
      | Some sentAt \<Rightarrow> read_messages userID es (recordSelfDelivery content sentAt now s1))"

section \<open>The report\<close>

definition percentile_index :: "nat \<Rightarrow> nat \<Rightarrow> nat" where
  "percentile_index n p = (n - 1) * p div 100"

definition percentile :: "duration list \<Rightarrow> nat \<Rightarrow> duration" where
  "percentile sorted_list p = sorted_list ! percentile_index (length sorted_list) p"

text \<open>\<^verbatim>\<open>printReport\<close>: the latencies at 50, 95 and 99 percent and the maximum, \<^term>\<open>None\<close> without any.\<close>

definition printReport :: "stats \<Rightarrow> (duration \<times> duration \<times> duration \<times> duration) option" where
  "printReport s =
     (let ls = sort (latencies s) in
      if ls = [] then None
      else Some (percentile ls 50, percentile ls 95, percentile ls 99, ls ! (length ls - 1)))"

section \<open>Lemmas\<close>

lemma parse_digits_snoc:
  "d < 10 \<Longrightarrow> parse_digits acc (xs @ [digit d]) = map_option (\<lambda>m. m * 10 + d) (parse_digits acc xs)"
  by (induction acc xs rule: parse_digits.induct) (auto simp: byte_digit)

lemma parse_show_nat: "parse_digits 0 (show_nat n) = Some n"
proof (induction n rule: show_nat.induct)
  case (1 n)
  show ?case
  proof (cases "n < 10")
    case True
    then show ?thesis using parse_digits_snoc [of n 0 "[]"] by (simp add: show_nat.simps [of n])
  next
    case False
    then show ?thesis using 1 parse_digits_snoc [of "n mod 10" 0 "show_nat (n div 10)"] by (simp add: show_nat.simps [of n])
  qed
qed

lemma show_nat_hd: "show_nat n = c # cs \<Longrightarrow> c \<noteq> CHR ''-'' \<and> c \<noteq> CHR ''+''"
  using show_nat_digits [of c n] by auto

lemma ParseInt_show:
  assumes "- (2 ^ 63) \<le> i" and "i < 2 ^ 63"
  shows "ParseInt (show_int i) = Some i"
proof (cases "i < 0")
  case True
  then show ?thesis using assms parse_show_nat [of "nat (- i)"] by (simp add: ParseInt_def show_int_def Let_def)
next
  case False
  obtain c cs where c: "show_nat (nat i) = c # cs" by (cases "show_nat (nat i)") auto
  then show ?thesis using assms False parse_show_nat [of "nat i"] show_nat_hd [OF c] by (simp add: ParseInt_def show_int_def Let_def)
qed

lemma split_on_none: "d \<notin> set a \<Longrightarrow> split_on d a = [a]"
  by (induction a) auto

lemma split_on_sep: "d \<notin> set a \<Longrightarrow> split_on d (a @ d # b) = a # split_on d b"
  by (induction a) auto

lemma show_int_chars: "c \<in> set (show_int i) \<Longrightarrow> c \<noteq> CHR '':''"
  using show_nat_digits [of c] by (auto simp: show_int_def split: if_splits)

lemma user_name_inj: "user_name i = user_name j \<longleftrightarrow> i = j"
  by (auto simp: user_name_def dest: show_int_inj)

lemma own_echo_content:
  assumes "- (2 ^ 63) \<le> t" and "t < 2 ^ 63"
  shows "own_echo (user_name j) (content_of i t) = (if j = i then Some t else None)"
proof -
  have colon: "CHR '':'' \<notin> set messagePrefix" "CHR '':'' \<notin> set (user_name i)" "CHR '':'' \<notin> set (show_int t)"
    using show_int_chars by (auto simp: messagePrefix_def user_name_def)
  have "split_on CHR '':'' (content_of i t) = [messagePrefix, user_name i, show_int t]"
    using split_on_sep [OF colon(1), of "user_name i @ CHR '':'' # show_int t"] split_on_sep [OF colon(2), of "show_int t"]
      split_on_none [OF colon(3)] by (simp add: content_of_def)
  then show ?thesis using ParseInt_show [OF assms] user_name_inj [of i j] by (auto simp: own_echo_def)
qed

lemma run_traffic_out:
  assumes "run_traffic n i ticks s = (out, s')" and "i < n"
  shows "(\<forall>(k, now, content)\<in>set out. k < n \<and> content = content_of k now \<and> (now, True) \<in> set ticks) \<and>
    length out = sent s' - sent s \<and> sent s \<le> sent s' \<and> sent s' + writeErrors s' = sent s + writeErrors s + length ticks"
  using assms
proof (induction n i ticks s arbitrary: out s' rule: run_traffic.induct)
  case (2 n i now ok ticks s)
  define s1 where "s1 = (if ok then s\<lparr>sent := Suc (sent s)\<rparr> else s\<lparr>writeErrors := Suc (writeErrors s)\<rparr>)"
  obtain out1 where r: "run_traffic n ((i + 1) mod n) ticks s1 = (out1, s')"
    and out: "out = (if ok then [(i, now, content_of i now)] else []) @ out1"
    using "2.prems"(1) by (auto simp: s1_def split: prod.splits)
  have "(i + 1) mod n < n" using "2.prems"(2) by simp
  from "2.IH" [OF s1_def r this] show ?case using out "2.prems"(2) by (auto simp: s1_def split: if_splits)
qed simp

text \<open>The counters of the results agree with the collections.\<close>

definition stats_ok :: "stats \<Rightarrow> bool" where
  "stats_ok s \<longleftrightarrow> distinct (deliveredMessageIDs s) \<and> selfDelivered s = length (deliveredMessageIDs s) \<and>
     length (latencies s) = selfDelivered s \<and> selfDelivered s + duplicateSelfDelivered s \<le> st_received s"

lemma recordSelfDelivery_ok:
  "stats_ok s \<Longrightarrow> stats_ok (recordSelfDelivery m t now (s\<lparr>st_received := Suc (st_received s)\<rparr>))"
  "stats_ok s \<Longrightarrow> stats_ok (s\<lparr>st_received := Suc (st_received s)\<rparr>)"
  by (auto simp: stats_ok_def recordSelfDelivery_def)

lemma read_messages_ok: "stats_ok s \<Longrightarrow> stats_ok (read_messages u es s)"
proof (induction u es s rule: read_messages.induct)
  case (3 u content now es s)
  then show ?case using recordSelfDelivery_ok [of s] by (cases "own_echo u content") simp_all
qed (simp_all add: stats_ok_def)

lemma percentile_index_bound: "p \<le> 100 \<Longrightarrow> percentile_index n p \<le> n - 1"
  using div_le_mono [OF mult_le_mono2 [of p 100 "n - 1"], of 100] by (simp add: percentile_index_def)

lemma percentile_index_mono: "p \<le> q \<Longrightarrow> percentile_index n p \<le> percentile_index n q"
  by (simp add: percentile_index_def div_le_mono)

section \<open>Properties\<close>

text \<open>(C39) A validated load test measures what it sends: the send interval is positive, every room has a connection,
  every message is written by an existing client, its author recognises the echo with the time it was sent
  and no other client takes it for its own, and every tick is counted as sent or failed.\<close>

theorem traffic_echoes:
  assumes "validateConfig c = None" and "run_traffic (nat (lt_connections c)) 0 ticks s = (out, s')"
    and "\<forall>(now, ok)\<in>set ticks. - (2 ^ 63) \<le> now \<and> now < 2 ^ 63"
  shows "0 < send_interval (lt_rate c) \<and>
    (\<forall>k. 0 \<le> k \<and> k < lt_rooms c \<longrightarrow> (\<exists>i<nat (lt_connections c). room_name c i = ''load-room-'' @ show_int k)) \<and>
    (\<forall>(i, now, content)\<in>set out. i < nat (lt_connections c) \<and>
       (\<forall>j. own_echo (user_name j) content = (if j = i then Some now else None))) \<and>
    sent s' + writeErrors s' = sent s + writeErrors s + length ticks"
proof -
  have c: "0 < lt_connections c" "0 < lt_rooms c" "lt_rooms c \<le> lt_connections c" "0 < lt_rate c" "lt_rate c \<le> 1000000000"
    using assms(1) by (auto simp: validateConfig_def split: if_splits)
  have "0 < send_interval (lt_rate c)" using c(4,5) by (simp add: send_interval_def pos_imp_zdiv_pos_iff)
  moreover have "\<exists>i<nat (lt_connections c). room_name c i = ''load-room-'' @ show_int k" if "0 \<le> k" "k < lt_rooms c" for k
    using that c(3) by (intro exI [of _ "nat k"]) (simp add: room_name_def)
  moreover note o = run_traffic_out [OF assms(2)]
  moreover have "own_echo (user_name j) content = (if j = i then Some now else None)" if "(i, now, content) \<in> set out" for i now content j
    using o c(1) that assms(3) own_echo_content [of now j i] by fastforce
  ultimately show ?thesis using c(1) by fastforce
qed

text \<open>Witness of C39: two clients and three ticks, of which the second fails.\<close>

theorem traffic_echoes_witness:
  "\<exists>c out s'. validateConfig c = None \<and> run_traffic 2 0 [(5, True), (6, False), (7, True)] new_stats = (out, s') \<and>
     length out = 2 \<and> sent s' + writeErrors s' = 3"
proof -
  let ?c = "\<lparr>websocketURL = ''ws://h/ws'', lt_connections = 2, lt_rooms = 1, lt_rate = 100, lt_duration = 1000000000\<rparr>"
  have v: "validateConfig ?c = None" by (simp add: validateConfig_def)
  obtain out s' where r: "run_traffic (nat (lt_connections ?c)) 0 [(5, True), (6, False), (7, True)] new_stats = (out, s')" by fastforce
  have "length out = 2" using r by (auto simp: new_stats_def)
  moreover have "sent s' + writeErrors s' = 3" using traffic_echoes [OF v r] by (simp add: new_stats_def)
  ultimately show ?thesis using v r by (intro exI [of _ ?c]) auto
qed



end
