(* ===== verification/Spec2Isabelle.thy ===== *)
theory Spec2Isabelle
  imports Server LoadTest
begin

text \<open>
  DanmuFlow is a gateway for live comments. A browser opens a WebSocket for a room and a user
  (\<^verbatim>\<open>src/internal/httpserver/websocket.go\<close>); the gateway checks each comment (frame, content, rate, sensitive
  words, message identifier) and publishes it on a bus (\<^verbatim>\<open>src/internal/bus\<close>, in memory or Kafka with the room as
  the key). A consumer on the gateway that owns the partition takes the comments from the bus and broadcasts them
  to the clients of the room (\<^verbatim>\<open>messagebus.go\<close>, \<^verbatim>\<open>src/internal/room\<close>). With Kafka, every gateway publishes which
  partitions it owns as leases in Redis (\<^verbatim>\<open>src/internal/routing\<close>), clients ask any gateway for the address of the owner
  of their room (\<^verbatim>\<open>server.go\<close>), and connections for rooms that moved away are closed. A load generator
  (\<^verbatim>\<open>src/cmd/loadtest\<close>) drives the system from outside.

  \<^bold>\<open>The theories and the code they model.\<close>

  \<^item> \<open>Prelude\<close>: type names, association lists as Go maps, sorted lists, instants and durations, the collections
    of rules the components fill.
  \<^item> \<open>GoStrings\<close>: Go strings as byte lists: UTF-8 decoding and encoding, \<^verbatim>\<open>TrimSpace\<close>, \<^verbatim>\<open>ToLower\<close>, \<^verbatim>\<open>Contains\<close>,
    \<^verbatim>\<open>TrimSuffix\<close>, \<^verbatim>\<open>Split\<close>, \<^verbatim>\<open>Itoa\<close>, hexadecimal encoding.
  \<^item> \<open>Message\<close>: \<^verbatim>\<open>message/message.go\<close>, the record of a comment and \<^verbatim>\<open>Validate\<close>.
  \<^item> \<open>Sensitive\<close>: \<^verbatim>\<open>sensitive/filter.go\<close>. The match on bytes is shown equal to a specification on runes (C18).
  \<^item> \<open>Float64\<close>, \<open>RateLimit\<close>: \<^verbatim>\<open>ratelimit/limiter.go\<close>, over a rounding function with the laws of locale
    \<open>rounding\<close>, interpreted by IEEE double precision with ties to even and by exact arithmetic. Tokens stay within
    zero and the burst (C22), a fresh key gets exactly the burst (C23), the rate is bounded over any run (C10), and
    keys do not influence each other (C36).
  \<^item> \<open>Channels\<close>: buffered channels with blocking, and the panics of a closed channel, as values; locale
    \<open>bounded_queue\<close> is the contract of a bounded first-in-first-out queue, interpreted by channels.
  \<^item> \<open>Room\<close>: \<^verbatim>\<open>room/room.go\<close> and \<^verbatim>\<open>room/registry.go\<close>. Delivery order and numbering (C4), no panic in any reachable
    room (C20), the outcome of each operation (C21, C33, C34).
  \<^item> \<open>Bus\<close>: \<^verbatim>\<open>bus/bus.go\<close> and \<^verbatim>\<open>bus/inmemory.go\<close>, with the interleavings of publishers and consumers as a step
    relation (C13, C35).
  \<^item> \<open>Kafka\<close>: \<^verbatim>\<open>bus/kafka.go\<close>: construction, publishing, the consumer group loop, partition workers, ownership
    and its revision, closing. At-least-once delivery and progress of the worker (C2, C24), the error of a generation
    (C30), readiness (C15), metadata lookup (C31), revisions (C11). Locale \<open>room_ownership\<close> is the view of
    ownership the gateway uses.
  \<^item> \<open>Routing\<close>: \<^verbatim>\<open>routing/registry.go\<close>, \<^verbatim>\<open>redis.go\<close>, \<^verbatim>\<open>publisher.go\<close>. Leases are stored, resolved and expire (C25),
    release is guarded by the token (C5), \<^verbatim>\<open>reconcile\<close> and \<^verbatim>\<open>releaseAll\<close> do what they promise under lost requests
    (C12, C27), the publisher follows ownership (C16) and renews in time (C26). Locale \<open>lease_registry\<close> is the
    interface the publisher relies on, interpreted by the Redis registry.
  \<^item> \<open>Config\<close>: \<^verbatim>\<open>httpserver/kafka_config.go\<close>, \<^verbatim>\<open>routing_config.go\<close> and the configurations \<^verbatim>\<open>server.go\<close> derives from
    them (C37, C38).
  \<^item> \<open>Connections\<close>: the table \<^verbatim>\<open>webSocketConnections\<close> of \<^verbatim>\<open>websocket.go\<close>, the pool \<^verbatim>\<open>closeWebSockets\<close> as a step
    relation (C19), and the race of handshakes with ownership updates, monitor and shutdown as a step relation
    \<open>gate_step\<close> (C3, C14).
  \<^item> \<open>Gateway\<close>: the rest of \<^verbatim>\<open>websocket.go\<close>: handshake, read loop, write loop, message identifiers, and the counters
    of \<^verbatim>\<open>metrics/metrics.go\<close> (C6, C8, C29).
  \<^item> \<open>Server\<close>: \<^verbatim>\<open>messagebus.go\<close> and \<^verbatim>\<open>server.go\<close>: the broadcasting handler and its composition with the Kafka worker
    (C1, C9), the supervisor with its delays (C32), readiness, the route query (C7), the monitor, construction (C28)
    and shutdown (C17).
  \<^item> \<open>LoadTest\<close>: \<^verbatim>\<open>cmd/loadtest/main.go\<close> (C39, C40).

  \<^bold>\<open>Modelling.\<close> Methods with a pointer receiver take and return the record of the receiver's fields; a nil pointer is
  \<^term>\<open>None\<close> where the code tests for it. Errors are values of datatypes with one constructor for each error of
  the code, returned on the left of a sum or as an option. A section under a mutex is one step. Loops that wait for
  the outside (fetching from Kafka, reading from a connection, turns of a ticker, restarts) are functions on the list of
  what they meet, so every finite run is covered and no fuel is needed; loops that must end on their own are total
  functions, or step relations whose termination is proved. The order in which Go visits a map is an argument
  wherever it can be observed. \<^verbatim>\<open>uint64\<close> counters are 64-bit words; C11 asks that fewer than \<open>2\<^sup>6\<^sup>4\<close> updates lie
  between two readings of the revision. \<^verbatim>\<open>float64\<close> arithmetic is rational arithmetic with rounding after every
  operation, and the bounds of the limiter keep every value far from overflow. Lease times are whole milliseconds,
  as Redis keeps them, and C26 asks for a poll interval of at most two thirds of the time to live, as the configuration has.

  \<^bold>\<open>Code outside the repository\<close> is an argument of the definitions, with what is relied on as named hypotheses that
  each witness instantiates: kafka-go (the balancer, the answers to writes and lookups, the events of group, fetch
  and commit), the Redis server (\<open>redis_laws\<close>: set with expiry, get, and delete behave as documented; every request may
  also fail, before or after its effect), \<^verbatim>\<open>encoding/json\<close> (\<open>json_laws\<close>: decoding inverts encoding), \<^verbatim>\<open>url.Parse\<close>,
  Unicode's lower-case table outside ASCII, the random source and the clock.

  \<^bold>\<open>Not modelled.\<close> Logging (\<^verbatim>\<open>logging/logger.go\<close>, \<^verbatim>\<open>httpserver/logging.go\<close>): no state depends on it. Registration of
  metrics and the scrape handler, the gin engine and static pages, ping, pong and write deadlines: calls into
  libraries that are not in the repository. \<^verbatim>\<open>cmd/server/main.go\<close> and flag parsing and printing of the load generator: process start and
  terminal output. The monitor goroutine reads its first revision once at start, and \<open>gate_step\<close> takes that reading to happen before the
  first connection.
\<close>

end
